(* ===== verification/Prelude.thy ===== *)
theory Prelude
  imports
    Complex_Main
    "HOL-Library.AList"
    "HOL-Library.Sublist"
    "HOL-Library.Char_ord"
    "HOL-Library.List_Lexorder"
begin

text \<open>
  What the components share: the errors a Python call may raise, results as a sum of an error and
  a value, dictionaries with insertion order, slices, and the lemmas on lists, prefixes and
  majorities that the component theories use.
\<close>

section \<open>Errors and results\<close>

datatype py_error =
    ValueError
  | KeyError
  | IndexError
  | AssertionError
  | TimeoutError
  | NotImplementedError
  | QueueFull
  | InvalidOperation
  | TypeError
  | RuntimeError
  | RpcError

text \<open>A call returns \<open>Inr v\<close>, or raises, which is \<open>Inl e\<close>.\<close>

type_synonym 'a result = "py_error + 'a"

definition rbind :: "'a result \<Rightarrow> ('a \<Rightarrow> 'b result) \<Rightarrow> 'b result" where
  "rbind r f = (case r of Inl e \<Rightarrow> Inl e | Inr v \<Rightarrow> f v)"

lemma rbind_simps [simp]:
  "rbind (Inl e) f = Inl e"
  "rbind (Inr v) f = f v"
  by (simp_all add: rbind_def)

lemma rbind_Inr_conv: "rbind r f = Inr w \<longleftrightarrow> (\<exists>v. r = Inr v \<and> f v = Inr w)"
  by (cases r) auto

lemma rbind_Inl_conv: "rbind r f = Inl e \<longleftrightarrow> r = Inl e \<or> (\<exists>v. r = Inr v \<and> f v = Inl e)"
  by (cases r) auto

definition is_ok :: "'a result \<Rightarrow> bool" where
  "is_ok r \<longleftrightarrow> (\<exists>v. r = Inr v)"

lemma is_ok_simps [simp]: "is_ok (Inr v)" "\<not> is_ok (Inl e)"
  by (auto simp: is_ok_def)

section \<open>Dictionaries\<close>

text \<open>
  A Python dictionary keeps the insertion order of its keys, and an assignment to a present key
  keeps that key's place. The association lists of the library behave so: \<open>AList.update\<close>
  overwrites in place or appends at the end, \<open>AList.delete\<close> removes the key.
\<close>

type_synonym ('k, 'v) dict = "('k \<times> 'v) list"

abbreviation dict_get :: "('k, 'v) dict \<Rightarrow> 'k \<Rightarrow> 'v option" where
  "dict_get d k \<equiv> map_of d k"

abbreviation dict_set :: "'k \<Rightarrow> 'v \<Rightarrow> ('k, 'v) dict \<Rightarrow> ('k, 'v) dict" where
  "dict_set \<equiv> AList.update"

abbreviation dict_del :: "'k \<Rightarrow> ('k, 'v) dict \<Rightarrow> ('k, 'v) dict" where
  "dict_del \<equiv> AList.delete"

abbreviation dict_keys :: "('k, 'v) dict \<Rightarrow> 'k list" where
  "dict_keys d \<equiv> map fst d"

abbreviation dict_values :: "('k, 'v) dict \<Rightarrow> 'v list" where
  "dict_values d \<equiv> map snd d"

definition dict_get_default :: "('k, 'v) dict \<Rightarrow> 'k \<Rightarrow> 'v \<Rightarrow> 'v" where
  "dict_get_default d k v = (case dict_get d k of None \<Rightarrow> v | Some w \<Rightarrow> w)"

lemma dict_get_set [simp]: "dict_get (dict_set k v d) k' = (if k' = k then Some v else dict_get d k')"
  by (simp add: update_conv')

lemma dict_get_del [simp]: "dict_get (dict_del k d) k' = (if k' = k then None else dict_get d k')"
  by (simp add: delete_conv')

lemma dict_keys_set: "dict_keys (dict_set k v d) = (if k \<in> set (dict_keys d) then dict_keys d else dict_keys d @ [k])"
  by (induction d) auto

lemma dict_keys_del: "dict_keys (dict_del k d) = filter (\<lambda>x. x \<noteq> k) (dict_keys d)"
  by (induction d) auto

lemma dict_get_None_iff: "dict_get d k = None \<longleftrightarrow> k \<notin> set (dict_keys d)"
  by (simp add: map_of_eq_None_iff)

lemma dict_get_Some_key: "dict_get d k = Some v \<Longrightarrow> k \<in> set (dict_keys d)"
  by (metis dict_get_None_iff option.distinct(1))

lemma dict_get_map_pair: "dict_get (map (\<lambda>k. (k, f k)) ks) k = (if k \<in> set ks then Some (f k) else None)"
  by (induction ks) auto

lemma dict_values_by_key:
  "distinct (dict_keys d) \<Longrightarrow> dict_values d = map (\<lambda>k. the (dict_get d k)) (dict_keys d)"
proof (induction d)
  case (Cons kv d)
  obtain k v where kv: "kv = (k, v)" by force
  have "dict_values d = map (\<lambda>x. the (dict_get d x)) (dict_keys d)"
    using Cons by simp
  also have "\<dots> = map (\<lambda>x. the (dict_get (kv # d) x)) (dict_keys d)"
    using Cons.prems by (intro map_cong) (auto simp: kv)
  finally show ?case by (simp add: kv)
qed simp

lemma dict_get_default_the: "k \<in> set (dict_keys d) \<Longrightarrow> dict_get_default d k v = the (dict_get d k)"
  by (auto simp: dict_get_default_def dict_get_None_iff split: option.splits)

lemma dict_values_set: "set (dict_values (dict_set k v d)) \<subseteq> insert v (set (dict_values d))"
  by (induction d) auto

section \<open>Lists and prefixes\<close>

text \<open>Python's \<open>xs[i:]\<close> for a non-negative \<open>i\<close>.\<close>

definition py_from :: "'a list \<Rightarrow> int \<Rightarrow> 'a list" where
  "py_from xs i = drop (nat i) xs"

lemma prefix_takeI: "prefix (take k xs) xs"
  by (simp add: take_is_prefix)

lemma prefix_take_mono: "k \<le> l \<Longrightarrow> prefix (take k xs) (take l xs)"
  by (metis min.absorb1 take_is_prefix take_take)

lemma prefix_eq_take: "prefix p xs \<Longrightarrow> p = take (length p) xs"
  by (metis append_eq_conv_conj prefixE)

lemma prefix_nth: "prefix p xs \<Longrightarrow> i < length p \<Longrightarrow> xs ! i = p ! i"
  by (auto simp: prefix_def nth_append)

lemma prefix_iff_take: "prefix p xs \<longleftrightarrow> length p \<le> length xs \<and> p = take (length p) xs"
  using prefix_length_le prefix_eq_take take_is_prefix by metis

lemma prefix_take_agree: "prefix (take k xs) ys \<Longrightarrow> k \<le> length xs \<Longrightarrow> k \<le> length ys \<and> take k ys = take k xs"
  by (auto simp: prefix_iff_take min_absorb2)

lemma take_eq_take_mono: "take n xs = take n ys \<Longrightarrow> m \<le> n \<Longrightarrow> take m xs = take m ys"
  by (metis min.absorb1 take_take)

lemma nth_eq_of_take_eq: "take n xs = take n ys \<Longrightarrow> i < n \<Longrightarrow> xs ! i = ys ! i"
  by (metis nth_take)

lemma take_eq_Suc:
  "take i xs = take i ys \<Longrightarrow> i < length xs \<Longrightarrow> i < length ys \<Longrightarrow> xs ! i = ys ! i
   \<Longrightarrow> take (Suc i) xs = take (Suc i) ys"
  by (simp add: take_Suc_conv_app_nth)

section \<open>Majorities\<close>

text \<open>The size that the nodes of a cluster with \<open>n\<close> members call a majority.\<close>

definition majority_size :: "nat \<Rightarrow> nat" where
  "majority_size n = n div 2 + 1"

definition majorities :: "'n set \<Rightarrow> 'n set set" where
  "majorities N = {Q. Q \<subseteq> N \<and> majority_size (card N) \<le> card Q}"

lemma majorities_intersect:
  assumes "finite N" "Q \<in> majorities N" "Q' \<in> majorities N"
  shows "Q \<inter> Q' \<noteq> {}"
proof
  assume disj: "Q \<inter> Q' = {}"
  have fin: "finite Q" "finite Q'"
    using assms finite_subset by (auto simp: majorities_def)
  then have "card (Q \<union> Q') = card Q + card Q'"
    using disj by (rule card_Un_disjoint)
  also have "\<dots> > card N"
    using assms(2,3) by (auto simp: majorities_def majority_size_def)
  also have "card (Q \<union> Q') \<le> card N"
    using assms by (intro card_mono) (auto simp: majorities_def)
  finally show False by simp
qed

text \<open>
  What the protocol needs of the sets whose agreement decides: any two have a common member.
\<close>

locale quorum =
  fixes Qs :: "'n set set"
  assumes quorum_meet: "Q \<in> Qs \<Longrightarrow> Q' \<in> Qs \<Longrightarrow> Q \<inter> Q' \<noteq> {}"
begin

lemma quorumE:
  assumes "Q \<in> Qs" "Q' \<in> Qs"
  obtains v where "v \<in> Q" "v \<in> Q'"
  using quorum_meet [OF assms] by blast

text \<open>Two decisions taken by quorums of single-valued votes are the same decision.\<close>

lemma quorum_unique:
  assumes "Q \<in> Qs" "Q' \<in> Qs" "\<And>v. v \<in> Q \<Longrightarrow> f v = Some a" "\<And>v. v \<in> Q' \<Longrightarrow> f v = Some b"
  shows "a = b"
proof -
  obtain v where "v \<in> Q" "v \<in> Q'"
    using assms(1,2) by (rule quorumE)
  then show ?thesis
    using assms(3,4) by fastforce
qed

end

interpretation maj: quorum "majorities (set ids)" for ids :: "'n list"
  by unfold_locales (rule majorities_intersect [OF finite_set])

end
