(* ===== verification/Raft_Types.thy ===== *)
theory Raft_Types
  imports Prelude
begin

text \<open>
  The data of raft/types.py and the persistent state of raft/storage.py. Terms and log indices
  are Python integers; indices start at 1 and index 0 stands for the place before the first entry.
  The command of an entry is opaque to Raft and is the type variable \<open>'c\<close> here.
\<close>

section \<open>Messages and log entries (raft/types.py)\<close>

datatype node_state = FOLLOWER | CANDIDATE | LEADER

datatype 'c log_entry = LogEntry
  (entry_term: int) (entry_index: int) (entry_command: 'c)

datatype prevote_args = PreVoteArgs
  (pva_term: int) (pva_candidate_id: string) (pva_last_log_index: int) (pva_last_log_term: int)

datatype prevote_reply = PreVoteReply
  (pvr_term: int) (pvr_vote_granted: bool) (pvr_voter_id: string)

datatype request_vote_args = RequestVoteArgs
  (rva_term: int) (rva_candidate_id: string) (rva_last_log_index: int) (rva_last_log_term: int)

datatype request_vote_reply = RequestVoteReply
  (rvr_term: int) (rvr_vote_granted: bool) (rvr_voter_id: string)

datatype 'c append_entries_args = AppendEntriesArgs
  (aea_term: int) (aea_leader_id: string) (aea_prev_log_index: int) (aea_prev_log_term: int)
  (aea_entries: "'c log_entry list") (aea_leader_commit: int)

datatype append_entries_reply = AppendEntriesReply
  (aer_term: int) (aer_success: bool) (aer_responder_id: string) (aer_match_index: int)
  (aer_conflict_index: int) (aer_conflict_term: int)

text \<open>The union type of raft/transport.py, and its envelope.\<close>

datatype 'c message =
    MRequestVoteArgs request_vote_args
  | MRequestVoteReply request_vote_reply
  | MAppendEntriesArgs "'c append_entries_args"
  | MAppendEntriesReply append_entries_reply
  | MPreVoteArgs prevote_args
  | MPreVoteReply prevote_reply

datatype 'c envelope = Envelope
  (env_sender_id: string) (env_recipient_id: string) (env_message: "'c message")

section \<open>Persistent state (raft/storage.py)\<close>

record 'c storage =
  st_current_term :: int
  st_voted_for :: "string option"
  st_log :: "'c log_entry list"

definition InMemoryStorage :: "'c storage" where
  "InMemoryStorage = \<lparr>st_current_term = 0, st_voted_for = None, st_log = []\<rparr>"

definition get_current_term :: "'c storage \<Rightarrow> int" where
  "get_current_term st = st_current_term st"

definition set_current_term :: "int \<Rightarrow> 'c storage \<Rightarrow> 'c storage" where
  "set_current_term t st = st\<lparr>st_current_term := t\<rparr>"

definition get_voted_for :: "'c storage \<Rightarrow> string option" where
  "get_voted_for st = st_voted_for st"

definition set_voted_for :: "string option \<Rightarrow> 'c storage \<Rightarrow> 'c storage" where
  "set_voted_for c st = st\<lparr>st_voted_for := c\<rparr>"

definition last_index :: "'c storage \<Rightarrow> int" where
  "last_index st = int (length (st_log st))"

definition last_term :: "'c storage \<Rightarrow> int" where
  "last_term st = (if st_log st = [] then 0 else entry_term (last (st_log st)))"

definition term_at :: "'c storage \<Rightarrow> int \<Rightarrow> int" where
  "term_at st index =
     (if index = 0 then 0
      else if 1 \<le> index \<and> index \<le> int (length (st_log st))
        then entry_term (st_log st ! nat (index - 1))
      else -1)"

definition get_entry :: "'c storage \<Rightarrow> int \<Rightarrow> 'c log_entry option" where
  "get_entry st index =
     (if index \<le> 0 then None
      else if index > int (length (st_log st)) then None
      else Some (st_log st ! nat (index - 1)))"

definition entries_from :: "'c storage \<Rightarrow> int \<Rightarrow> 'c log_entry list" where
  "entries_from st index =
     (let index = (if index \<le> 0 then 1 else index) in py_from (st_log st) (index - 1))"

definition append_log :: "'c log_entry list \<Rightarrow> 'c storage \<Rightarrow> 'c storage" where
  "append_log entries st = st\<lparr>st_log := st_log st @ entries\<rparr>"

definition truncate_from :: "int \<Rightarrow> 'c storage \<Rightarrow> 'c storage result" where
  "truncate_from index st =
     (if index \<le> 0 then Inl ValueError
      else Inr (st\<lparr>st_log := take (nat (index - 1)) (st_log st)\<rparr>))"

text \<open>The same readings on a bare log, with natural numbers for positions.\<close>

definition log_term_at :: "'c log_entry list \<Rightarrow> nat \<Rightarrow> int" where
  "log_term_at xs i = (if i = 0 then 0 else if i \<le> length xs then entry_term (xs ! (i - 1)) else -1)"

definition log_last_term :: "'c log_entry list \<Rightarrow> int" where
  "log_last_term xs = log_term_at xs (length xs)"

lemma storage_setter_simps [simp]:
  "get_current_term (set_current_term t st) = t"
  "get_current_term (set_voted_for v st) = get_current_term st"
  "get_current_term (append_log es st) = get_current_term st"
  "get_voted_for (set_voted_for v st) = v"
  "get_voted_for (set_current_term t st) = get_voted_for st"
  "get_voted_for (append_log es st) = get_voted_for st"
  "st_log (set_current_term t st) = st_log st"
  "st_log (set_voted_for v st) = st_log st"
  "st_log (append_log es st) = st_log st @ es"
  by (simp_all add: get_current_term_def set_current_term_def get_voted_for_def
      set_voted_for_def append_log_def)

lemma term_at_log: "0 \<le> i \<Longrightarrow> term_at st i = log_term_at (st_log st) (nat i)"
  by (auto simp: term_at_def log_term_at_def nat_diff_distrib)

lemma term_at_int [simp]: "term_at st (int i) = log_term_at (st_log st) i"
  by (simp add: term_at_log)

lemma last_term_log: "last_term st = log_last_term (st_log st)"
  by (auto simp: last_term_def log_last_term_def log_term_at_def last_conv_nth)

lemma entries_from_log: "1 \<le> i \<Longrightarrow> entries_from st i = drop (nat i - 1) (st_log st)"
  by (simp add: entries_from_def py_from_def nat_diff_distrib)

lemma log_term_at_0 [simp]: "log_term_at xs 0 = 0"
  by (simp add: log_term_at_def)

lemma log_term_at_Suc: "i < length xs \<Longrightarrow> log_term_at xs (Suc i) = entry_term (xs ! i)"
  by (simp add: log_term_at_def)

lemma log_last_term_Nil [simp]: "log_last_term [] = 0"
  by (simp add: log_last_term_def)

lemma log_last_term_snoc [simp]: "log_last_term (xs @ [e]) = entry_term e"
  by (simp add: log_last_term_def log_term_at_def)

lemma log_term_at_prefix:
  assumes "take n xs = take n ys" "i \<le> n" "n \<le> length xs" "n \<le> length ys"
  shows "log_term_at xs i = log_term_at ys i"
proof (cases i)
  case (Suc j)
  then have "xs ! j = ys ! j"
    using assms by (intro nth_eq_of_take_eq [OF assms(1)]) simp
  then show ?thesis
    using Suc assms by (simp add: log_term_at_def)
qed simp

section \<open>The storage interface\<close>

text \<open>
  The protocol \<open>Storage\<close> of raft/storage.py as an interface: an implementation promises that
  its log behaves as a list, read through \<open>abs_log\<close>, with 1-based positions. A disk-backed
  implementation is to satisfy the same laws.
\<close>

locale log_storage =
  fixes abs_log :: "'st \<Rightarrow> 'c log_entry list"
    and s_last_index :: "'st \<Rightarrow> int"
    and s_term_at :: "'st \<Rightarrow> int \<Rightarrow> int"
    and s_get :: "'st \<Rightarrow> int \<Rightarrow> 'c log_entry option"
    and s_entries_from :: "'st \<Rightarrow> int \<Rightarrow> 'c log_entry list"
    and s_append :: "'c log_entry list \<Rightarrow> 'st \<Rightarrow> 'st"
    and s_truncate :: "int \<Rightarrow> 'st \<Rightarrow> 'st result"
  assumes last_index_law: "s_last_index st = int (length (abs_log st))"
    and term_at_law: "0 \<le> i \<Longrightarrow> s_term_at st i = log_term_at (abs_log st) (nat i)"
    and get_law: "s_get st i =
      (if 1 \<le> i \<and> i \<le> int (length (abs_log st)) then Some (abs_log st ! nat (i - 1)) else None)"
    and entries_from_law: "1 \<le> i \<Longrightarrow> s_entries_from st i = drop (nat i - 1) (abs_log st)"
    and append_law: "abs_log (s_append es st) = abs_log st @ es"
    and truncate_law: "1 \<le> i \<Longrightarrow> \<exists>st'. s_truncate i st = Inr st' \<and> abs_log st' = take (nat i - 1) (abs_log st)"
begin

text \<open>What was appended is what a reader finds at the following positions.\<close>

lemma get_after_append:
  assumes "j < length es"
  shows "s_get (s_append es st) (s_last_index st + 1 + int j) = Some (es ! j)"
proof -
  have "nat (int (length (abs_log st)) + int j) = length (abs_log st) + j"
    by simp
  then show ?thesis
    using assms by (simp add: get_law append_law last_index_law nth_append)
qed

lemma term_at_after_append:
  assumes "0 \<le> i" "i \<le> s_last_index st"
  shows "s_term_at (s_append es st) i = s_term_at st i"
  using assms
  by (auto simp: term_at_law append_law last_index_law log_term_at_def nth_append nat_le_iff)

text \<open>Overwriting a suffix: truncating at a position and appending there.\<close>

lemma overwrite_suffix:
  assumes "1 \<le> i" "i \<le> s_last_index st + 1" "s_truncate i st = Inr st'"
  shows "s_entries_from (s_append es st') i = es"
    and "\<And>j. 1 \<le> j \<Longrightarrow> j < i \<Longrightarrow> s_get (s_append es st') j = s_get st j"
proof -
  have st': "abs_log st' = take (nat i - 1) (abs_log st)"
    using truncate_law [OF assms(1), of st] assms(3) by auto
  have len: "length (take (nat i - 1) (abs_log st)) = nat i - 1"
    using assms(1,2) by (simp add: last_index_law)
  show "s_entries_from (s_append es st') i = es"
    using assms(1) len by (simp add: entries_from_law append_law st')
  fix j assume "1 \<le> j" "j < i"
  then show "s_get (s_append es st') j = s_get st j"
    using assms(1,2) len by (auto simp: get_law append_law st' last_index_law nth_append)
qed

end

interpretation mem_storage: log_storage st_log last_index term_at get_entry entries_from
  append_log truncate_from
proof unfold_locales
  fix st :: "'c storage" and i :: int and es
  show "last_index st = int (length (st_log st))" by (simp add: last_index_def)
  show "0 \<le> i \<Longrightarrow> term_at st i = log_term_at (st_log st) (nat i)" by (rule term_at_log)
  show "get_entry st i = (if 1 \<le> i \<and> i \<le> int (length (st_log st))
          then Some (st_log st ! nat (i - 1)) else None)"
    by (auto simp: get_entry_def)
  show "1 \<le> i \<Longrightarrow> entries_from st i = drop (nat i - 1) (st_log st)" by (rule entries_from_log)
  show "st_log (append_log es st) = st_log st @ es" by simp
  show "1 \<le> i \<Longrightarrow> \<exists>st'. truncate_from i st = Inr st' \<and> st_log st' = take (nat i - 1) (st_log st)"
    by (simp add: truncate_from_def nat_diff_distrib)
qed

end
