(* ===== verification/Raft_Protocol.thy ===== *)
theory Raft_Protocol
  imports Raft_Types
begin

text \<open>
  The abstract protocol that the nodes of raft/node.py implement: the state a node's safety
  depends on, a network that is the set of all envelopes ever sent (so that loss, delay,
  duplication and reordering are all allowed), and history variables. One rule per atomic
  action; a handler of the code is a sequence of such actions. The history variables record,
  for every term, the leader and the longest log it had, every vote with the voter's log at that
  time, and how far each node has agreed with the leader of a term.
\<close>

section \<open>State\<close>

record 'c pnode =
  p_term :: int
  p_vote :: "string option"
  p_log :: "'c log_entry list"
  p_role :: node_state
  p_votes :: "string set"
  p_match :: "string \<Rightarrow> nat"
  p_commit :: nat

record 'c pstate =
  pn :: "string \<Rightarrow> 'c pnode"
  net :: "'c envelope set"
  g_leader :: "int \<Rightarrow> string option"
  g_llog :: "int \<Rightarrow> 'c log_entry list"
  g_vote :: "string \<Rightarrow> int \<Rightarrow> string option"
  g_vlog :: "string \<Rightarrow> int \<Rightarrow> 'c log_entry list"
  g_acc :: "int \<Rightarrow> string \<Rightarrow> nat"

abbreviation trm :: "'c pstate \<Rightarrow> string \<Rightarrow> int" where "trm p n \<equiv> p_term (pn p n)"
abbreviation plog :: "'c pstate \<Rightarrow> string \<Rightarrow> 'c log_entry list" where "plog p n \<equiv> p_log (pn p n)"
abbreviation role :: "'c pstate \<Rightarrow> string \<Rightarrow> node_state" where "role p n \<equiv> p_role (pn p n)"
abbreviation commit :: "'c pstate \<Rightarrow> string \<Rightarrow> nat" where "commit p n \<equiv> p_commit (pn p n)"

definition upd :: "string \<Rightarrow> ('c pnode \<Rightarrow> 'c pnode) \<Rightarrow> 'c pstate \<Rightarrow> 'c pstate" where
  "upd n f p = p\<lparr>pn := (pn p)(n := f (pn p n))\<rparr>"

definition emit :: "'c envelope \<Rightarrow> 'c pstate \<Rightarrow> 'c pstate" where
  "emit e p = p\<lparr>net := insert e (net p)\<rparr>"

lemma upd_simps [simp]:
  "pn (upd n f p) m = (if m = n then f (pn p n) else pn p m)"
  "net (upd n f p) = net p" "g_leader (upd n f p) = g_leader p" "g_llog (upd n f p) = g_llog p"
  "g_vote (upd n f p) = g_vote p" "g_vlog (upd n f p) = g_vlog p" "g_acc (upd n f p) = g_acc p"
  by (simp_all add: upd_def)

lemma emit_simps [simp]:
  "pn (emit e p) = pn p" "net (emit e p) = insert e (net p)" "g_leader (emit e p) = g_leader p"
  "g_llog (emit e p) = g_llog p" "g_vote (emit e p) = g_vote p" "g_vlog (emit e p) = g_vlog p"
  "g_acc (emit e p) = g_acc p"
  by (simp_all add: emit_def)

text \<open>The up-to-date test of a vote, and what a node's log becomes when it accepts entries.\<close>

definition up_to_date :: "int \<Rightarrow> int \<Rightarrow> 'c log_entry list \<Rightarrow> bool" where
  "up_to_date lli llt xs =
     (if llt \<noteq> log_last_term xs then llt > log_last_term xs else lli \<ge> int (length xs))"

fun reconcile :: "nat \<Rightarrow> 'c log_entry list \<Rightarrow> 'c log_entry list \<Rightarrow> 'c log_entry list" where
  "reconcile i [] xs = xs"
| "reconcile i (e # es) xs =
     (if length xs \<le> i then xs @ e # es
      else if entry_term (xs ! i) \<noteq> entry_term e then take i xs @ e # es
      else reconcile (Suc i) es xs)"

definition set_vote :: "string \<Rightarrow> string \<Rightarrow> 'c pstate \<Rightarrow> 'c pstate" where
  "set_vote n c p = p\<lparr>
     g_vote := (g_vote p)(n := (g_vote p n)(trm p n := Some c)),
     g_vlog := (g_vlog p)(n := (g_vlog p n)(trm p n := plog p n))\<rparr>"

definition set_acc :: "string \<Rightarrow> nat \<Rightarrow> 'c pstate \<Rightarrow> 'c pstate" where
  "set_acc n k p = p\<lparr>
     g_acc := (g_acc p)(trm p n := (g_acc p (trm p n))(n := max (g_acc p (trm p n) n) k))\<rparr>"

definition set_llog :: "string \<Rightarrow> 'c pstate \<Rightarrow> 'c pstate" where
  "set_llog n p = p\<lparr>
     g_leader := (g_leader p)(trm p n := Some n),
     g_llog := (g_llog p)(trm p n := plog p n)\<rparr>"

lemma set_vote_simps [simp]:
  "pn (set_vote n c p) = pn p" "net (set_vote n c p) = net p"
  "g_leader (set_vote n c p) = g_leader p" "g_llog (set_vote n c p) = g_llog p"
  "g_acc (set_vote n c p) = g_acc p"
  "g_vote (set_vote n c p) m t = (if m = n \<and> t = trm p n then Some c else g_vote p m t)"
  "g_vlog (set_vote n c p) m t = (if m = n \<and> t = trm p n then plog p n else g_vlog p m t)"
  by (simp_all add: set_vote_def)

lemma set_acc_simps [simp]:
  "pn (set_acc n k p) = pn p" "net (set_acc n k p) = net p"
  "g_leader (set_acc n k p) = g_leader p" "g_llog (set_acc n k p) = g_llog p"
  "g_vote (set_acc n k p) = g_vote p" "g_vlog (set_acc n k p) = g_vlog p"
  "g_acc (set_acc n k p) t m = (if t = trm p n \<and> m = n then max (g_acc p t n) k else g_acc p t m)"
  by (auto simp: set_acc_def)

lemma set_llog_simps [simp]:
  "pn (set_llog n p) = pn p" "net (set_llog n p) = net p"
  "g_vote (set_llog n p) = g_vote p" "g_vlog (set_llog n p) = g_vlog p" "g_acc (set_llog n p) = g_acc p"
  "g_leader (set_llog n p) t = (if t = trm p n then Some n else g_leader p t)"
  "g_llog (set_llog n p) t = (if t = trm p n then plog p n else g_llog p t)"
  by (simp_all add: set_llog_def)

section \<open>Actions\<close>

definition harmless :: "'c message \<Rightarrow> bool" where
  "harmless m = (case m of MPreVoteArgs _ \<Rightarrow> True | MPreVoteReply _ \<Rightarrow> True
     | MRequestVoteReply r \<Rightarrow> \<not> rvr_vote_granted r | _ \<Rightarrow> False)"

inductive pstep :: "string set set \<Rightarrow> 'c pstate \<Rightarrow> 'c pstate \<Rightarrow> bool" for Qs where
  bump_term: "trm p n < t \<Longrightarrow>
    pstep Qs p (upd n (\<lambda>x. x\<lparr>p_term := t, p_vote := None, p_role := FOLLOWER, p_votes := {}\<rparr>) p)"
| candidacy:
    "pstep Qs p (set_vote n n (upd n (\<lambda>x. x\<lparr>p_term := p_term x + 1, p_vote := Some n,
       p_role := CANDIDATE, p_votes := {n}\<rparr>) p))"
| send_request_vote: "role p n = CANDIDATE \<Longrightarrow>
    pstep Qs p (emit (Envelope n d (MRequestVoteArgs (RequestVoteArgs (trm p n) n
      (int (length (plog p n))) (log_last_term (plog p n))))) p)"
| cast_vote: "Envelope s n (MRequestVoteArgs (RequestVoteArgs (trm p n) c lli llt)) \<in> net p \<Longrightarrow>
    p_vote (pn p n) = None \<Longrightarrow> up_to_date lli llt (plog p n) \<Longrightarrow>
    pstep Qs p (set_vote n c (upd n (\<lambda>x. x\<lparr>p_vote := Some c\<rparr>) p))"
| send_vote: "p_vote (pn p n) = Some c \<Longrightarrow>
    pstep Qs p (emit (Envelope n c (MRequestVoteReply (RequestVoteReply (trm p n) True n))) p)"
| count_vote: "Envelope v n (MRequestVoteReply (RequestVoteReply (trm p n) True w)) \<in> net p \<Longrightarrow>
    role p n = CANDIDATE \<Longrightarrow>
    pstep Qs p (upd n (\<lambda>x. x\<lparr>p_votes := insert w (p_votes x)\<rparr>) p)"
| lead: "role p n = CANDIDATE \<Longrightarrow> p_votes (pn p n) \<in> Qs \<Longrightarrow>
    pstep Qs p (set_acc n (length (plog p n)) (set_llog n
      (upd n (\<lambda>x. x\<lparr>p_role := LEADER, p_match := (\<lambda>_. 0)\<rparr>) p)))"
| client_append: "role p n = LEADER \<Longrightarrow>
    pstep Qs p (set_acc n (Suc (length (plog p n))) (set_llog n
      (upd n (\<lambda>x. x\<lparr>p_log := p_log x @ [LogEntry (p_term x) (int (length (p_log x)) + 1) cmd]\<rparr>) p)))"
| send_append: "role p n = LEADER \<Longrightarrow> d \<noteq> n \<Longrightarrow> prev \<le> length (plog p n) \<Longrightarrow>
    pstep Qs p (emit (Envelope n d (MAppendEntriesArgs (AppendEntriesArgs (trm p n) n (int prev)
      (log_term_at (plog p n) prev) (drop prev (plog p n)) (int (commit p n))))) p)"
| step_down: "pstep Qs p (upd n (\<lambda>x. x\<lparr>p_role := FOLLOWER\<rparr>) p)"
| accept_append:
    "Envelope s n (MAppendEntriesArgs (AppendEntriesArgs (trm p n) l (int prev) pt es lc)) \<in> net p \<Longrightarrow>
     role p n = FOLLOWER \<Longrightarrow> prev \<le> length (plog p n) \<Longrightarrow> log_term_at (plog p n) prev = pt \<Longrightarrow>
     xs = reconcile prev es (plog p n) \<Longrightarrow>
     k = (if lc > int (commit p n) then nat (min lc (int (length xs))) else commit p n) \<Longrightarrow>
     pstep Qs p (set_acc n (prev + length es) (upd n (\<lambda>x. x\<lparr>p_log := xs, p_commit := k\<rparr>) p))"
| send_ack: "k \<le> g_acc p (trm p n) n \<Longrightarrow>
    pstep Qs p (emit (Envelope n d (MAppendEntriesReply
      (AppendEntriesReply (trm p n) True n (int k) ci ct))) p)"
| send_nack: "ci \<le> int (length (g_llog p (trm p n))) \<Longrightarrow> (ct \<noteq> -1 \<Longrightarrow> 1 \<le> ci) \<Longrightarrow>
    pstep Qs p (emit (Envelope n d (MAppendEntriesReply
      (AppendEntriesReply (trm p n) False n k ci ct))) p)"
| count_ack:
    "Envelope m n (MAppendEntriesReply (AppendEntriesReply (trm p n) True r k ci ct)) \<in> net p \<Longrightarrow>
     role p n = LEADER \<Longrightarrow>
     pstep Qs p (upd n (\<lambda>x. x\<lparr>p_match := (p_match x)(m := max (p_match x m) (nat k))\<rparr>) p)"
| leader_commit: "role p n = LEADER \<Longrightarrow> commit p n < k \<Longrightarrow> k \<le> length (plog p n) \<Longrightarrow>
    log_term_at (plog p n) k = trm p n \<Longrightarrow> Q \<in> Qs \<Longrightarrow>
    (\<And>m. m \<in> Q \<Longrightarrow> m = n \<or> k \<le> p_match (pn p n) m) \<Longrightarrow>
    pstep Qs p (upd n (\<lambda>x. x\<lparr>p_commit := k\<rparr>) p)"
| send_other: "harmless m \<Longrightarrow> pstep Qs p (emit (Envelope n d m) p)"
| restart: "pstep Qs p (upd n (\<lambda>x. x\<lparr>p_role := FOLLOWER, p_votes := {}, p_match := (\<lambda>_. 0),
    p_commit := 0\<rparr>) p)"

definition pinit :: "'c pstate" where
  "pinit = \<lparr>pn = (\<lambda>_. \<lparr>p_term = 0, p_vote = None, p_log = [], p_role = FOLLOWER, p_votes = {},
              p_match = (\<lambda>_. 0), p_commit = 0\<rparr>),
            net = {}, g_leader = (\<lambda>_. None), g_llog = (\<lambda>_. []), g_vote = (\<lambda>_ _. None),
            g_vlog = (\<lambda>_ _. []), g_acc = (\<lambda>_ _. 0)\<rparr>"

section \<open>What never goes back\<close>

text \<open>
  The order in which a protocol state grows. Most of what the invariants say of messages and
  logs is stable under it, so that an action that leaves the messages alone keeps all of it.
\<close>

definition grows :: "'c pstate \<Rightarrow> 'c pstate \<Rightarrow> bool" where
  "grows p p' \<longleftrightarrow>
     (\<forall>n. trm p n \<le> trm p' n) \<and>
     (\<forall>n t c. g_vote p n t = Some c \<longrightarrow> g_vote p' n t = Some c) \<and>
     (\<forall>t c. g_leader p t = Some c \<longrightarrow> g_leader p' t = Some c) \<and>
     (\<forall>t. prefix (g_llog p t) (g_llog p' t)) \<and>
     (\<forall>t n. g_acc p t n \<le> g_acc p' t n) \<and>
     (\<forall>t n. t < trm p n \<longrightarrow> g_acc p' t n = g_acc p t n)"

definition valid :: "'c pstate \<Rightarrow> int \<Rightarrow> nat \<Rightarrow> bool" where
  "valid p t k \<longleftrightarrow> 1 \<le> k \<and> k \<le> length (g_llog p t) \<and> entry_term (g_llog p t ! (k - 1)) = t"

definition chosen :: "string set set \<Rightarrow> 'c pstate \<Rightarrow> int \<Rightarrow> nat \<Rightarrow> bool" where
  "chosen Qs p t k \<longleftrightarrow> (\<exists>Q \<in> Qs. \<forall>m \<in> Q. k \<le> g_acc p t m)"

definition dead :: "string set set \<Rightarrow> 'c pstate \<Rightarrow> int \<Rightarrow> nat \<Rightarrow> bool" where
  "dead Qs p t k \<longleftrightarrow> (\<exists>Q \<in> Qs. \<forall>m \<in> Q. t < trm p m \<and> g_acc p t m < k)"

definition committed :: "string set set \<Rightarrow> 'c pstate \<Rightarrow> int \<Rightarrow> 'c log_entry list \<Rightarrow> bool" where
  "committed Qs p T xs \<longleftrightarrow> xs = [] \<or>
     (\<exists>t k. t \<le> T \<and> valid p t k \<and> chosen Qs p t k \<and> prefix xs (take k (g_llog p t)))"

definition wf_log :: "'c pstate \<Rightarrow> 'c log_entry list \<Rightarrow> bool" where
  "wf_log p xs \<longleftrightarrow> sorted (map entry_term xs) \<and>
     (\<forall>i < length xs. g_leader p (entry_term (xs ! i)) \<noteq> None \<and>
        i < length (g_llog p (entry_term (xs ! i))) \<and>
        take (Suc i) xs = take (Suc i) (g_llog p (entry_term (xs ! i))) \<and>
        entry_index (xs ! i) = int i + 1)"

fun msg_ok :: "string set set \<Rightarrow> 'c pstate \<Rightarrow> 'c envelope \<Rightarrow> bool" where
  "msg_ok Qs p (Envelope s d (MRequestVoteArgs (RequestVoteArgs t c lli llt))) \<longleftrightarrow>
     s = c \<and> t \<le> trm p c"
| "msg_ok Qs p (Envelope s d (MRequestVoteReply (RequestVoteReply t g w))) \<longleftrightarrow>
     (g \<longrightarrow> w = s \<and> g_vote p s t = Some d)"
| "msg_ok Qs p (Envelope s d (MAppendEntriesArgs (AppendEntriesArgs t l prev pt es lc))) \<longleftrightarrow>
     g_leader p t = Some s \<and> l = s \<and> s \<noteq> d \<and> 0 \<le> prev \<and>
     nat prev + length es \<le> length (g_llog p t) \<and>
     es = take (length es) (drop (nat prev) (g_llog p t)) \<and>
     pt = log_term_at (g_llog p t) (nat prev) \<and>
     0 \<le> lc \<and> lc \<le> prev + int (length es) \<and>
     committed Qs p t (take (nat lc) (g_llog p t))"
| "msg_ok Qs p (Envelope s d (MAppendEntriesReply (AppendEntriesReply t succ r k ci ct))) \<longleftrightarrow>
     t \<le> trm p s \<and>
     (succ \<longrightarrow> 0 \<le> k \<and> nat k \<le> g_acc p t s) \<and>
     (\<not> succ \<longrightarrow> ci \<le> int (length (g_llog p t)) \<and> (ct \<noteq> -1 \<longrightarrow> 1 \<le> ci))"
| "msg_ok Qs p _ = True"

section \<open>The invariant\<close>

definition inv_vote :: "string set set \<Rightarrow> 'c pstate \<Rightarrow> bool" where
  "inv_vote Qs p \<longleftrightarrow>
     (\<forall>n t c. g_vote p n t = Some c \<longrightarrow> t \<le> trm p n) \<and>
     (\<forall>n. p_vote (pn p n) = g_vote p n (trm p n)) \<and>
     (\<forall>n v. role p n = CANDIDATE \<longrightarrow> v \<in> p_votes (pn p n) \<longrightarrow> g_vote p v (trm p n) = Some n) \<and>
     (\<forall>n. role p n = CANDIDATE \<longrightarrow> g_leader p (trm p n) \<noteq> Some n \<and> 1 \<le> trm p n) \<and>
     (\<forall>t c. g_leader p t = Some c \<longrightarrow>
        1 \<le> t \<and> t \<le> trm p c \<and> (\<exists>Q \<in> Qs. \<forall>v \<in> Q. g_vote p v t = Some c)) \<and>
     (\<forall>n. role p n = LEADER \<longrightarrow> g_leader p (trm p n) = Some n \<and> plog p n = g_llog p (trm p n)) \<and>
     (\<forall>n. 0 \<le> trm p n)"

definition inv_acc :: "'c pstate \<Rightarrow> bool" where
  "inv_acc p \<longleftrightarrow>
     (\<forall>t. g_leader p t = None \<longrightarrow> g_llog p t = []) \<and>
     (\<forall>t n. g_acc p t n \<le> length (g_llog p t)) \<and>
     (\<forall>t n. 0 < g_acc p t n \<longrightarrow> t \<le> trm p n) \<and>
     (\<forall>n. role p n = LEADER \<longrightarrow> g_acc p (trm p n) n = length (g_llog p (trm p n))) \<and>
     (\<forall>n m. role p n = LEADER \<longrightarrow> p_match (pn p n) m \<le> g_acc p (trm p n) m)"

definition inv_log :: "'c pstate \<Rightarrow> bool" where
  "inv_log p \<longleftrightarrow>
     (\<forall>n. wf_log p (plog p n)) \<and> (\<forall>t. wf_log p (g_llog p t)) \<and> (\<forall>n t. wf_log p (g_vlog p n t)) \<and>
     (\<forall>n. \<forall>e \<in> set (plog p n). entry_term e \<le> trm p n) \<and>
     (\<forall>t. \<forall>e \<in> set (g_llog p t). entry_term e \<le> t)"

definition inv_net :: "string set set \<Rightarrow> 'c pstate \<Rightarrow> bool" where
  "inv_net Qs p \<longleftrightarrow> (\<forall>e \<in> net p. msg_ok Qs p e)"

definition inv_cand :: "'c pstate \<Rightarrow> bool" where
  "inv_cand p \<longleftrightarrow>
     (\<forall>s d c lli llt. Envelope s d (MRequestVoteArgs (RequestVoteArgs (trm p c) c lli llt)) \<in> net p \<longrightarrow>
        role p c = CANDIDATE \<longrightarrow> lli = int (length (plog p c)) \<and> llt = log_last_term (plog p c)) \<and>
     (\<forall>v c. role p c = CANDIDATE \<longrightarrow> g_vote p v (trm p c) = Some c \<longrightarrow>
        up_to_date (int (length (plog p c))) (log_last_term (plog p c)) (g_vlog p v (trm p c))) \<and>
     (\<forall>v t c. g_vote p v t = Some c \<longrightarrow> t \<le> trm p c)"

text \<open>
  The heart of the proof. Once a node has agreed with the leader of term \<open>t\<close> on its first
  \<open>k\<close> entries, the k-th of them being of term \<open>t\<close>, those entries stay in its log, in the
  log it votes with later, and in the log of every later leader, unless a quorum has already
  left term \<open>t\<close> without agreeing, so that they can never be chosen.
\<close>

definition inv_key :: "string set set \<Rightarrow> 'c pstate \<Rightarrow> bool" where
  "inv_key Qs p \<longleftrightarrow>
     (\<forall>n t k. valid p t k \<longrightarrow> k \<le> g_acc p t n \<longrightarrow>
        prefix (take k (g_llog p t)) (plog p n) \<or> dead Qs p t k) \<and>
     (\<forall>n t t' k. valid p t k \<longrightarrow> k \<le> g_acc p t n \<longrightarrow> t < t' \<longrightarrow> g_vote p n t' \<noteq> None \<longrightarrow>
        prefix (take k (g_llog p t)) (g_vlog p n t') \<or> dead Qs p t k) \<and>
     (\<forall>t t' k. valid p t k \<longrightarrow> t < t' \<longrightarrow> g_leader p t' \<noteq> None \<longrightarrow>
        prefix (take k (g_llog p t)) (g_llog p t') \<or> dead Qs p t k)"

definition inv_commit :: "string set set \<Rightarrow> 'c pstate \<Rightarrow> bool" where
  "inv_commit Qs p \<longleftrightarrow>
     (\<forall>n. commit p n \<le> length (plog p n) \<and> committed Qs p (trm p n) (take (commit p n) (plog p n)))"

definition pinv :: "string set set \<Rightarrow> 'c pstate \<Rightarrow> bool" where
  "pinv Qs p \<longleftrightarrow> inv_vote Qs p \<and> inv_acc p \<and> inv_log p \<and> inv_net Qs p \<and> inv_cand p \<and>
     inv_key Qs p \<and> inv_commit Qs p"


section \<open>Stability under growth\<close>

lemma grows_refl: "grows p p"
  by (simp add: grows_def)

lemma growsD:
  assumes "grows p p'"
  shows "trm p n \<le> trm p' n"
    and "g_vote p n t = Some c \<Longrightarrow> g_vote p' n t = Some c"
    and "g_leader p t = Some c \<Longrightarrow> g_leader p' t = Some c"
    and "prefix (g_llog p t) (g_llog p' t)"
    and "g_acc p t n \<le> g_acc p' t n"
    and "t < trm p n \<Longrightarrow> g_acc p' t n = g_acc p t n"
  using assms by (auto simp: grows_def)

lemma grows_llog_take:
  assumes "grows p p'" "k \<le> length (g_llog p t)"
  shows "take k (g_llog p' t) = take k (g_llog p t)" "k \<le> length (g_llog p' t)"
  using growsD(4) [OF assms(1), of t] assms(2) by (auto simp: prefix_def)

lemma grows_llog_nth:
  assumes "grows p p'" "k < length (g_llog p t)"
  shows "g_llog p' t ! k = g_llog p t ! k"
  using growsD(4) [OF assms(1), of t] assms(2) by (auto simp: prefix_def nth_append)

lemma valid_grows: "grows p p' \<Longrightarrow> valid p t k \<Longrightarrow> valid p' t k"
  using grows_llog_take(2) [of p p' k t] grows_llog_nth [of p p' "k - 1" t] by (auto simp: valid_def)

lemma chosen_grows: "grows p p' \<Longrightarrow> chosen Qs p t k \<Longrightarrow> chosen Qs p' t k"
  using growsD(5) [of p p' t] order_trans unfolding chosen_def by meson

lemma dead_grows:
  assumes "grows p p'" "dead Qs p t k"
  shows "dead Qs p' t k"
proof -
  obtain Q where "Q \<in> Qs" and Q: "\<And>m. m \<in> Q \<Longrightarrow> t < trm p m \<and> g_acc p t m < k"
    using assms(2) by (auto simp: dead_def)
  then show ?thesis
    using growsD(1,6) [OF assms(1)] unfolding dead_def by (metis less_le_trans)
qed

lemma committed_grows:
  assumes "grows p p'" "committed Qs p T xs" "T \<le> T'"
  shows "committed Qs p' T' xs"
proof (cases "xs = []")
  case False
  then obtain t k where tk: "t \<le> T" "valid p t k" "chosen Qs p t k" "prefix xs (take k (g_llog p t))"
    using assms(2) by (auto simp: committed_def)
  then have "k \<le> length (g_llog p t)" by (simp add: valid_def)
  then show ?thesis
    using tk assms(1,3) valid_grows chosen_grows grows_llog_take(1)
    unfolding committed_def by (metis order_trans)
qed (simp add: committed_def)

lemma wf_logD:
  assumes "wf_log p xs" "i < length xs"
  shows "g_leader p (entry_term (xs ! i)) \<noteq> None"
    and "i < length (g_llog p (entry_term (xs ! i)))"
    and "take (Suc i) xs = take (Suc i) (g_llog p (entry_term (xs ! i)))"
    and "entry_index (xs ! i) = int i + 1"
  using assms by (auto simp: wf_log_def)

lemma wf_logI:
  assumes "sorted (map entry_term xs)"
    and "\<And>i. i < length xs \<Longrightarrow> g_leader p (entry_term (xs ! i)) \<noteq> None"
    and "\<And>i. i < length xs \<Longrightarrow> i < length (g_llog p (entry_term (xs ! i)))"
    and "\<And>i. i < length xs \<Longrightarrow> take (Suc i) xs = take (Suc i) (g_llog p (entry_term (xs ! i)))"
    and "\<And>i. i < length xs \<Longrightarrow> entry_index (xs ! i) = int i + 1"
  shows "wf_log p xs"
  using assms by (simp add: wf_log_def)

lemma wf_log_grows:
  assumes g: "grows p p'" and wf: "wf_log p xs"
  shows "wf_log p' xs"
proof (rule wf_logI)
  show "sorted (map entry_term xs)" using wf by (simp add: wf_log_def)
  fix i assume i: "i < length xs"
  note w = wf_logD [OF wf i]
  have le: "Suc i \<le> length (g_llog p (entry_term (xs ! i)))" using w(2) by simp
  show "g_leader p' (entry_term (xs ! i)) \<noteq> None" using w(1) growsD(3) [OF g] by auto
  show "i < length (g_llog p' (entry_term (xs ! i)))" using grows_llog_take(2) [OF g le] by simp
  show "take (Suc i) xs = take (Suc i) (g_llog p' (entry_term (xs ! i)))"
    using grows_llog_take(1) [OF g le] w(3) by simp
  show "entry_index (xs ! i) = int i + 1" by (rule w(4))
qed

lemma wf_log_prefix:
  assumes wf: "wf_log p xs" and "prefix ys xs"
  shows "wf_log p ys"
proof (rule wf_logI)
  obtain zs where xs: "xs = ys @ zs" using assms(2) by (auto simp: prefix_def)
  show "sorted (map entry_term ys)"
    using wf by (simp add: wf_log_def xs sorted_append)
  fix i assume i: "i < length ys"
  then have nth: "ys ! i = xs ! i" and tk: "take (Suc i) ys = take (Suc i) xs" and i': "i < length xs"
    by (auto simp: xs nth_append)
  show "g_leader p (entry_term (ys ! i)) \<noteq> None" "i < length (g_llog p (entry_term (ys ! i)))"
    "take (Suc i) ys = take (Suc i) (g_llog p (entry_term (ys ! i)))" "entry_index (ys ! i) = int i + 1"
    unfolding nth tk using wf_logD [OF wf i'] by blast+
qed

lemma wf_log_Nil [simp]: "wf_log p []"
  by (simp add: wf_log_def)

lemma msg_ok_grows: "grows p p' \<Longrightarrow> msg_ok Qs p e \<Longrightarrow> msg_ok Qs p' e"
proof (induction Qs p e rule: msg_ok.induct)
  case (1 Qs p s d t c lli llt)
  then show ?case using growsD(1) by (auto intro: order_trans)
next
  case (2 Qs p s d t g w)
  then show ?case using growsD(2) by auto
next
  case (3 Qs p s d t l prev pt es lc)
  note g = 3(1)
  let ?L = "g_llog p t" and ?L' = "g_llog p' t"
  from 3(2) have le: "nat prev + length es \<le> length ?L" and lc: "nat lc \<le> length ?L" by auto
  have "take (nat prev + length es) ?L' = take (nat prev + length es) ?L"
    by (rule grows_llog_take(1) [OF g le])
  then have "take (length es) (drop (nat prev) ?L') = take (length es) (drop (nat prev) ?L)"
    by (metis add.commute take_drop)
  moreover have "log_term_at ?L' (nat prev) = log_term_at ?L (nat prev)"
    using grows_llog_take [OF g, of "nat prev" t] le
    by (intro log_term_at_prefix [where n = "nat prev"]) auto
  moreover have "committed Qs p' t (take (nat lc) ?L')"
    using 3(2) committed_grows [OF g] grows_llog_take(1) [OF g lc] by auto
  ultimately show ?case
    using 3(2) growsD(3) [OF g] grows_llog_take(2) [OF g le] by auto
next
  case (4 Qs p s d t succ r k ci ct)
  then show ?case
    using growsD(1) [OF 4(1), of s] growsD(5) [OF 4(1), of t s] grows_llog_take(2) [OF 4(1), of "length (g_llog p t)" t] by auto
qed simp_all

lemma reconcile_cases:
  assumes "i \<le> length xs" "i + length es \<le> length L" "take i xs = take i L"
    and "es = take (length es) (drop i L)"
    and match: "\<And>j. j < length xs \<Longrightarrow> j < length L \<Longrightarrow> entry_term (xs ! j) = entry_term (L ! j) \<Longrightarrow> xs ! j = L ! j"
  shows "(reconcile i es xs = xs \<and> i + length es \<le> length xs \<and>
            take (i + length es) xs = take (i + length es) L) \<or>
         (\<exists>d. d < i + length es \<and> take d xs = take d L \<and> d \<le> length xs \<and>
            (d < length xs \<longrightarrow> xs ! d \<noteq> L ! d) \<and> reconcile i es xs = take (i + length es) L)"
  using assms
proof (induction i es xs rule: reconcile.induct)
  case (2 i e es xs)
  have iL: "i < length L" and e: "e = L ! i" and es: "es = take (length es) (drop (Suc i) L)"
  proof -
    show "i < length L" using 2(3) by simp
    then have "drop i L = L ! i # drop (Suc i) L" by (simp add: Cons_nth_drop_Suc)
    then show "e = L ! i" "es = take (length es) (drop (Suc i) L)" using 2(5) by auto
  qed
  have whole: "take i xs @ e # es = take (i + length (e # es)) L"
    by (subst 2(5), subst 2(4)) (simp only: take_add)
  show ?case
  proof (cases "length xs \<le> i")
    case True
    then have "i = length xs" using 2(2) by simp
    then show ?thesis using True whole 2(4) by (intro disjI2 exI [of _ i]) auto
  next
    case False
    show ?thesis
    proof (cases "entry_term (xs ! i) = entry_term e")
      case True
      then have "xs ! i = L ! i" using False iL e 2(6) [of i] by simp
      then have "take (Suc i) xs = take (Suc i) L"
        using 2(4) False iL by (intro take_eq_Suc) auto
      then show ?thesis
        using 2(1) [OF False] True False iL es 2(3,6) by simp
    next
      case neq: False
      then have "xs ! i \<noteq> L ! i" using e by auto
      then show ?thesis
        using False neq whole 2(2,4) by (intro disjI2 exI [of _ i]) auto
    qed
  qed
qed simp

end
