(* ===== verification/Raft_Votes.thy ===== *)
theory Raft_Votes
  imports Raft_Protocol
begin

text \<open>
  The first layer of the protocol's invariant: votes, leaders and accepted positions. Two quorums
  meet, so that a term has at most one leader; the lemmas are proved for any quorum system in
  the locale \<open>raft_quorum\<close>.
\<close>

section \<open>Reading the invariant\<close>

lemma inv_voteD:
  assumes "inv_vote Qs p"
  shows "g_vote p n t = Some c \<Longrightarrow> t \<le> trm p n"
    and "p_vote (pn p n) = g_vote p n (trm p n)"
    and "role p n = CANDIDATE \<Longrightarrow> v \<in> p_votes (pn p n) \<Longrightarrow> g_vote p v (trm p n) = Some n"
    and "role p n = CANDIDATE \<Longrightarrow> g_leader p (trm p n) \<noteq> Some n \<and> 1 \<le> trm p n"
    and "g_leader p t = Some c \<Longrightarrow> 1 \<le> t \<and> t \<le> trm p c \<and> (\<exists>Q \<in> Qs. \<forall>v \<in> Q. g_vote p v t = Some c)"
    and "role p n = LEADER \<Longrightarrow> g_leader p (trm p n) = Some n \<and> plog p n = g_llog p (trm p n)"
    and "0 \<le> trm p n"
  using assms unfolding inv_vote_def by blast+

lemma inv_accD:
  assumes "inv_acc p"
  shows "g_leader p t = None \<Longrightarrow> g_llog p t = []"
    and "g_acc p t n \<le> length (g_llog p t)"
    and "0 < g_acc p t n \<Longrightarrow> t \<le> trm p n"
    and "role p n = LEADER \<Longrightarrow> g_acc p (trm p n) n = length (g_llog p (trm p n))"
    and "role p n = LEADER \<Longrightarrow> p_match (pn p n) m \<le> g_acc p (trm p n) m"
  using assms unfolding inv_acc_def by blast+

lemma inv_logD:
  assumes "inv_log p"
  shows "wf_log p (plog p n)" and "wf_log p (g_llog p t)" and "wf_log p (g_vlog p n t)"
    and "e \<in> set (plog p n) \<Longrightarrow> entry_term e \<le> trm p n"
    and "e \<in> set (g_llog p t) \<Longrightarrow> entry_term e \<le> t"
  using assms unfolding inv_log_def by blast+

lemma inv_netD: "inv_net Qs p \<Longrightarrow> e \<in> net p \<Longrightarrow> msg_ok Qs p e"
  by (simp add: inv_net_def)

lemma inv_candD:
  assumes "inv_cand p"
  shows "role p c = CANDIDATE \<Longrightarrow> Envelope s d (MRequestVoteArgs (RequestVoteArgs (trm p c) c lli llt)) \<in> net p \<Longrightarrow>
      lli = int (length (plog p c)) \<and> llt = log_last_term (plog p c)"
    and "role p c = CANDIDATE \<Longrightarrow> g_vote p v (trm p c) = Some c \<Longrightarrow>
      up_to_date (int (length (plog p c))) (log_last_term (plog p c)) (g_vlog p v (trm p c))"
    and "g_vote p v t = Some c \<Longrightarrow> t \<le> trm p c"
  using assms unfolding inv_cand_def by blast+

lemma inv_keyD:
  assumes "inv_key Qs p" "valid p t k"
  shows "k \<le> g_acc p t n \<Longrightarrow> prefix (take k (g_llog p t)) (plog p n) \<or> dead Qs p t k"
    and "k \<le> g_acc p t n \<Longrightarrow> t < t' \<Longrightarrow> g_vote p n t' \<noteq> None \<Longrightarrow>
      prefix (take k (g_llog p t)) (g_vlog p n t') \<or> dead Qs p t k"
    and "t < t' \<Longrightarrow> g_leader p t' \<noteq> None \<Longrightarrow>
      prefix (take k (g_llog p t)) (g_llog p t') \<or> dead Qs p t k"
  using assms unfolding inv_key_def by blast+

lemma inv_commitD:
  assumes "inv_commit Qs p"
  shows "commit p n \<le> length (plog p n)" and "committed Qs p (trm p n) (take (commit p n) (plog p n))"
  using assms unfolding inv_commit_def by blast+

lemma pinvD:
  assumes "pinv Qs p"
  shows "inv_vote Qs p" "inv_acc p" "inv_log p" "inv_net Qs p" "inv_cand p" "inv_key Qs p"
    "inv_commit Qs p"
  using assms by (simp_all add: pinv_def)

locale raft_quorum = quorum Qs for Qs :: "string set set"
begin

lemma not_dead_chosen:
  assumes "chosen Qs p t k"
  shows "\<not> dead Qs p t k"
proof
  assume "dead Qs p t k"
  then obtain Q Q' where "Q \<in> Qs" "Q' \<in> Qs" "\<forall>m \<in> Q. g_acc p t m < k" "\<forall>m \<in> Q'. k \<le> g_acc p t m"
    using assms by (auto simp: dead_def chosen_def)
  moreover obtain m where "m \<in> Q" "m \<in> Q'" using calculation(1,2) by (rule quorumE)
  ultimately show False using leD by blast
qed

text \<open>A candidate with a quorum of votes is the first leader of its term.\<close>

lemma lead_fresh:
  assumes inv: "inv_vote Qs p" and cand: "role p n = CANDIDATE" and q: "p_votes (pn p n) \<in> Qs"
  shows "g_leader p (trm p n) = None"
proof (rule ccontr)
  assume "g_leader p (trm p n) \<noteq> None"
  then obtain c where c: "g_leader p (trm p n) = Some c" by blast
  obtain Q where "Q \<in> Qs" "\<forall>v \<in> Q. g_vote p v (trm p n) = Some c"
    using inv_voteD(5) [OF inv c] by blast
  then have "c = n"
    using quorum_unique [of Q "p_votes (pn p n)" "\<lambda>v. g_vote p v (trm p n)"] q inv_voteD(3) [OF inv cand]
    by blast
  then show False using c inv_voteD(4) [OF inv cand] by simp
qed

lemma grows_upd_term:
  "(\<And>x. p_term x \<le> p_term (f x)) \<Longrightarrow> grows p (upd n f p)"
  by (simp add: grows_def)

lemma pstep_grows:
  assumes "pstep Qs p p'" "pinv Qs p"
  shows "grows p p'"
  using assms
proof cases
  case (candidacy n)
  have "g_vote p n (trm p n + 1) = None"
    using inv_voteD(1) [OF pinvD(1) [OF assms(2)], of n "trm p n + 1"] by (cases "g_vote p n (trm p n + 1)") auto
  then show ?thesis by (auto simp: candidacy grows_def)
next
  case (cast_vote s n c lli llt)
  then show ?thesis using inv_voteD(2) [OF pinvD(1) [OF assms(2)], of n] by (auto simp: grows_def)
next
  case (lead n)
  have "g_leader p (trm p n) = None" by (rule lead_fresh [OF pinvD(1) [OF assms(2)] lead(2,3)])
  then show ?thesis using inv_accD(1) [OF pinvD(2) [OF assms(2)], of "trm p n"] by (auto simp: lead(1) grows_def)
next
  case (client_append n cmd)
  then show ?thesis using inv_voteD(6) [OF pinvD(1) [OF assms(2)], of n] by (auto simp: grows_def)
qed (auto simp: grows_def)

end

lemma inv_voteI:
  assumes "\<And>n t c. g_vote p n t = Some c \<Longrightarrow> t \<le> trm p n"
    and "\<And>n. p_vote (pn p n) = g_vote p n (trm p n)"
    and "\<And>n v. role p n = CANDIDATE \<Longrightarrow> v \<in> p_votes (pn p n) \<Longrightarrow> g_vote p v (trm p n) = Some n"
    and "\<And>n. role p n = CANDIDATE \<Longrightarrow> g_leader p (trm p n) \<noteq> Some n \<and> 1 \<le> trm p n"
    and "\<And>t c. g_leader p t = Some c \<Longrightarrow> 1 \<le> t \<and> t \<le> trm p c \<and> (\<exists>Q \<in> Qs. \<forall>v \<in> Q. g_vote p v t = Some c)"
    and "\<And>n. role p n = LEADER \<Longrightarrow> g_leader p (trm p n) = Some n \<and> plog p n = g_llog p (trm p n)"
    and "\<And>n. 0 \<le> trm p n"
  shows "inv_vote Qs p"
  using assms unfolding inv_vote_def by blast

text \<open>An action changes one node; what the invariant says of the others follows from growth.\<close>

lemma inv_vote_node:
  assumes inv: "inv_vote Qs p" and g: "grows p p'"
    and oth: "\<And>m. m \<noteq> n \<Longrightarrow> pn p' m = pn p m"
    and votes: "\<And>m t c. g_vote p' m t = Some c \<Longrightarrow> g_vote p m t = Some c \<or> m = n \<and> t = trm p' n"
    and vote: "p_vote (pn p' n) = g_vote p' n (trm p' n)"
    and cand: "role p' n = CANDIDATE \<Longrightarrow> (\<forall>v \<in> p_votes (pn p' n). g_vote p' v (trm p' n) = Some n) \<and>
      g_leader p' (trm p' n) \<noteq> Some n \<and> 1 \<le> trm p' n"
    and lds: "\<And>t c. g_leader p' t = Some c \<Longrightarrow> g_leader p t = Some c \<or>
      (t = trm p' n \<and> c = n \<and> 1 \<le> t \<and> (\<exists>Q \<in> Qs. \<forall>v \<in> Q. g_vote p' v t = Some c))"
    and lead: "role p' n = LEADER \<Longrightarrow> g_leader p' (trm p' n) = Some n \<and> plog p' n = g_llog p' (trm p' n)"
    and llog: "\<And>m. m \<noteq> n \<Longrightarrow> role p m = LEADER \<Longrightarrow> g_llog p' (trm p m) = g_llog p (trm p m)"
  shows "inv_vote Qs p'"
proof (rule inv_voteI)
  note v = inv_voteD [OF inv] and gr = growsD [OF g]
  fix m t c w
  show "g_vote p' m t = Some c \<Longrightarrow> t \<le> trm p' m"
    using votes [of m t c] v(1) [of m t c] gr(1) [of m] by auto
  show "p_vote (pn p' m) = g_vote p' m (trm p' m)"
  proof (cases "m = n")
    case False
    then have "g_vote p' m (trm p m) = g_vote p m (trm p m)"
      using votes [of m "trm p m"] gr(2) [of m "trm p m"]
      by (cases "g_vote p m (trm p m)"; cases "g_vote p' m (trm p m)") auto
    then show ?thesis using False oth v(2) by simp
  qed (simp add: vote)
  show "role p' m = CANDIDATE \<Longrightarrow> w \<in> p_votes (pn p' m) \<Longrightarrow> g_vote p' w (trm p' m) = Some m"
    using cand oth [of m] v(3) [of m w] gr(2) [of w "trm p m" m] by (cases "m = n") auto
  show "role p' m = CANDIDATE \<Longrightarrow> g_leader p' (trm p' m) \<noteq> Some m \<and> 1 \<le> trm p' m"
    using cand oth [of m] v(4) [of m] lds [of "trm p m" m] by (cases "m = n") auto
  show "g_leader p' t = Some c \<Longrightarrow> 1 \<le> t \<and> t \<le> trm p' c \<and> (\<exists>Q \<in> Qs. \<forall>v \<in> Q. g_vote p' v t = Some c)"
  proof -
    assume "g_leader p' t = Some c"
    then consider "g_leader p t = Some c" | "t = trm p' c" "1 \<le> t" "\<exists>Q \<in> Qs. \<forall>v \<in> Q. g_vote p' v t = Some c"
      using lds by blast
    then show ?thesis
    proof cases
      case 1
      then obtain Q where Q: "Q \<in> Qs" "\<forall>v \<in> Q. g_vote p v t = Some c" and "1 \<le> t" "t \<le> trm p c"
        using v(5) by blast
      moreover have "\<forall>v \<in> Q. g_vote p' v t = Some c" using Q gr(2) by blast
      ultimately show ?thesis using gr(1) [of c] by auto
    qed auto
  qed
  show "role p' m = LEADER \<Longrightarrow> g_leader p' (trm p' m) = Some m \<and> plog p' m = g_llog p' (trm p' m)"
    using lead oth [of m] v(6) [of m] gr(3) [of "trm p m" m] llog [of m] by (cases "m = n") auto
  show "0 \<le> trm p' m" using v(7) [of m] gr(1) [of m] by simp
qed

context raft_quorum
begin

lemma future_vote_None: "inv_vote Qs p \<Longrightarrow> trm p n < t \<Longrightarrow> g_vote p n t = None"
  using inv_voteD(1) [of Qs p n t] by (cases "g_vote p n t") auto

lemma leaders_differ:
  "inv_vote Qs p \<Longrightarrow> role p n = LEADER \<Longrightarrow> role p m = LEADER \<Longrightarrow> trm p m = trm p n \<Longrightarrow> m = n"
  using inv_voteD(6) [of Qs p n] inv_voteD(6) [of Qs p m] by simp

lemma inv_vote_step:
  assumes step: "pstep Qs p p'" and inv: "pinv Qs p"
  shows "inv_vote Qs p'"
proof -
  note iv = pinvD(1) [OF inv]
  note v = inv_voteD [OF iv] and node = inv_vote_node [OF iv pstep_grows [OF step inv]]
  show ?thesis
    using step
  proof cases
    case (bump_term n t)
    show ?thesis
      by (rule node [of n]) (simp_all add: bump_term future_vote_None [OF iv])
  next
    case (candidacy n)
    have "g_leader p (trm p n + 1) \<noteq> Some n" using v(5) [of "trm p n + 1" n] by auto
    then show ?thesis
      using v(7) [of n] by (intro node [of n]) (simp_all add: candidacy split: if_splits)
  next
    case (cast_vote s n c lli llt)
    have "g_vote p n (trm p n) = None" using v(2) [of n] cast_vote(3) by simp
    then show ?thesis
      using v(3,4,6) [of n] by (intro node [of n]) (auto simp: cast_vote split: if_splits)
  next
    case (count_vote u n w)
    have "g_vote p w (trm p n) = Some n" using inv_netD [OF pinvD(4) [OF inv] count_vote(2)] by simp
    then show ?thesis
      using v(2,3,4,6) [of n] count_vote(3) by (intro node [of n]) (auto simp: count_vote(1))
  next
    case (lead n)
    have "g_leader p (trm p n) = None" by (rule lead_fresh [OF iv lead(2,3)])
    then have "m \<noteq> n \<Longrightarrow> role p m = LEADER \<Longrightarrow> trm p m \<noteq> trm p n" for m
      using v(6) [of m] by auto
    then show ?thesis
      using v(2,3,4) [of n] lead(2,3) by (intro node [of n]) (auto simp: lead(1) split: if_splits)
  next
    case (client_append n cmd)
    have "m \<noteq> n \<Longrightarrow> role p m = LEADER \<Longrightarrow> trm p m \<noteq> trm p n" for m
      using leaders_differ [OF iv client_append(2), of m] by auto
    then show ?thesis
      using v(2,6) [of n] client_append(2) by (intro node [of n]) (auto simp: client_append(1) split: if_splits)
  next
    case (accept_append s n l prev pt es lc xs k)
    then show ?thesis using v(2) [of n] by (intro node [of n]) auto
  next
    case (count_ack m n r k ci ct)
    then show ?thesis using v(2,6) [of n] by (intro node [of n]) auto
  next
    case (leader_commit n k Q)
    then show ?thesis using v(2,6) [of n] by (intro node [of n]) auto
  next
    case (step_down n)
    then show ?thesis using v(2) [of n] by (intro node [of n]) auto
  next
    case (restart n)
    then show ?thesis using v(2) [of n] by (intro node [of n]) auto
  qed (use iv in \<open>simp_all add: inv_vote_def\<close>)
qed

end

section \<open>Log matching\<close>

lemma wf_log_match:
  assumes "wf_log p xs" "wf_log p ys" "i < length xs" "i < length ys"
    and "entry_term (xs ! i) = entry_term (ys ! i)"
  shows "take (Suc i) xs = take (Suc i) ys" "xs ! i = ys ! i"
proof -
  show eq: "take (Suc i) xs = take (Suc i) ys"
    using wf_logD(3) [OF assms(1,3)] wf_logD(3) [OF assms(2,4)] assms(5) by simp
  show "xs ! i = ys ! i" by (rule nth_eq_of_take_eq [OF eq]) simp
qed

lemma wf_log_take: "wf_log p xs \<Longrightarrow> wf_log p (take k xs)"
  using wf_log_prefix prefix_takeI by blast

lemma accept_log:
  assumes logs: "inv_log p"
    and ok: "msg_ok Qs p (Envelope s n (MAppendEntriesArgs (AppendEntriesArgs (trm p n) l (int prev) pt es lc)))"
    and prev: "prev \<le> length (plog p n)" "log_term_at (plog p n) prev = pt"
  defines "L \<equiv> g_llog p (trm p n)" and "xs \<equiv> reconcile prev es (plog p n)"
  shows "take (prev + length es) xs = take (prev + length es) L" and "prev + length es \<le> length xs"
    and "xs = plog p n \<or> xs = take (prev + length es) L"
    and "prefix P (plog p n) \<Longrightarrow> prefix P L \<Longrightarrow> prefix P xs"
proof -
  note wfn = inv_logD(1) [OF logs, of n] and wfL = inv_logD(2) [OF logs, of "trm p n", folded L_def]
  have le: "prev + length es \<le> length L" and es: "es = take (length es) (drop prev L)"
    and pt: "pt = log_term_at L prev"
    using ok by (auto simp: L_def)
  have tk: "take prev (plog p n) = take prev L"
  proof (cases prev)
    case (Suc i)
    then have "entry_term (plog p n ! i) = entry_term (L ! i)"
      using prev pt le by (simp add: log_term_at_def)
    then show ?thesis
      using wf_log_match(1) [OF wfn wfL, of i] Suc prev(1) le by simp
  qed simp
  have rc: "(xs = plog p n \<and> prev + length es \<le> length (plog p n) \<and>
         take (prev + length es) (plog p n) = take (prev + length es) L) \<or>
      (\<exists>d. d < prev + length es \<and> take d (plog p n) = take d L \<and> d \<le> length (plog p n) \<and>
         (d < length (plog p n) \<longrightarrow> plog p n ! d \<noteq> L ! d) \<and> xs = take (prev + length es) L)"
    unfolding xs_def
    by (rule reconcile_cases [OF prev(1) le tk es]) (rule wf_log_match(2) [OF wfn wfL])
  show "take (prev + length es) xs = take (prev + length es) L" "prev + length es \<le> length xs"
    "xs = plog p n \<or> xs = take (prev + length es) L"
    using rc le by (elim disjE exE conjE; simp)+
  assume P: "prefix P (plog p n)" "prefix P L"
  show "prefix P xs"
  proof (cases "xs = plog p n")
    case False
    then obtain d where d: "d < prev + length es" "d \<le> length (plog p n)"
        "d < length (plog p n) \<longrightarrow> plog p n ! d \<noteq> L ! d" "xs = take (prev + length es) L"
      using rc by blast
    have "length P \<le> d"
    proof (rule ccontr)
      assume "\<not> length P \<le> d"
      then have "plog p n ! d = L ! d" "d < length (plog p n)"
        using prefix_nth [OF P(1), of d] prefix_nth [OF P(2), of d] prefix_length_le [OF P(1)] by simp_all
      then show False using d(3) by simp
    qed
    then show ?thesis
      using P(2) d(1,4) by (auto simp: prefix_def)
  qed (simp add: P)
qed

section \<open>Accepted positions\<close>

lemma inv_acc_node:
  assumes inv: "inv_acc p" and g: "grows p p'"
    and oth: "\<And>m. m \<noteq> n \<Longrightarrow> pn p' m = pn p m"
    and none: "\<And>t. g_leader p' t = None \<Longrightarrow> g_llog p' t = []"
    and acc: "\<And>t m. g_acc p' t m = g_acc p t m \<or> m = n \<and> t = trm p' n \<and> g_acc p' t m \<le> length (g_llog p' t)"
    and lead: "role p' n = LEADER \<Longrightarrow> g_acc p' (trm p' n) n = length (g_llog p' (trm p' n)) \<and>
      (\<forall>m. p_match (pn p' n) m \<le> g_acc p' (trm p' n) m)"
    and llog: "\<And>m. m \<noteq> n \<Longrightarrow> role p m = LEADER \<Longrightarrow> g_llog p' (trm p m) = g_llog p (trm p m)"
  shows "inv_acc p'"
  unfolding inv_acc_def
proof (intro conjI allI impI)
  note a = inv_accD [OF inv] and gr = growsD [OF g]
  fix t m m'
  show "g_leader p' t = None \<Longrightarrow> g_llog p' t = []" by (rule none)
  show "g_acc p' t m \<le> length (g_llog p' t)"
    using acc [of t m] a(2) [of t m] prefix_length_le [OF gr(4) [of t]] by auto
  show "0 < g_acc p' t m \<Longrightarrow> t \<le> trm p' m"
    using acc [of t m] a(3) [of t m] gr(1) [of m] by auto
  show "role p' m = LEADER \<Longrightarrow> g_acc p' (trm p' m) m = length (g_llog p' (trm p' m))"
    using lead oth [of m] a(4) [of m] acc [of "trm p m" m] llog [of m] by (cases "m = n") auto
  show "role p' m = LEADER \<Longrightarrow> p_match (pn p' m) m' \<le> g_acc p' (trm p' m) m'"
    using lead oth [of m] a(5) [of m m'] gr(5) [of "trm p m" m'] by (cases "m = n") auto
qed

context raft_quorum
begin

lemma inv_acc_step:
  assumes step: "pstep Qs p p'" and inv: "pinv Qs p"
  shows "inv_acc p'"
proof -
  note iv = pinvD(1) [OF inv] and ia = pinvD(2) [OF inv] and il = pinvD(3) [OF inv]
  note v = inv_voteD [OF iv] and a = inv_accD [OF ia]
  note node = inv_acc_node [OF ia pstep_grows [OF step inv]]
  show ?thesis
    using step
  proof cases
    case (lead n)
    have "g_leader p (trm p n) = None" by (rule lead_fresh [OF iv lead(2,3)])
    then have "g_acc p (trm p n) n = 0" and "m \<noteq> n \<Longrightarrow> role p m = LEADER \<Longrightarrow> trm p m \<noteq> trm p n" for m
      using v(6) [of m] a(1) [of "trm p n"] a(2) [of "trm p n" n] by auto
    then show ?thesis
      using a(1) by (intro node [of n]) (auto simp: lead(1) split: if_splits)
  next
    case (client_append n cmd)
    have "m \<noteq> n \<Longrightarrow> role p m = LEADER \<Longrightarrow> trm p m \<noteq> trm p n" for m
      using leaders_differ [OF iv client_append(2), of m] by auto
    then show ?thesis
      using v(6) [of n] a(1) a(4) [of n] a(5) [of n] a(5) [of n n] client_append(2)
      by (intro node [of n]) (auto simp: client_append(1) le_Suc_eq split: if_splits)
  next
    case (accept_append s n l prev pt es lc xs k)
    have "prev + length es \<le> length (g_llog p (trm p n))"
      using inv_netD [OF pinvD(4) [OF inv] accept_append(2)] by simp
    then show ?thesis
      using a(1) a(2) [of "trm p n" n] accept_append(3) by (intro node [of n]) (auto simp: accept_append(1))
  next
    case (count_ack m n r k ci ct)
    have "nat k \<le> g_acc p (trm p n) m"
      using inv_netD [OF pinvD(4) [OF inv] count_ack(2)] by simp
    then show ?thesis
      using a(1) a(4) [of n] a(5) [of n] count_ack(3) by (intro node [of n]) (auto simp: count_ack(1))
  next
    case (leader_commit n k Q)
    then show ?thesis using a(1) a(4) [of n] a(5) [of n] by (intro node [of n]) auto
  next
    case (bump_term n t)
    then show ?thesis using a(1) by (intro node [of n]) auto
  next
    case (candidacy n)
    then show ?thesis using a(1) by (intro node [of n]) auto
  next
    case (cast_vote s n c lli llt)
    then show ?thesis using a(1) a(4) [of n] a(5) [of n] by (intro node [of n]) auto
  next
    case (count_vote u n w)
    then show ?thesis using a(1) a(4) [of n] a(5) [of n] by (intro node [of n]) auto
  next
    case (step_down n)
    then show ?thesis using a(1) by (intro node [of n]) auto
  next
    case (restart n)
    then show ?thesis using a(1) by (intro node [of n]) auto
  qed (use ia in \<open>simp_all add: inv_acc_def\<close>)
qed

end

end
