(* ===== verification/Raft_Logs.thy ===== *)
theory Raft_Logs
  imports Raft_Votes
begin

text \<open>
  The second layer: logs are prefixes of leader logs, messages quote leader logs, candidates
  are at least as up to date as their voters, and what a quorum has agreed on is in the log of
  every later leader.
\<close>

section \<open>Logs stay well formed\<close>

lemma inv_log_node:
  assumes inv: "inv_log p" and g: "grows p p'"
    and oth: "\<And>m. m \<noteq> n \<Longrightarrow> pn p' m = pn p m"
    and own: "wf_log p' (plog p' n)" "\<And>e. e \<in> set (plog p' n) \<Longrightarrow> entry_term e \<le> trm p' n"
    and llog: "\<And>t. g_llog p' t = g_llog p t \<or>
      wf_log p' (g_llog p' t) \<and> (\<forall>e \<in> set (g_llog p' t). entry_term e \<le> t)"
    and vlog: "\<And>m t. g_vlog p' m t = g_vlog p m t \<or> wf_log p' (g_vlog p' m t)"
  shows "inv_log p'"
  unfolding inv_log_def
proof (intro conjI allI ballI)
  note l = inv_logD [OF inv] and wfg = wf_log_grows [OF g]
  fix m t e
  show "wf_log p' (plog p' m)" using own(1) oth [of m] wfg [OF l(1) [of m]] by (cases "m = n") auto
  show "wf_log p' (g_llog p' t)" using llog [of t] wfg [OF l(2) [of t]] by auto
  show "wf_log p' (g_vlog p' m t)" using vlog [of m t] wfg [OF l(3) [of m t]] by auto
  show "e \<in> set (plog p' m) \<Longrightarrow> entry_term e \<le> trm p' m"
    using own(2) oth [of m] l(4) [of e m] by (cases "m = n") auto
  show "e \<in> set (g_llog p' t) \<Longrightarrow> entry_term e \<le> t"
    using llog [of t] l(5) [of e t] by auto
qed

lemma wf_log_snoc:
  assumes wf: "wf_log p xs" and t: "g_leader p (entry_term e) \<noteq> None"
    and L: "g_llog p (entry_term e) = xs @ [e]" and idx: "entry_index e = int (length xs) + 1"
    and le: "\<And>x. x \<in> set xs \<Longrightarrow> entry_term x \<le> entry_term e"
  shows "wf_log p (xs @ [e])"
proof (rule wf_logI)
  show "sorted (map entry_term (xs @ [e]))"
    using wf le by (auto simp: wf_log_def sorted_append)
  fix i assume "i < length (xs @ [e])"
  then consider "i < length xs" | "i = length xs" by fastforce
  then have "g_leader p (entry_term ((xs @ [e]) ! i)) \<noteq> None \<and>
      i < length (g_llog p (entry_term ((xs @ [e]) ! i))) \<and>
      take (Suc i) (xs @ [e]) = take (Suc i) (g_llog p (entry_term ((xs @ [e]) ! i))) \<and>
      entry_index ((xs @ [e]) ! i) = int i + 1"
  proof cases
    case 1
    then show ?thesis using wf_logD [OF wf 1] by (simp add: nth_append)
  qed (simp add: t L idx)
  then show "g_leader p (entry_term ((xs @ [e]) ! i)) \<noteq> None"
    "i < length (g_llog p (entry_term ((xs @ [e]) ! i)))"
    "take (Suc i) (xs @ [e]) = take (Suc i) (g_llog p (entry_term ((xs @ [e]) ! i)))"
    "entry_index ((xs @ [e]) ! i) = int i + 1"
    by blast+
qed

context raft_quorum
begin

lemma inv_log_step:
  assumes step: "pstep Qs p p'" and inv: "pinv Qs p"
  shows "inv_log p'"
proof -
  note iv = pinvD(1) [OF inv] and il = pinvD(3) [OF inv] and g = pstep_grows [OF step inv]
  note v = inv_voteD [OF iv] and l = inv_logD [OF il]
  note node = inv_log_node [OF il g] and wfg = wf_log_grows [OF g]
  show ?thesis
    using step
  proof cases
    case (lead n)
    then show ?thesis using wfg [OF l(1)] l(4) by (intro node [of n]) auto
  next
    case (client_append n cmd)
    let ?e = "LogEntry (trm p n) (int (length (plog p n)) + 1) cmd"
    have "wf_log p' (plog p n @ [?e])"
      by (rule wf_log_snoc [OF wfg [OF l(1)]]) (auto simp: client_append(1) l(4))
    then show ?thesis
      using l(4) by (intro node [of n]) (auto simp: client_append(1))
  next
    case (accept_append s n lid prev pt es lc xs k)
    note al = accept_log [OF il inv_netD [OF pinvD(4) [OF inv] accept_append(2)] accept_append(4,5)]
    have "wf_log p xs"
      using al(3) l(1) [of n] wf_log_take [OF l(2)] by (auto simp: accept_append(6))
    moreover have "entry_term e \<le> trm p n" if "e \<in> set xs" for e
      using al(3) l(4) [of e n] l(5) [of e "trm p n"] in_set_takeD that by (fastforce simp: accept_append(6))
    ultimately show ?thesis
      using wfg by (intro node [of n]) (auto simp: accept_append(1))
  next
    case (cast_vote s n c lli llt)
    then show ?thesis using wfg [OF l(1)] l(4) by (intro node [of n]) auto
  next
    case (candidacy n)
    then show ?thesis
      using wfg [OF l(1)] by (intro node [of n]) (auto dest!: l(4))
  next
    case (bump_term n t)
    then show ?thesis
      using wfg [OF l(1)] by (intro node [of n]) (auto dest!: l(4))
  next
    case (count_vote u n w)
    then show ?thesis using wfg [OF l(1)] l(4) by (intro node [of n]) auto
  next
    case (count_ack m n r k ci ct)
    then show ?thesis using wfg [OF l(1)] l(4) by (intro node [of n]) auto
  next
    case (leader_commit n k Q)
    then show ?thesis using wfg [OF l(1)] l(4) by (intro node [of n]) auto
  next
    case (step_down n)
    then show ?thesis using wfg [OF l(1)] l(4) by (intro node [of n]) auto
  next
    case (restart n)
    then show ?thesis using wfg [OF l(1)] l(4) by (intro node [of n]) auto
  qed (use il in \<open>simp_all add: inv_log_def wf_log_def\<close>)
qed

section \<open>Messages\<close>

lemma inv_net_emit:
  assumes inv: "inv_net Qs p" and g: "grows p p'" and sub: "net p' \<subseteq> insert e (net p)" and e: "msg_ok Qs p' e"
  shows "inv_net Qs p'"
  using assms msg_ok_grows [OF g] by (auto simp: inv_net_def)

lemma inv_net_step:
  assumes step: "pstep Qs p p'" and inv: "pinv Qs p"
  shows "inv_net Qs p'"
proof -
  note iv = pinvD(1) [OF inv] and ia = pinvD(2) [OF inv] and im = pinvD(4) [OF inv]
  note g = pstep_grows [OF step inv] and v = inv_voteD [OF iv]
  note em = inv_net_emit [OF im g]
  have same: ?thesis if "net p' = net p"
    using that im msg_ok_grows [OF g] by (auto simp: inv_net_def)
  show ?thesis
    using step
  proof cases
    case (send_request_vote n d)
    then show ?thesis by (intro em) auto
  next
    case (send_vote n c)
    then show ?thesis using v(2) [of n] by (intro em) auto
  next
    case (send_append n d prev)
    have "committed Qs p (trm p n) (take (commit p n) (g_llog p (trm p n)))"
      "commit p n \<le> length (g_llog p (trm p n))"
      using inv_commitD [OF pinvD(7) [OF inv], of n] v(6) [of n] send_append(2) by auto
    then have "msg_ok Qs p (Envelope n d (MAppendEntriesArgs (AppendEntriesArgs (trm p n) n (int prev)
      (log_term_at (plog p n) prev) (drop prev (plog p n)) (int (commit p n)))))"
      using send_append(2-4) v(6) [of n] by auto
    from msg_ok_grows [OF g this] show ?thesis by (rule em [rotated]) (simp add: send_append(1))
  next
    case (send_ack k n d ci ct)
    then show ?thesis by (intro em) auto
  next
    case (send_nack ci n ct d k)
    then show ?thesis by (intro em) auto
  next
    case (send_other m n d)
    have "msg_ok Qs p' (Envelope n d m)"
      using send_other(2) by (cases "(Qs, p', Envelope n d m)" rule: msg_ok.cases) (auto simp: harmless_def)
    then show ?thesis using send_other(1) by (intro em) auto
  qed ((rule same, simp)+)
qed

section \<open>Candidates\<close>

lemma inv_cand_node:
  assumes inv: "inv_cand p" and g: "grows p p'"
    and oth: "\<And>m. m \<noteq> n \<Longrightarrow> pn p' m = pn p m" and net: "net p' = net p"
    and own: "role p' n = CANDIDATE \<Longrightarrow> role p n = CANDIDATE \<and> trm p' n = trm p n \<and> plog p' n = plog p n"
    and votes: "g_vote p' = g_vote p" "g_vlog p' = g_vlog p"
  shows "inv_cand p'"
proof -
  note c = inv_candD [OF inv] and gr = growsD [OF g]
  have keep: "role p m = CANDIDATE \<and> trm p' m = trm p m \<and> plog p' m = plog p m" if "role p' m = CANDIDATE" for m
    using own oth [of m] that by (cases "m = n") auto
  show ?thesis
    unfolding inv_cand_def net votes
  proof (intro conjI allI impI)
    fix s d m lli llt u t
    assume m: "role p' m = CANDIDATE"
    note k = keep [OF m]
    show "Envelope s d (MRequestVoteArgs (RequestVoteArgs (trm p' m) m lli llt)) \<in> net p \<Longrightarrow>
        lli = int (length (plog p' m))"
      "Envelope s d (MRequestVoteArgs (RequestVoteArgs (trm p' m) m lli llt)) \<in> net p \<Longrightarrow>
        llt = log_last_term (plog p' m)"
      using k c(1) [of m] by auto
    show "g_vote p u (trm p' m) = Some m \<Longrightarrow>
        up_to_date (int (length (plog p' m))) (log_last_term (plog p' m)) (g_vlog p u (trm p' m))"
      using k c(2) [of m] by auto
  next
    fix u t m
    show "g_vote p u t = Some m \<Longrightarrow> t \<le> trm p' m" using c(3) [of u t m] gr(1) [of m] by simp
  qed
qed

lemma up_to_date_refl: "up_to_date (int (length xs)) (log_last_term xs) xs"
  by (simp add: up_to_date_def)

lemma inv_cand_step:
  assumes step: "pstep Qs p p'" and inv: "pinv Qs p"
  shows "inv_cand p'"
proof -
  note iv = pinvD(1) [OF inv] and ic = pinvD(5) [OF inv] and im = pinvD(4) [OF inv]
  note g = pstep_grows [OF step inv] and v = inv_voteD [OF iv] and c = inv_candD [OF ic]
  note node = inv_cand_node [OF ic g]
  show ?thesis
    using step
  proof cases
    case (candidacy n)
    have new: "Envelope s d (MRequestVoteArgs (RequestVoteArgs (trm p n + 1) n lli llt)) \<notin> net p" for s d lli llt
      using inv_netD [OF im] by fastforce
    have nov: "g_vote p u (trm p n + 1) \<noteq> Some n" for u
      using c(3) [of u "trm p n + 1" n] by auto
    have le: "t \<le> trm p n + 1" if "g_vote p u t = Some n" for u t
      using c(3) [OF that] by simp
    show ?thesis
      unfolding inv_cand_def candidacy
      using new nov c le up_to_date_refl by (auto split: if_splits)
  next
    case (cast_vote s n cnd lli llt)
    have "s = cnd" "trm p n \<le> trm p cnd"
      using inv_netD [OF im cast_vote(2)] by auto
    then have "up_to_date (int (length (plog p cnd))) (log_last_term (plog p cnd)) (plog p n)"
      if "role p cnd = CANDIDATE" "trm p cnd = trm p n"
      using c(1) [OF that(1), of s n lli llt] cast_vote(2,4) that(2) by simp
    then show ?thesis
      unfolding inv_cand_def cast_vote(1)
      using c \<open>trm p n \<le> trm p cnd\<close> by (auto split: if_splits)
  next
    case (send_request_vote n d)
    then show ?thesis
      unfolding inv_cand_def using c by auto
  next
    case (bump_term n t)
    then show ?thesis by (intro node [of n]) auto
  next
    case (count_vote u n w)
    then show ?thesis by (intro node [of n]) auto
  next
    case (lead n)
    then show ?thesis by (intro node [of n]) auto
  next
    case (client_append n cmd)
    then show ?thesis by (intro node [of n]) auto
  next
    case (accept_append s n l prev pt es lc xs k)
    then show ?thesis by (intro node [of n]) auto
  next
    case (count_ack m n r k ci ct)
    then show ?thesis by (intro node [of n]) auto
  next
    case (leader_commit n k Q)
    then show ?thesis by (intro node [of n]) auto
  next
    case (step_down n)
    then show ?thesis by (intro node [of n]) auto
  next
    case (restart n)
    then show ?thesis by (intro node [of n]) auto
  next
    case (send_other m n d)
    then show ?thesis using ic by (auto simp: inv_cand_def harmless_def)
  qed (use ic in \<open>auto simp: inv_cand_def\<close>)
qed

end

section \<open>Leader completeness\<close>

lemma inv_key_node:
  assumes iv: "inv_vote Qs p'" and inv: "inv_key Qs p" and iv0: "inv_vote Qs p" and g: "grows p p'"
    and oth: "\<And>m. m \<noteq> n \<Longrightarrow> pn p' m = pn p m"
    and new: "\<And>t k. valid p' t k \<Longrightarrow> \<not> valid p t k \<Longrightarrow>
      (\<forall>m. k \<le> g_acc p' t m \<longrightarrow> m = n \<and> trm p' n = t \<and> prefix (take k (g_llog p' t)) (plog p' n)) \<and>
      (\<forall>t'. t < t' \<longrightarrow> g_leader p' t' \<noteq> None \<longrightarrow> dead Qs p' t k)"
    and acc: "\<And>t m. m \<noteq> n \<Longrightarrow> g_acc p' t m = g_acc p t m"
    and own: "\<And>t k. valid p t k \<Longrightarrow> k \<le> g_acc p' t n \<Longrightarrow>
      prefix (take k (g_llog p t)) (plog p' n) \<or> dead Qs p' t k"
    and votes: "\<And>m t. g_vote p' m t \<noteq> None \<Longrightarrow> g_vote p m t \<noteq> None \<and> g_vlog p' m t = g_vlog p m t \<or>
      m = n \<and> g_vlog p' m t = plog p' n"
    and lds: "\<And>t t' k. g_leader p' t' \<noteq> None \<Longrightarrow> g_leader p t' = None \<Longrightarrow> valid p t k \<Longrightarrow> t < t' \<Longrightarrow>
      prefix (take k (g_llog p t)) (g_llog p' t') \<or> dead Qs p' t k"
  shows "inv_key Qs p'"
proof -
  note key = inv_keyD [OF inv] and gr = growsD [OF g] and dg = dead_grows [OF g]
  have tk: "take k (g_llog p' t) = take k (g_llog p t)" if "valid p t k" for t k
    using that grows_llog_take(1) [OF g] by (simp add: valid_def)
  have K1: "prefix (take k (g_llog p' t)) (plog p' m) \<or> dead Qs p' t k"
    if "valid p' t k" "k \<le> g_acc p' t m" for t k m
  proof (cases "valid p t k")
    case True
    then show ?thesis
      using own [of t k] acc [of m t] oth [of m] key(1) [OF True, of m] dg tk [OF True] that(2)
      by (cases "m = n") auto
  qed (use new [OF that(1)] that(2) in blast)
  have K2: "prefix (take k (g_llog p' t)) (g_vlog p' m t') \<or> dead Qs p' t k"
    if a: "valid p' t k" "k \<le> g_acc p' t m" "t < t'" "g_vote p' m t' \<noteq> None" for t k m t'
  proof -
    have vt: "t' \<le> trm p' m" using inv_voteD(1) [OF iv, of m t'] a(4) by blast
    have val: "valid p t k"
    proof (rule ccontr)
      assume "\<not> valid p t k"
      then have "m = n" "trm p' n = t" using new [OF a(1)] a(2) by blast+
      then show False using vt a(3) by simp
    qed
    consider (old) "g_vote p m t' \<noteq> None" "g_vlog p' m t' = g_vlog p m t'" | (cur) "m = n" "g_vlog p' m t' = plog p' n"
      using votes [OF a(4)] by blast
    then show ?thesis
    proof cases
      case old
      then have "t < trm p m" using inv_voteD(1) [OF iv0, of m t'] a(3) by fastforce
      then have "k \<le> g_acc p t m" using gr(6) a(2) by simp
      then show ?thesis using key(2) [OF val _ a(3) old(1)] dg tk [OF val] old(2) by auto
    next
      case cur
      then show ?thesis using K1 [OF a(1,2)] by simp
    qed
  qed
  have K3: "prefix (take k (g_llog p' t)) (g_llog p' t') \<or> dead Qs p' t k"
    if a: "valid p' t k" "t < t'" "g_leader p' t' \<noteq> None" for t k t'
  proof (cases "valid p t k")
    case True
    show ?thesis
    proof (cases "g_leader p t'")
      case None
      then show ?thesis using lds [OF a(3) None True a(2)] tk [OF True] by simp
    next
      case (Some c)
      then have "prefix (take k (g_llog p t)) (g_llog p t') \<or> dead Qs p t k"
        using key(3) [OF True a(2)] by simp
      then show ?thesis
        using dg tk [OF True] prefix_order.order_trans [OF _ gr(4)] by auto
    qed
  qed (use new [OF a(1)] a(2,3) in blast)
  show ?thesis unfolding inv_key_def using K1 K2 K3 by blast
qed

lemma sorted_entry_terms:
  assumes "wf_log p xs" "i \<le> j" "j < length xs"
  shows "entry_term (xs ! i) \<le> entry_term (xs ! j)"
proof -
  have "sorted (map entry_term xs)" using assms(1) by (simp add: wf_log_def)
  then have "map entry_term xs ! i \<le> map entry_term xs ! j"
    using assms(2,3) by (intro sorted_nth_mono) auto
  then show ?thesis using assms(2,3) by simp
qed

lemma wf_log_last:
  assumes "wf_log p xs" "xs \<noteq> []"
  shows "log_last_term xs = entry_term (xs ! (length xs - 1))"
    and "g_leader p (log_last_term xs) \<noteq> None" and "prefix xs (g_llog p (log_last_term xs))"
proof -
  have i: "length xs - 1 < length xs" using assms(2) by simp
  show last: "log_last_term xs = entry_term (xs ! (length xs - 1))"
    using assms(2) by (simp add: log_last_term_def log_term_at_def)
  show "g_leader p (log_last_term xs) \<noteq> None" using wf_logD(1) [OF assms(1) i] last by simp
  have "Suc (length xs - 1) = length xs" using i by simp
  then have "xs = take (length xs) (g_llog p (log_last_term xs))"
    using wf_logD(3) [OF assms(1) i] last by simp
  then show "prefix xs (g_llog p (log_last_term xs))" by (metis take_is_prefix)
qed

lemma valid_prefix_last:
  assumes "valid p t k" "prefix (take k (g_llog p t)) xs"
  shows "k \<le> length xs" "xs ! (k - 1) = g_llog p t ! (k - 1)" "entry_term (xs ! (k - 1)) = t"
proof -
  have k: "1 \<le> k" "k \<le> length (g_llog p t)" using assms(1) by (auto simp: valid_def)
  show "k \<le> length xs" using prefix_length_le [OF assms(2)] k by simp
  show "xs ! (k - 1) = g_llog p t ! (k - 1)"
    using prefix_nth [OF assms(2), of "k - 1"] k by simp
  then show "entry_term (xs ! (k - 1)) = t" using assms(1) by (simp add: valid_def)
qed

text \<open>A log at least as up to date as one that holds the agreed entries holds them too.\<close>

lemma up_to_date_contains:
  assumes key: "inv_key Qs p" and logs: "inv_log p" and val: "valid p t k"
    and X: "wf_log p xs" and V: "wf_log p vs" and pre: "prefix (take k (g_llog p t)) vs"
    and utd: "up_to_date (int (length xs)) (log_last_term xs) vs" and t1: "1 \<le> t"
  shows "prefix (take k (g_llog p t)) xs \<or> dead Qs p t k"
proof -
  note vp = valid_prefix_last [OF val pre]
  have k: "1 \<le> k" using val by (simp add: valid_def)
  have vs: "vs \<noteq> []" using vp(1) k by auto
  have lv: "t \<le> log_last_term vs"
    using sorted_entry_terms [OF V, of "k - 1" "length vs - 1"] vp(1,3) k vs wf_log_last(1) [OF V vs]
    by simp
  have lx: "log_last_term vs \<le> log_last_term xs"
    using utd by (auto simp: up_to_date_def split: if_splits)
  then have xs: "xs \<noteq> []" using lv t1 by auto
  note wl = wf_log_last [OF X xs]
  let ?s = "log_last_term xs"
  show ?thesis
  proof (cases "?s = t")
    case True
    then have "log_last_term vs = t" using lv lx by simp
    then have "k \<le> length xs" using utd True vp(1) by (auto simp: up_to_date_def)
    moreover have "prefix xs (g_llog p t)" using wl(3) True by simp
    ultimately show ?thesis
      by (metis prefix_eq_take prefix_take_mono)
  next
    case False
    then have ts: "t < ?s" using lv lx by simp
    consider "prefix (take k (g_llog p t)) (g_llog p ?s)" | "dead Qs p t k"
      using inv_keyD(3) [OF key val ts wl(2)] by blast
    then show ?thesis
    proof cases
      case 1
      note vp' = valid_prefix_last [OF val 1]
      have xn: "xs ! i = g_llog p ?s ! i" if "i < length xs" for i
        using prefix_nth [OF wl(3) that] by simp
      have "k \<le> length xs"
      proof (rule ccontr)
        assume "\<not> k \<le> length xs"
        then have "entry_term (g_llog p ?s ! (length xs - 1)) \<le> t"
          using sorted_entry_terms [OF inv_logD(2) [OF logs], of "length xs - 1" "k - 1" ?s] vp'(1,3) k by simp
        then show False using wl(1) xn [of "length xs - 1"] xs ts by simp
      qed
      then show ?thesis
        using 1 wl(3) by (metis length_take min.absorb2 prefix_length_prefix valid_def val)
    qed simp
  qed
qed

context raft_quorum
begin

lemma new_leader_complete:
  assumes inv: "pinv Qs p" and cand: "role p n = CANDIDATE" and q: "p_votes (pn p n) \<in> Qs"
    and val: "valid p t k" and lt: "t < trm p n"
  shows "prefix (take k (g_llog p t)) (plog p n) \<or> dead Qs p t k"
proof (cases "\<exists>v \<in> p_votes (pn p n). k \<le> g_acc p t v")
  case True
  note iv = inv_voteD [OF pinvD(1) [OF inv]] and il = pinvD(3) [OF inv]
  obtain v where v: "v \<in> p_votes (pn p n)" "k \<le> g_acc p t v" using True by blast
  have vote: "g_vote p v (trm p n) = Some n" by (rule iv(3) [OF cand v(1)])
  have k: "1 \<le> k" "k \<le> length (g_llog p t)" using val by (auto simp: valid_def)
  have t1: "1 \<le> t"
    using iv(5) [of t] inv_accD(1) [OF pinvD(2) [OF inv], of t] k by (cases "g_leader p t") auto
  consider "prefix (take k (g_llog p t)) (g_vlog p v (trm p n))" | "dead Qs p t k"
    using inv_keyD(2) [OF pinvD(6) [OF inv] val v(2) lt] vote by auto
  then show ?thesis
  proof cases
    case 1
    show ?thesis
      by (rule up_to_date_contains [OF pinvD(6) [OF inv] il val inv_logD(1) [OF il] inv_logD(3) [OF il] 1
            inv_candD(2) [OF pinvD(5) [OF inv] cand vote] t1])
  qed simp
next
  case False
  then have "t < trm p v \<and> g_acc p t v < k" if "v \<in> p_votes (pn p n)" for v
    using that lt inv_voteD(1,3) [OF pinvD(1) [OF inv]] cand by fastforce
  then have "dead Qs p t k" using q by (auto simp: dead_def)
  then show ?thesis by simp
qed

end

end
