(* ===== verification/Raft_Safety.thy ===== *)
theory Raft_Safety
  imports Raft_Logs
begin

text \<open>
  The last layer of the invariant, that it holds in every run, and the safety properties of
  the protocol: one leader per term, matching logs, agreement on committed entries.
\<close>

context raft_quorum
begin

lemma accept_keeps:
  assumes inv: "pinv Qs p"
    and ok: "msg_ok Qs p (Envelope s n (MAppendEntriesArgs (AppendEntriesArgs (trm p n) l (int prev) pt es lc)))"
    and prev: "prev \<le> length (plog p n)" "log_term_at (plog p n) prev = pt"
    and val: "valid p t k" and tn: "t \<le> trm p n"
    and P: "prefix P (take k (g_llog p t))" "prefix P (plog p n)"
  shows "prefix P (reconcile prev es (plog p n)) \<or> dead Qs p t k"
proof -
  have "prefix P (g_llog p (trm p n)) \<or> dead Qs p t k"
  proof (cases "t = trm p n")
    case True
    then show ?thesis using P(1) prefix_order.order_trans prefix_takeI by blast
  next
    case False
    then have "prefix (take k (g_llog p t)) (g_llog p (trm p n)) \<or> dead Qs p t k"
      using inv_keyD(3) [OF pinvD(6) [OF inv] val] tn ok by auto
    then show ?thesis using P(1) prefix_order.order_trans by blast
  qed
  then show ?thesis using accept_log(4) [OF pinvD(3) [OF inv] ok prev P(2)] by blast
qed

lemma inv_key_accept:
  assumes step: "pstep Qs p p'" and inv: "pinv Qs p"
    and ok: "msg_ok Qs p (Envelope s n (MAppendEntriesArgs (AppendEntriesArgs (trm p n) l (int prev) pt es lc)))"
    and prev: "prev \<le> length (plog p n)" "log_term_at (plog p n) prev = pt"
    and p': "p' = set_acc n (prev + length es)
      (upd n (\<lambda>x. x\<lparr>p_log := reconcile prev es (plog p n), p_commit := ci\<rparr>) p)"
  shows "inv_key Qs p'"
proof -
  note iv = pinvD(1) [OF inv] and ik = pinvD(6) [OF inv] and g = pstep_grows [OF step inv]
  have "prefix (take k (g_llog p t)) (reconcile prev es (plog p n)) \<or> dead Qs p' t k"
    if val: "valid p t k" and le: "k \<le> g_acc p' t n" for t k
  proof (cases "k \<le> g_acc p t n")
    case True
    have "t \<le> trm p n"
      using inv_accD(3) [OF pinvD(2) [OF inv], of t n] True val by (auto simp: valid_def)
    then show ?thesis
      using inv_keyD(1) [OF ik val True] accept_keeps [OF inv ok prev val] dead_grows [OF g] by auto
  next
    case False
    then have t: "t = trm p n" and k: "k \<le> prev + length es"
      using le by (auto simp: p' split: if_splits)
    have "take k (reconcile prev es (plog p n)) = take k (g_llog p t)"
      using accept_log(1) [OF pinvD(3) [OF inv] ok prev] take_eq_take_mono [OF _ k] by (simp add: t)
    then show ?thesis by (metis take_is_prefix)
  qed
  then show ?thesis
    using p' by (intro inv_key_node [OF inv_vote_step [OF step inv] ik iv g, of n]) (auto simp: valid_def)
qed

lemma inv_key_lead:
  assumes step: "pstep Qs p p'" and inv: "pinv Qs p"
    and cand: "role p n = CANDIDATE" and q: "p_votes (pn p n) \<in> Qs"
    and p': "p' = set_acc n (length (plog p n)) (set_llog n
      (upd n (\<lambda>x. x\<lparr>p_role := LEADER, p_match := (\<lambda>_. 0)\<rparr>) p))"
  shows "inv_key Qs p'"
proof -
  note iv = pinvD(1) [OF inv] and ik = pinvD(6) [OF inv] and g = pstep_grows [OF step inv]
  note a = inv_accD [OF pinvD(2) [OF inv]] and dg = dead_grows [OF g]
  have fresh: "g_leader p (trm p n) = None" by (rule lead_fresh [OF iv cand q])
  have val: "valid p t k" if "valid p' t k" for t k
  proof (cases "t = trm p n")
    case True
    then have "k - 1 < length (plog p n)" "entry_term (plog p n ! (k - 1)) = trm p n"
      using that by (auto simp: valid_def p')
    then show ?thesis using wf_logD(1) [OF inv_logD(1) [OF pinvD(3) [OF inv]]] fresh by metis
  qed (use that in \<open>simp add: valid_def p'\<close>)
  have own: "prefix (take k (g_llog p t)) (plog p' n) \<or> dead Qs p' t k"
    if "valid p t k" "k \<le> g_acc p' t n" for t k
    using that inv_keyD(1) [OF ik that(1), of n] dg a(1) [OF fresh] by (auto simp: p' valid_def split: if_splits)
  have lds: "prefix (take k (g_llog p t)) (g_llog p' t') \<or> dead Qs p' t k"
    if "g_leader p' t' \<noteq> None" "g_leader p t' = None" "valid p t k" "t < t'" for t t' k
  proof -
    have "t' = trm p n" using that(1,2) by (auto simp: p' split: if_splits)
    then show ?thesis
      using new_leader_complete [OF inv cand q that(3)] that(4) dg by (auto simp: p')
  qed
  show ?thesis
    by (rule inv_key_node [OF inv_vote_step [OF step inv] ik iv g, of n, OF _ _ _ own _ lds])
      (use val in \<open>blast | auto simp: p'\<close>)+
qed

text \<open>An entry a leader adds after a later leader was elected can no longer be chosen.\<close>

lemma late_append_dead:
  assumes inv: "pinv Qs p" and t': "trm p n < t'" "g_leader p t' = Some c" and g: "grows p p'"
    and acc: "\<And>u. u \<noteq> n \<Longrightarrow> g_acc p' (trm p n) u \<le> length (g_llog p (trm p n))"
  shows "dead Qs p' (trm p n) (Suc (length (g_llog p (trm p n))))"
proof -
  note v = inv_voteD [OF pinvD(1) [OF inv]]
  obtain Q where Q: "Q \<in> Qs" "\<forall>u \<in> Q. g_vote p u t' = Some c" using v(5) [OF t'(2)] by blast
  have later: "trm p n < trm p u" if "u \<in> Q" for u
    using Q(2) that v(1) [of u t' c] t'(1) by force
  have "trm p n < trm p' u \<and> g_acc p' (trm p n) u < Suc (length (g_llog p (trm p n)))" if "u \<in> Q" for u
    using later [OF that] acc [of u] growsD(1) [OF g, of u] by (cases "u = n") auto
  then show ?thesis using Q(1) by (auto simp: dead_def)
qed

lemma inv_key_client_append:
  assumes step: "pstep Qs p p'" and inv: "pinv Qs p" and ld: "role p n = LEADER"
    and p': "p' = set_acc n (Suc (length (plog p n))) (set_llog n (upd n (\<lambda>x. x\<lparr>p_log :=
      p_log x @ [LogEntry (p_term x) (int (length (p_log x)) + 1) cmd]\<rparr>) p))"
  shows "inv_key Qs p'"
proof -
  note iv = pinvD(1) [OF inv] and ik = pinvD(6) [OF inv] and g = pstep_grows [OF step inv]
  note nl = inv_voteD(6) [OF iv ld] and acc = inv_accD(2) [OF pinvD(2) [OF inv], of "trm p n"]
  let ?L = "g_llog p (trm p n)"
  have newk: "t = trm p n \<and> k = Suc (length ?L)" if "valid p' t k" "\<not> valid p t k" for t k
    using that nl by (auto simp: valid_def p' nth_append split: if_splits)
  have dead': "dead Qs p' (trm p n) (Suc (length ?L))" if t': "trm p n < t'" "g_leader p' t' \<noteq> None" for t'
  proof -
    obtain c where "g_leader p t' = Some c" using t' by (auto simp: p' split: if_splits)
    from late_append_dead [OF inv t'(1) this g] show ?thesis using acc by (simp add: p')
  qed
  have own: "prefix (take k (g_llog p t)) (plog p' n) \<or> dead Qs p' t k"
    if "valid p t k" "k \<le> g_acc p' t n" for t k
  proof (cases "t = trm p n")
    case True
    then have "prefix (take k (g_llog p t)) (plog p n)" using nl by (simp add: take_is_prefix)
    then show ?thesis by (simp add: p')
  next
    case False
    then show ?thesis
      using that inv_keyD(1) [OF ik that(1), of n] dead_grows [OF g] by (auto simp: p')
  qed
  have new: "(\<forall>m. k \<le> g_acc p' t m \<longrightarrow> m = n \<and> trm p' n = t \<and> prefix (take k (g_llog p' t)) (plog p' n)) \<and>
    (\<forall>t'. t < t' \<longrightarrow> g_leader p' t' \<noteq> None \<longrightarrow> dead Qs p' t k)" if "valid p' t k" "\<not> valid p t k" for t k
    using newk [OF that] acc dead' nl by (auto simp: p' not_less_eq_eq [symmetric])
  show ?thesis
    by (rule inv_key_node [OF inv_vote_step [OF step inv] ik iv g, of n, OF _ new _ own]) (auto simp: p' nl)
qed

lemma inv_key_step:
  assumes step: "pstep Qs p p'" and inv: "pinv Qs p"
  shows "inv_key Qs p'"
proof -
  note ik = pinvD(6) [OF inv] and g = pstep_grows [OF step inv]
  note node = inv_key_node [OF inv_vote_step [OF step inv] ik pinvD(1) [OF inv] g]
  have own: "valid p t k \<Longrightarrow> k \<le> g_acc p t n \<Longrightarrow> prefix (take k (g_llog p t)) (plog p n) \<or> dead Qs p' t k" for t k n
    using inv_keyD(1) [OF ik, of t k n] dead_grows [OF g] by blast
  show ?thesis
    using step
  proof cases
    case (accept_append s n l prev pt es lc xs ci)
    show ?thesis
      by (rule inv_key_accept [OF step inv inv_netD [OF pinvD(4) [OF inv] accept_append(2)] accept_append(4,5)])
        (simp add: accept_append(1,6))
  next
    case (lead n)
    then show ?thesis by (intro inv_key_lead [OF step inv])
  next
    case (client_append n cmd)
    then show ?thesis by (intro inv_key_client_append [OF step inv])
  next
    case (cast_vote s n c lli llt)
    then show ?thesis using own by (intro node [of n]) (auto simp: valid_def split: if_splits)
  next
    case (candidacy n)
    then show ?thesis using own by (intro node [of n]) (auto simp: valid_def split: if_splits)
  next
    case (bump_term n t)
    then show ?thesis using own by (intro node [of n]) (auto simp: valid_def)
  next
    case (count_vote u n w)
    then show ?thesis using own by (intro node [of n]) (auto simp: valid_def)
  next
    case (count_ack m n r k ci ct)
    then show ?thesis using own by (intro node [of n]) (auto simp: valid_def)
  next
    case (leader_commit n k Q)
    then show ?thesis using own by (intro node [of n]) (auto simp: valid_def)
  next
    case (step_down n)
    then show ?thesis using own by (intro node [of n]) (auto simp: valid_def)
  next
    case (restart n)
    then show ?thesis using own by (intro node [of n]) (auto simp: valid_def)
  qed (use ik in \<open>simp_all add: inv_key_def valid_def dead_def\<close>)
qed

section \<open>Commit indices\<close>

lemma inv_commit_node:
  assumes inv: "inv_commit Qs p" and g: "grows p p'"
    and oth: "\<And>m. m \<noteq> n \<Longrightarrow> pn p' m = pn p m"
    and own: "commit p' n \<le> length (plog p' n)" "committed Qs p' (trm p' n) (take (commit p' n) (plog p' n))"
  shows "inv_commit Qs p'"
  unfolding inv_commit_def
proof (intro allI conjI)
  fix m
  note c = inv_commitD [OF inv, of m]
  show "commit p' m \<le> length (plog p' m)" using own(1) c(1) oth [of m] by (cases "m = n") auto
  show "committed Qs p' (trm p' m) (take (commit p' m) (plog p' m))"
    using own(2) committed_grows [OF g c(2) order_refl] oth [of m] by (cases "m = n") auto
qed

lemma committed_in_leader:
  assumes inv: "pinv Qs p" and com: "committed Qs p t xs" and ld: "g_leader p t \<noteq> None"
  shows "prefix xs (g_llog p t)"
proof (cases "xs = []")
  case False
  then obtain s k where s: "s \<le> t" "valid p s k" "chosen Qs p s k" "prefix xs (take k (g_llog p s))"
    using com by (auto simp: committed_def)
  have "prefix (take k (g_llog p s)) (g_llog p t)"
  proof (cases "s = t")
    case False
    then show ?thesis
      using inv_keyD(3) [OF pinvD(6) [OF inv] s(2) _ ld] s(1) not_dead_chosen [OF s(3)] by auto
  qed (simp add: prefix_takeI)
  then show ?thesis using s(4) prefix_order.order_trans by blast
qed simp

lemma accept_keeps_committed:
  assumes inv: "pinv Qs p"
    and ok: "msg_ok Qs p (Envelope s n (MAppendEntriesArgs (AppendEntriesArgs (trm p n) l (int prev) pt es lc)))"
    and prev: "prev \<le> length (plog p n)" "log_term_at (plog p n) prev = pt"
  shows "prefix (take (commit p n) (plog p n)) (reconcile prev es (plog p n))"
proof -
  have "prefix (take (commit p n) (plog p n)) (g_llog p (trm p n))"
    using committed_in_leader [OF inv inv_commitD(2) [OF pinvD(7) [OF inv]]] ok by simp
  then show ?thesis
    using accept_log(4) [OF pinvD(3) [OF inv] ok prev] prefix_takeI by blast
qed

text \<open>What a follower commits when it accepts entries, and what a leader commits when a quorum has acknowledged, is committed.\<close>

lemma accept_commits:
  assumes inv: "pinv Qs p"
    and ok: "msg_ok Qs p (Envelope s n (MAppendEntriesArgs (AppendEntriesArgs (trm p n) l (int prev) pt es lc)))"
    and prev: "prev \<le> length (plog p n)" "log_term_at (plog p n) prev = pt"
    and xs: "xs = reconcile prev es (plog p n)" and k: "k = (if lc > int (commit p n) then nat (min lc (int (length xs))) else commit p n)"
  shows "k \<le> length xs \<and> committed Qs p (trm p n) (take k xs)"
proof (cases "lc > int (commit p n)")
  case True
  note al = accept_log [OF pinvD(3) [OF inv] ok prev, folded xs]
  have lc: "nat lc \<le> prev + length es" "0 \<le> lc" using ok by auto
  then have k: "k = nat lc" using True al(2) by (simp add: k)
  have "take k xs = take k (g_llog p (trm p n))"
    using take_eq_take_mono [OF al(1) lc(1)] k by simp
  then show ?thesis using ok k lc al(2) by auto
next
  case False
  note c = inv_commitD [OF pinvD(7) [OF inv], of n]
  have keep: "prefix (take (commit p n) (plog p n)) xs"
    using accept_keeps_committed [OF inv ok prev] by (simp add: xs)
  have "k \<le> length xs" "take k xs = take (commit p n) (plog p n)"
    using prefix_length_le [OF keep] prefix_eq_take [OF keep] c(1) False by (simp_all add: k)
  then show ?thesis using c(2) by simp
qed

lemma leader_commits:
  assumes inv: "pinv Qs p" and lead: "role p n = LEADER" and k: "commit p n < k" "k \<le> length (plog p n)" "log_term_at (plog p n) k = trm p n"
    and Q: "Q \<in> Qs" "\<And>m. m \<in> Q \<Longrightarrow> m = n \<or> k \<le> p_match (pn p n) m"
  shows "committed Qs p (trm p n) (take k (plog p n))"
proof -
  note v = inv_voteD(6) [OF pinvD(1) [OF inv] lead]
  have "\<forall>m \<in> Q. k \<le> g_acc p (trm p n) m"
    using k Q(2) inv_accD(4,5) [OF pinvD(2) [OF inv] lead] v order_trans by fastforce
  then have "chosen Qs p (trm p n) k" using Q(1) by (auto simp: chosen_def)
  moreover have "valid p (trm p n) k" "take k (plog p n) = take k (g_llog p (trm p n))"
    using k v by (auto simp: valid_def log_term_at_def split: if_splits)
  ultimately show ?thesis by (auto simp: committed_def)
qed

lemma inv_commit_step:
  assumes step: "pstep Qs p p'" and inv: "pinv Qs p"
  shows "inv_commit Qs p'"
proof -
  note ic = pinvD(7) [OF inv] and g = pstep_grows [OF step inv]
  note c = inv_commitD [OF ic] and node = inv_commit_node [OF ic g]
  have cg: "committed Qs p t xs \<Longrightarrow> t \<le> t' \<Longrightarrow> committed Qs p' t' xs" for t t' xs
    by (rule committed_grows [OF g])
  show ?thesis
    using step
  proof cases
    case (accept_append s n l prev pt es lc xs k)
    have "k \<le> length xs" "committed Qs p (trm p n) (take k xs)"
      using accept_commits [OF inv inv_netD [OF pinvD(4) [OF inv] accept_append(2)] accept_append(4-7)] by blast+
    then show ?thesis using cg by (intro node [of n]) (auto simp: accept_append(1))
  next
    case (leader_commit n k Q)
    have "committed Qs p (trm p n) (take k (plog p n))"
      by (rule leader_commits [OF inv leader_commit(2-6)]) (rule leader_commit(7))
    then show ?thesis using cg leader_commit by (intro node [of n]) auto
  next
    case (client_append n cmd)
    then show ?thesis using cg [OF c(2) [of n]] c(1) [of n] by (intro node [of n]) auto
  next
    case (lead n)
    then show ?thesis using cg [OF c(2) [of n]] c(1) [of n] by (intro node [of n]) auto
  next
    case (bump_term n t)
    then show ?thesis using cg [OF c(2) [of n]] c(1) [of n] by (intro node [of n]) auto
  next
    case (candidacy n)
    then show ?thesis using cg [OF c(2) [of n]] c(1) [of n] by (intro node [of n]) auto
  next
    case (cast_vote s n cnd lli llt)
    then show ?thesis using cg [OF c(2) [of n]] c(1) [of n] by (intro node [of n]) auto
  next
    case (count_vote u n w)
    then show ?thesis using cg [OF c(2) [of n]] c(1) [of n] by (intro node [of n]) auto
  next
    case (count_ack m n r k ci ct)
    then show ?thesis using cg [OF c(2) [of n]] c(1) [of n] by (intro node [of n]) auto
  next
    case (step_down n)
    then show ?thesis using cg [OF c(2) [of n]] c(1) [of n] by (intro node [of n]) auto
  next
    case (restart n)
    then show ?thesis by (intro node [of n]) (auto simp: committed_def)
  qed (use ic in \<open>simp_all add: inv_commit_def committed_def valid_def chosen_def\<close>)
qed

section \<open>The invariant holds in every run\<close>

lemma pinv_step:
  assumes "pstep Qs p p'" "pinv Qs p"
  shows "pinv Qs p'"
  unfolding pinv_def
  using inv_vote_step [OF assms] inv_acc_step [OF assms] inv_log_step [OF assms] inv_net_step [OF assms]
    inv_cand_step [OF assms] inv_key_step [OF assms] inv_commit_step [OF assms]
  by simp

lemma pinv_run: "(pstep Qs)\<^sup>*\<^sup>* p p' \<Longrightarrow> pinv Qs p \<Longrightarrow> pinv Qs p'"
  by (induction rule: rtranclp_induct) (auto intro: pinv_step)

lemma pinv_init: "pinv Qs pinit"
  by (simp add: pinv_def inv_vote_def inv_acc_def inv_log_def inv_net_def inv_cand_def inv_key_def
      inv_commit_def pinit_def valid_def committed_def)

section \<open>Safety of the protocol\<close>

lemma one_leader:
  assumes "pinv Qs p" "role p n = LEADER" "role p m = LEADER" "trm p n = trm p m"
  shows "n = m"
  using leaders_differ [OF pinvD(1) [OF assms(1)] assms(3,2)] assms(4) by simp

lemma logs_match:
  assumes "pinv Qs p" "i < length (plog p n)" "i < length (plog p m)"
    and "entry_term (plog p n ! i) = entry_term (plog p m ! i)"
  shows "take (Suc i) (plog p n) = take (Suc i) (plog p m)"
  using wf_log_match(1) [OF inv_logD(1) [OF pinvD(3) [OF assms(1)]] inv_logD(1) [OF pinvD(3) [OF assms(1)]]] assms
  by blast

lemma committed_comparable:
  assumes inv: "pinv Qs p" and "committed Qs p s xs" "committed Qs p t ys"
  shows "prefix xs ys \<or> prefix ys xs"
proof (cases "xs = [] \<or> ys = []")
  case False
  obtain u j where u: "valid p u j" "chosen Qs p u j" "prefix xs (take j (g_llog p u))"
    using assms(2) False by (auto simp: committed_def)
  obtain w k where w: "valid p w k" "chosen Qs p w k" "prefix ys (take k (g_llog p w))"
    using assms(3) False by (auto simp: committed_def)
  have cu: "committed Qs p (max u w) xs" and cw: "committed Qs p (max u w) ys"
    using u w by (auto simp: committed_def intro!: max.cobounded1 max.cobounded2)
  have "g_leader p u \<noteq> None" "g_leader p w \<noteq> None"
    using u(1) w(1) inv_accD(1) [OF pinvD(2) [OF inv]] by (fastforce simp: valid_def)+
  then have "g_leader p (max u w) \<noteq> None" by (simp add: max_def)
  then show ?thesis
    using committed_in_leader [OF inv cu] committed_in_leader [OF inv cw] prefix_same_cases by blast
qed auto

lemma commits_agree:
  assumes inv: "pinv Qs p" and "i < commit p n" "i < commit p m"
  shows "plog p n ! i = plog p m ! i"
proof -
  note c = inv_commitD [OF pinvD(7) [OF inv]]
  have "prefix (take (commit p n) (plog p n)) (take (commit p m) (plog p m)) \<or>
        prefix (take (commit p m) (plog p m)) (take (commit p n) (plog p n))"
    using committed_comparable [OF inv] c(2) by blast
  then show ?thesis
    using prefix_nth [where i = i] assms(2,3) c(1) [of n] c(1) [of m] by fastforce
qed

end

interpretation raft_maj: raft_quorum "majorities (set ids)" for ids :: "string list"
  by unfold_locales

end
