(* ===== verification/Raft_Node.thy ===== *)
theory Raft_Node
  imports Raft_Types
begin

text \<open>
  The class RaftNode of raft/node.py. A node is a record; every method is a function from the
  node to the node it leaves. The messages a method hands to \<open>Transport.send\<close> are returned, in
  order, as an outbox of recipient and message; \<open>send\<close> never calls back into the node, so
  collecting them changes nothing. Times are rational numbers; \<open>None\<close> is the infinity the
  source starts a deadline with. \<open>random_fn nd k lo hi\<close> is the result of the node's k-th call
  of its random function. The state machine is the parameter \<open>apl\<close> with its state kept in the
  node; a raised exception is \<open>Inl\<close>.
\<close>

record ('c, 's) raft_node =
  node_id :: string
  peer_ids :: "string list"
  storage :: "'c storage"
  state_machine :: 's
  election_timeout_min :: rat
  election_timeout_max :: rat
  heartbeat_interval :: rat
  random_fn :: "nat \<Rightarrow> rat \<Rightarrow> rat \<Rightarrow> rat"
  random_calls :: nat
  state :: node_state
  leader_id :: "string option"
  commit_index :: int
  last_applied :: int
  next_index :: "(string, int) dict"
  match_index :: "(string, int) dict"
  votes_received :: "string set"
  prevotes_received :: "string set"
  prevote_target_term :: int
  election_deadline :: rat
  next_heartbeat_deadline :: "rat option"
  last_leader_contact :: "rat option"

type_synonym 'c outbox = "(string \<times> 'c message) list"

section \<open>Construction and read-only helpers\<close>

definition RaftNode ::
  "string \<Rightarrow> string list \<Rightarrow> 'c storage \<Rightarrow> 's \<Rightarrow> rat \<Rightarrow> rat \<Rightarrow> rat
   \<Rightarrow> (nat \<Rightarrow> rat \<Rightarrow> rat \<Rightarrow> rat) \<Rightarrow> ('c, 's) raft_node" where
  "RaftNode nid peers st sm tmin tmax hb rnd =
     \<lparr>node_id = nid, peer_ids = peers, storage = st, state_machine = sm,
      election_timeout_min = tmin, election_timeout_max = tmax, heartbeat_interval = hb,
      random_fn = rnd, random_calls = 0,
      state = FOLLOWER, leader_id = None, commit_index = 0, last_applied = 0,
      next_index = [], match_index = [], votes_received = {}, prevotes_received = {},
      prevote_target_term = -1, election_deadline = 0,
      next_heartbeat_deadline = None, last_leader_contact = None\<rparr>"

definition current_term :: "('c, 's) raft_node \<Rightarrow> int" where
  "current_term nd = get_current_term (storage nd)"

definition is_leader :: "('c, 's) raft_node \<Rightarrow> bool" where
  "is_leader nd \<longleftrightarrow> state nd = LEADER"

definition node_log :: "('c, 's) raft_node \<Rightarrow> 'c log_entry list" where
  "node_log nd = entries_from (storage nd) 1"

definition reset_election_deadline :: "rat \<Rightarrow> ('c, 's) raft_node \<Rightarrow> ('c, 's) raft_node" where
  "reset_election_deadline now nd =
     (let timeout = random_fn nd (random_calls nd) (election_timeout_min nd) (election_timeout_max nd)
      in nd\<lparr>random_calls := Suc (random_calls nd), election_deadline := now + timeout\<rparr>)"

definition start_node :: "rat \<Rightarrow> ('c, 's) raft_node \<Rightarrow> ('c, 's) raft_node" where
  "start_node now nd = reset_election_deadline now nd"

definition majority_of :: "('c, 's) raft_node \<Rightarrow> int" where
  "majority_of nd = (int (length (peer_ids nd)) + 1) div 2 + 1"

section \<open>Log helpers\<close>

definition log_up_to_date :: "('c, 's) raft_node \<Rightarrow> int \<Rightarrow> int \<Rightarrow> bool" where
  "log_up_to_date nd last_log_index last_log_term =
     (let my_last_term = last_term (storage nd); my_last_index = last_index (storage nd)
      in if last_log_term \<noteq> my_last_term then last_log_term > my_last_term
         else last_log_index \<ge> my_last_index)"

function first_index_of_term_loop :: "'c storage \<Rightarrow> int \<Rightarrow> int \<Rightarrow> int" where
  "first_index_of_term_loop st trm index =
     (if index > 0 \<and> term_at st index = trm then first_index_of_term_loop st trm (index - 1)
      else index + 1)"
  by pat_completeness auto
termination
  by (relation "measure (\<lambda>(st, trm, index). nat index)") auto

declare first_index_of_term_loop.simps [simp del]

definition first_index_of_term :: "('c, 's) raft_node \<Rightarrow> int \<Rightarrow> int \<Rightarrow> int" where
  "first_index_of_term nd trm from_index = first_index_of_term_loop (storage nd) trm from_index"

function last_index_of_term_loop :: "'c storage \<Rightarrow> int \<Rightarrow> int \<Rightarrow> int" where
  "last_index_of_term_loop st trm index =
     (if index > 0 then
        (let t = term_at st index in
         if t = trm then index
         else if t < trm then 0
         else last_index_of_term_loop st trm (index - 1))
      else 0)"
  by pat_completeness auto
termination
  by (relation "measure (\<lambda>(st, trm, index). nat index)") auto

declare last_index_of_term_loop.simps [simp del]

definition last_index_of_term :: "('c, 's) raft_node \<Rightarrow> int \<Rightarrow> int" where
  "last_index_of_term nd trm =
     last_index_of_term_loop (storage nd) trm (last_index (storage nd))"

section \<open>Broadcasting\<close>

definition broadcast_request_vote :: "('c, 's) raft_node \<Rightarrow> 'c outbox" where
  "broadcast_request_vote nd =
     (let args = RequestVoteArgs (current_term nd) (node_id nd)
                   (last_index (storage nd)) (last_term (storage nd))
      in map (\<lambda>peer. (peer, MRequestVoteArgs args)) (peer_ids nd))"

definition send_append_entries_to :: "string \<Rightarrow> ('c, 's) raft_node \<Rightarrow> 'c outbox" where
  "send_append_entries_to peer nd =
     (let next_idx = dict_get_default (next_index nd) peer (last_index (storage nd) + 1);
          prev_log_index = next_idx - 1;
          prev_log_term = term_at (storage nd) prev_log_index;
          entries = entries_from (storage nd) next_idx
      in [(peer, MAppendEntriesArgs (AppendEntriesArgs (current_term nd) (node_id nd)
             prev_log_index prev_log_term entries (commit_index nd)))])"

definition broadcast_append_entries ::
  "rat \<Rightarrow> ('c, 's) raft_node \<Rightarrow> ('c, 's) raft_node \<times> 'c outbox" where
  "broadcast_append_entries now nd =
     (let nd = nd\<lparr>next_heartbeat_deadline := Some (now + heartbeat_interval nd)\<rparr>
      in (nd, concat (map (\<lambda>peer. send_append_entries_to peer nd) (peer_ids nd))))"

section \<open>Commit index and application\<close>

function apply_committed ::
  "('c \<Rightarrow> 's \<Rightarrow> 's) \<Rightarrow> ('c, 's) raft_node \<Rightarrow> ('c, 's) raft_node result" where
  "apply_committed apl nd =
     (if last_applied nd < commit_index nd then
        (let nd = nd\<lparr>last_applied := last_applied nd + 1\<rparr> in
         case get_entry (storage nd) (last_applied nd) of
           None \<Rightarrow> Inl AssertionError
         | Some entry \<Rightarrow>
             apply_committed apl (nd\<lparr>state_machine := apl (entry_command entry) (state_machine nd)\<rparr>))
      else Inr nd)"
  by pat_completeness auto
termination
  by (relation "measure (\<lambda>(apl, nd). nat (commit_index nd - last_applied nd))") auto

declare apply_committed.simps [simp del]

definition advance_commit_index ::
  "('c \<Rightarrow> 's \<Rightarrow> 's) \<Rightarrow> ('c, 's) raft_node \<Rightarrow> ('c, 's) raft_node result" where
  "advance_commit_index apl nd =
     (let match_indexes = rev (sort (last_index (storage nd) # dict_values (match_index nd)));
          majority = majority_of nd;
          k = nat (majority - 1)
      in if k \<ge> length match_indexes then Inl IndexError
         else
           (let candidate_n = match_indexes ! k in
            if candidate_n > commit_index nd \<and> term_at (storage nd) candidate_n = current_term nd
            then apply_committed apl (nd\<lparr>commit_index := candidate_n\<rparr>)
            else Inr nd))"

section \<open>State transitions\<close>

definition become_follower :: "int \<Rightarrow> rat \<Rightarrow> ('c, 's) raft_node \<Rightarrow> ('c, 's) raft_node" where
  "become_follower trm now nd =
     reset_election_deadline now
       (nd\<lparr>storage := set_voted_for None (set_current_term trm (storage nd)),
           state := FOLLOWER, leader_id := None, votes_received := {}\<rparr>)"

definition become_leader :: "rat \<Rightarrow> ('c, 's) raft_node \<Rightarrow> ('c, 's) raft_node \<times> 'c outbox" where
  "become_leader now nd =
     (let last = last_index (storage nd);
          nd = nd\<lparr>state := LEADER, leader_id := Some (node_id nd),
                  next_index := map (\<lambda>peer. (peer, last + 1)) (peer_ids nd),
                  match_index := map (\<lambda>peer. (peer, 0)) (peer_ids nd)\<rparr>
      in broadcast_append_entries now nd)"

definition maybe_become_leader_from_votes ::
  "rat \<Rightarrow> ('c, 's) raft_node \<Rightarrow> ('c, 's) raft_node \<times> 'c outbox" where
  "maybe_become_leader_from_votes now nd =
     (if state nd \<noteq> CANDIDATE then (nd, [])
      else if int (card (votes_received nd)) \<ge> majority_of nd then become_leader now nd
      else (nd, []))"

definition become_candidate :: "rat \<Rightarrow> ('c, 's) raft_node \<Rightarrow> ('c, 's) raft_node \<times> 'c outbox" where
  "become_candidate now nd =
     (let new_term = get_current_term (storage nd) + 1;
          nd = nd\<lparr>storage := set_voted_for (Some (node_id nd)) (set_current_term new_term (storage nd)),
                  state := CANDIDATE, leader_id := None, votes_received := {node_id nd}\<rparr>;
          nd = reset_election_deadline now nd;
          out = broadcast_request_vote nd;
          (nd, out') = maybe_become_leader_from_votes now nd
      in (nd, out @ out'))"

definition maybe_win_prevote :: "rat \<Rightarrow> ('c, 's) raft_node \<Rightarrow> ('c, 's) raft_node \<times> 'c outbox" where
  "maybe_win_prevote now nd =
     (if int (card (prevotes_received nd)) \<ge> majority_of nd then become_candidate now nd
      else (nd, []))"

definition start_prevote :: "rat \<Rightarrow> ('c, 's) raft_node \<Rightarrow> ('c, 's) raft_node \<times> 'c outbox" where
  "start_prevote now nd =
     (let nd = nd\<lparr>state := FOLLOWER, leader_id := None,
                  prevote_target_term := current_term nd + 1,
                  prevotes_received := {node_id nd}\<rparr>;
          nd = reset_election_deadline now nd;
          args = PreVoteArgs (prevote_target_term nd) (node_id nd)
                   (last_index (storage nd)) (last_term (storage nd));
          out = map (\<lambda>peer. (peer, MPreVoteArgs args)) (peer_ids nd);
          (nd, out') = maybe_win_prevote now nd
      in (nd, out @ out'))"

section \<open>RPC handlers\<close>

definition handle_prevote :: "prevote_args \<Rightarrow> rat \<Rightarrow> ('c, 's) raft_node \<Rightarrow> prevote_reply" where
  "handle_prevote args now nd =
     (let ct = get_current_term (storage nd);
          reply = (\<lambda>granted. PreVoteReply ct granted (node_id nd))
      in if leader_id nd \<noteq> None \<and>
            (case last_leader_contact nd of None \<Rightarrow> False
             | Some t \<Rightarrow> now - t < election_timeout_min nd) then reply False
         else if pva_term args \<le> ct then reply False
         else if \<not> log_up_to_date nd (pva_last_log_index args) (pva_last_log_term args) then reply False
         else reply True)"

definition handle_request_vote ::
  "request_vote_args \<Rightarrow> rat \<Rightarrow> ('c, 's) raft_node \<Rightarrow> ('c, 's) raft_node \<times> request_vote_reply" where
  "handle_request_vote args now nd =
     (let ct = get_current_term (storage nd);
          (nd, ct) = (if rva_term args > ct then (become_follower (rva_term args) now nd, rva_term args)
                      else (nd, ct))
      in if rva_term args < ct then (nd, RequestVoteReply ct False (node_id nd))
         else
           (let voted_for = get_voted_for (storage nd);
                can_vote = (voted_for = None \<or> voted_for = Some (rva_candidate_id args));
                log_ok = log_up_to_date nd (rva_last_log_index args) (rva_last_log_term args)
            in if can_vote \<and> log_ok then
                 (let nd = nd\<lparr>storage := set_voted_for (Some (rva_candidate_id args)) (storage nd)\<rparr>;
                      nd = reset_election_deadline now nd
                  in (nd, RequestVoteReply ct True (node_id nd)))
               else (nd, RequestVoteReply ct False (node_id nd))))"

text \<open>The loop that reconciles the log with the entries received, from position \<open>idx\<close> on.\<close>

fun append_loop :: "int \<Rightarrow> 'c log_entry list \<Rightarrow> 'c storage \<Rightarrow> 'c storage result" where
  "append_loop idx [] st = Inr st"
| "append_loop idx (entry # rest) st =
     (let existing_term = term_at st idx in
      if existing_term = -1 then Inr (append_log (entry # rest) st)
      else if existing_term \<noteq> entry_term entry then
        rbind (truncate_from idx st) (\<lambda>st'. Inr (append_log (entry # rest) st'))
      else append_loop (idx + 1) rest st)"

definition handle_append_entries ::
  "('c \<Rightarrow> 's \<Rightarrow> 's) \<Rightarrow> 'c append_entries_args \<Rightarrow> rat \<Rightarrow> ('c, 's) raft_node
   \<Rightarrow> (('c, 's) raft_node \<times> append_entries_reply) result" where
  "handle_append_entries apl args now nd =
     (let ct = get_current_term (storage nd);
          (nd, ct) = (if aea_term args > ct then (become_follower (aea_term args) now nd, aea_term args)
                      else (nd, ct))
      in if aea_term args < ct then Inr (nd, AppendEntriesReply ct False (node_id nd) 0 0 (-1))
         else
           (let nd = nd\<lparr>state := FOLLOWER, leader_id := Some (aea_leader_id args),
                        last_leader_contact := Some now\<rparr>;
                nd = reset_election_deadline now nd;
                prev = aea_prev_log_index args;
                term_at_prev = term_at (storage nd) prev
            in if prev > 0 \<and> term_at_prev = -1 then
                 Inr (nd, AppendEntriesReply ct False (node_id nd) 0 (last_index (storage nd) + 1) (-1))
               else if prev > 0 \<and> term_at_prev \<noteq> aea_prev_log_term args then
                 Inr (nd, AppendEntriesReply ct False (node_id nd) 0
                            (first_index_of_term nd term_at_prev prev) term_at_prev)
               else
                 rbind (append_loop (prev + 1) (aea_entries args) (storage nd)) (\<lambda>st.
                   let nd = nd\<lparr>storage := st\<rparr> in
                   rbind (if aea_leader_commit args > commit_index nd then
                            apply_committed apl
                              (nd\<lparr>commit_index := min (aea_leader_commit args) (last_index (storage nd))\<rparr>)
                          else Inr nd) (\<lambda>nd.
                     Inr (nd, AppendEntriesReply ct True (node_id nd)
                                (prev + int (length (aea_entries args))) 0 (-1))))))"

section \<open>Reply handlers\<close>

definition handle_prevote_reply ::
  "prevote_reply \<Rightarrow> rat \<Rightarrow> ('c, 's) raft_node \<Rightarrow> ('c, 's) raft_node \<times> 'c outbox" where
  "handle_prevote_reply reply now nd =
     (if pvr_term reply > get_current_term (storage nd) then (become_follower (pvr_term reply) now nd, [])
      else if state nd \<noteq> FOLLOWER \<or> prevote_target_term nd \<noteq> current_term nd + 1 then (nd, [])
      else if pvr_vote_granted reply then
        maybe_win_prevote now
          (nd\<lparr>prevotes_received := insert (pvr_voter_id reply) (prevotes_received nd)\<rparr>)
      else (nd, []))"

definition handle_request_vote_reply ::
  "request_vote_reply \<Rightarrow> rat \<Rightarrow> ('c, 's) raft_node \<Rightarrow> ('c, 's) raft_node \<times> 'c outbox" where
  "handle_request_vote_reply reply now nd =
     (if rvr_term reply > get_current_term (storage nd) then (become_follower (rvr_term reply) now nd, [])
      else if state nd \<noteq> CANDIDATE \<or> rvr_term reply \<noteq> get_current_term (storage nd) then (nd, [])
      else if rvr_vote_granted reply then
        maybe_become_leader_from_votes now
          (nd\<lparr>votes_received := insert (rvr_voter_id reply) (votes_received nd)\<rparr>)
      else (nd, []))"

definition handle_append_entries_reply ::
  "('c \<Rightarrow> 's \<Rightarrow> 's) \<Rightarrow> string \<Rightarrow> append_entries_reply \<Rightarrow> rat \<Rightarrow> ('c, 's) raft_node
   \<Rightarrow> (('c, 's) raft_node \<times> 'c outbox) result" where
  "handle_append_entries_reply apl sender_id reply now nd =
     (if aer_term reply > get_current_term (storage nd) then
        Inr (become_follower (aer_term reply) now nd, [])
      else if state nd \<noteq> LEADER \<or> aer_term reply \<noteq> get_current_term (storage nd) then Inr (nd, [])
      else if aer_success reply then
        (let nd = (if aer_match_index reply > dict_get_default (match_index nd) sender_id 0
                   then nd\<lparr>match_index := dict_set sender_id (aer_match_index reply) (match_index nd)\<rparr>
                   else nd)
         in case dict_get (match_index nd) sender_id of
              None \<Rightarrow> Inl KeyError
            | Some m \<Rightarrow>
                rbind (advance_commit_index apl
                         (nd\<lparr>next_index := dict_set sender_id (m + 1) (next_index nd)\<rparr>))
                  (\<lambda>nd. Inr (nd, [])))
      else
        (let nxt = (if aer_conflict_term reply \<noteq> -1 then
                      (let last_idx = last_index_of_term nd (aer_conflict_term reply)
                       in if last_idx > 0 then last_idx + 1 else aer_conflict_index reply)
                    else max 1 (aer_conflict_index reply));
             nd = nd\<lparr>next_index := dict_set sender_id nxt (next_index nd)\<rparr>
         in Inr (nd, send_append_entries_to sender_id nd)))"

section \<open>Driving the node\<close>

definition tick :: "rat \<Rightarrow> ('c, 's) raft_node \<Rightarrow> ('c, 's) raft_node \<times> 'c outbox" where
  "tick now nd =
     (if state nd = LEADER then
        (if (case next_heartbeat_deadline nd of None \<Rightarrow> False | Some d \<Rightarrow> now \<ge> d)
         then broadcast_append_entries now nd else (nd, []))
      else if now \<ge> election_deadline nd then start_prevote now nd
      else (nd, []))"

definition receive ::
  "('c \<Rightarrow> 's \<Rightarrow> 's) \<Rightarrow> 'c envelope \<Rightarrow> rat \<Rightarrow> ('c, 's) raft_node
   \<Rightarrow> (('c, 's) raft_node \<times> 'c outbox) result" where
  "receive apl envelope now nd =
     (let sender = env_sender_id envelope in
      case env_message envelope of
        MRequestVoteArgs args \<Rightarrow>
          (let (nd, reply) = handle_request_vote args now nd
           in Inr (nd, [(sender, MRequestVoteReply reply)]))
      | MRequestVoteReply reply \<Rightarrow> Inr (handle_request_vote_reply reply now nd)
      | MAppendEntriesArgs args \<Rightarrow>
          rbind (handle_append_entries apl args now nd)
            (\<lambda>(nd, reply). Inr (nd, [(sender, MAppendEntriesReply reply)]))
      | MAppendEntriesReply reply \<Rightarrow> handle_append_entries_reply apl sender reply now nd
      | MPreVoteArgs args \<Rightarrow> Inr (nd, [(sender, MPreVoteReply (handle_prevote args now nd))])
      | MPreVoteReply reply \<Rightarrow> Inr (handle_prevote_reply reply now nd))"

definition propose ::
  "'c \<Rightarrow> rat \<Rightarrow> ('c, 's) raft_node \<Rightarrow> ('c, 's) raft_node \<times> 'c outbox \<times> 'c log_entry option" where
  "propose command now nd =
     (if state nd \<noteq> LEADER then (nd, [], None)
      else
        (let entry = LogEntry (current_term nd) (last_index (storage nd) + 1) command;
             nd = nd\<lparr>storage := append_log [entry] (storage nd)\<rparr>;
             (nd, out) = broadcast_append_entries now nd
         in (nd, out, Some entry)))"

end
