(* ===== verification/Raft_Simulation.thy ===== *)
theory Raft_Simulation
  imports Raft_Safety Raft_Node "HOL-Library.Multiset"
begin

text \<open>
  How a node of raft/node.py implements the protocol: the abstraction of a node's record, the
  well-formedness of the record, and, for the parts of the code that hold elections, the runs of
  protocol actions that lead to the node a method returns and send the messages it sends.
\<close>

section \<open>What the loops of a node compute\<close>

lemma append_loop_reconcile:
  assumes "\<And>e. e \<in> set (st_log st) \<Longrightarrow> entry_term e \<noteq> -1" "i \<le> length (st_log st)"
  shows "append_loop (int i + 1) es st = Inr (st\<lparr>st_log := reconcile i es (st_log st)\<rparr>)"
  using assms(2)
proof (induction es arbitrary: i)
  case (Cons e es)
  show ?case
  proof (cases "i < length (st_log st)")
    case True
    have "term_at st (int i + 1) = entry_term (st_log st ! i)"
      using True by (simp add: term_at_def)
    moreover have "entry_term (st_log st ! i) \<noteq> -1" using assms(1) True by simp
    moreover have "append_loop (int i + 1 + 1) es st = Inr (st\<lparr>st_log := reconcile (Suc i) es (st_log st)\<rparr>)"
      using Cons.IH [of "Suc i"] True by (simp add: algebra_simps)
    ultimately show ?thesis
      using True by (simp add: truncate_from_def append_log_def)
  next
    case False
    then have "term_at st (int i + 1) = -1" by (simp add: term_at_def)
    then show ?thesis using False by (simp add: append_log_def)
  qed
qed simp

lemma apply_committed_eq:
  assumes "0 \<le> last_applied nd" "last_applied nd \<le> commit_index nd"
    "commit_index nd \<le> last_index (storage nd)"
  shows "apply_committed apl nd = Inr (nd\<lparr>last_applied := commit_index nd, state_machine :=
    fold apl (map entry_command (drop (nat (last_applied nd)) (take (nat (commit_index nd)) (st_log (storage nd)))))
      (state_machine nd)\<rparr>)"
  using assms
proof (induction apl nd rule: apply_committed.induct)
  case (1 apl nd)
  show ?case
  proof (cases "last_applied nd < commit_index nd")
    case True
    let ?i = "nat (last_applied nd)" and ?c = "nat (commit_index nd)" and ?L = "st_log (storage nd)"
    have i: "?i < length ?L" "?i < ?c" using True 1(2-4) by (auto simp: last_index_def)
    have e: "get_entry (storage nd) (last_applied nd + 1) = Some (?L ! ?i)"
      using True 1(2-4) by (auto simp: get_entry_def last_index_def)
    let ?nd = "nd\<lparr>last_applied := last_applied nd + 1, state_machine := apl (entry_command (?L ! ?i)) (state_machine nd)\<rparr>"
    have "drop ?i (take ?c ?L) = ?L ! ?i # drop (Suc ?i) (take ?c ?L)"
      using i by (subst Cons_nth_drop_Suc [symmetric]) auto
    moreover have "nat (last_applied nd + 1) = Suc ?i" using 1(2) by simp
    moreover have "apply_committed apl ?nd = Inr (?nd\<lparr>last_applied := commit_index ?nd, state_machine :=
        fold apl (map entry_command (drop (nat (last_applied ?nd)) (take (nat (commit_index ?nd)) (st_log (storage ?nd)))))
        (state_machine ?nd)\<rparr>)"
      using 1(1) [OF True refl, of "?L ! ?i"] e True 1(2-4) by simp
    ultimately show ?thesis
      using True e by (simp add: apply_committed.simps [of apl nd])
  next
    case False
    then have "last_applied nd = commit_index nd" using 1(3) by simp
    then show ?thesis by (simp add: apply_committed.simps [of apl nd])
  qed
qed

lemma first_index_of_term_bounds:
  assumes "0 < i" "term_at st i = t"
  shows "1 \<le> first_index_of_term_loop st t i \<and> first_index_of_term_loop st t i \<le> i"
  using assms
proof (induction st t i rule: first_index_of_term_loop.induct)
  case (1 st t i)
  show ?case
  proof (cases "0 < i - 1 \<and> term_at st (i - 1) = t")
    case True
    then show ?thesis using 1 by (simp add: first_index_of_term_loop.simps [of st t i])
  next
    case False
    then show ?thesis
      using 1(2,3)
      by (auto simp: first_index_of_term_loop.simps [of st t i] first_index_of_term_loop.simps [of st t "i - 1"])
  qed
qed

lemma last_index_of_term_bounds: "last_index_of_term_loop st t i \<le> max 0 i"
proof (induction st t i rule: last_index_of_term_loop.induct)
  case (1 st t i)
  then show ?case by (auto simp: last_index_of_term_loop.simps [of st t i] Let_def)
qed

lemma count_at_least_nth:
  fixes xs :: "int list"
  assumes "k < length xs"
  shows "k < length (filter (\<lambda>x. rev (sort xs) ! k \<le> x) xs)"
proof -
  let ?ys = "rev (sort xs)"
  have desc: "sorted (rev ?ys)" by simp
  have "?ys ! k \<le> ?ys ! j" if "j \<le> k" for j
    using assms that sorted_rev_nth_mono [of ?ys j k] by simp
  then have all: "filter (\<lambda>x. ?ys ! k \<le> x) (take (Suc k) ?ys) = take (Suc k) ?ys"
    by (auto simp: filter_id_conv in_set_conv_nth less_Suc_eq_le)
  have "Suc k = length (filter (\<lambda>x. ?ys ! k \<le> x) (take (Suc k) ?ys))"
    using assms all by simp
  also have "\<dots> \<le> length (filter (\<lambda>x. ?ys ! k \<le> x) (take (Suc k) ?ys @ drop (Suc k) ?ys))"
    by (simp only: filter_append length_append)
  also have "\<dots> = length (filter (\<lambda>x. ?ys ! k \<le> x) xs)"
    by (metis append_take_drop_id mset_filter mset_rev mset_sort size_mset)
  finally show ?thesis by simp
qed

section \<open>A node and its abstraction\<close>

definition abs_node :: "('c, 's) raft_node \<Rightarrow> 'c pnode" where
  "abs_node nd = \<lparr>p_term = current_term nd, p_vote = get_voted_for (storage nd),
     p_log = st_log (storage nd), p_role = state nd, p_votes = votes_received nd,
     p_match = (\<lambda>m. nat (dict_get_default (match_index nd) m 0)), p_commit = nat (commit_index nd)\<rparr>"

definition node_ok :: "string list \<Rightarrow> string \<Rightarrow> ('c, 's) raft_node \<Rightarrow> bool" where
  "node_ok ids n nd \<longleftrightarrow>
     node_id nd = n \<and> n \<in> set ids \<and> distinct (peer_ids nd) \<and> set (peer_ids nd) = set ids - {n} \<and>
     0 \<le> last_applied nd \<and> last_applied nd \<le> commit_index nd \<and>
     votes_received nd \<subseteq> set ids \<and>
     (state nd = LEADER \<longrightarrow> dict_keys (match_index nd) = peer_ids nd \<and>
        (\<forall>k \<in> set (dict_values (match_index nd)). 0 \<le> k) \<and>
        (\<forall>d j. dict_get (next_index nd) d = Some j \<longrightarrow> 1 \<le> j \<and> j \<le> last_index (storage nd) + 1))"

lemma abs_node_sel [simp]:
  "p_term (abs_node nd) = current_term nd" "p_vote (abs_node nd) = get_voted_for (storage nd)"
  "p_log (abs_node nd) = st_log (storage nd)" "p_role (abs_node nd) = state nd"
  "p_votes (abs_node nd) = votes_received nd" "p_commit (abs_node nd) = nat (commit_index nd)"
  "p_match (abs_node nd) m = nat (dict_get_default (match_index nd) m 0)"
  by (simp_all add: abs_node_def)

lemma node_okD:
  assumes "node_ok ids n nd"
  shows "node_id nd = n" "n \<in> set ids" "distinct (peer_ids nd)" "set (peer_ids nd) = set ids - {n}"
    "0 \<le> last_applied nd" "last_applied nd \<le> commit_index nd" "votes_received nd \<subseteq> set ids"
    "0 \<le> commit_index nd"
    "state nd = LEADER \<Longrightarrow> dict_keys (match_index nd) = peer_ids nd"
    "state nd = LEADER \<Longrightarrow> dict_get (next_index nd) d = Some j \<Longrightarrow> 1 \<le> j \<and> j \<le> last_index (storage nd) + 1"
    "state nd = LEADER \<Longrightarrow> k \<in> set (dict_values (match_index nd)) \<Longrightarrow> 0 \<le> k"
  using assms by (auto simp: node_ok_def)

text \<open>
  A run of protocol actions of one node that leads to its new state and has sent its outbox.
\<close>

definition reaches ::
  "string list \<Rightarrow> string \<Rightarrow> 'c pstate \<Rightarrow> ('c, 's) raft_node \<Rightarrow> 'c outbox \<Rightarrow> bool" where
  "reaches ids n p nd out \<longleftrightarrow> node_ok ids n nd \<and> fst ` set out \<subseteq> set ids - {n} \<and>
     (\<exists>p'. (pstep (majorities (set ids)))\<^sup>*\<^sup>* p p' \<and> pn p' = (pn p)(n := abs_node nd) \<and>
        net p \<subseteq> net p' \<and> (\<forall>(d, m) \<in> set out. Envelope n d m \<in> net p'))"

lemma reaches_refl:
  "node_ok ids n nd \<Longrightarrow> pn p n = abs_node nd \<Longrightarrow> reaches ids n p nd []"
  by (auto simp: reaches_def intro!: exI [of _ p])

lemma reaches_step:
  assumes "pstep (majorities (set ids)) p p'" "pn p' = (pn p)(n := abs_node nd)" "net p \<subseteq> net p'"
    "node_ok ids n nd"
  shows "reaches ids n p nd []"
  using assms by (auto simp: reaches_def)

lemma reaches_trans:
  assumes inv: "pinv (majorities (set ids)) p" and r: "reaches ids n p nd out"
    and next_: "\<And>q. pinv (majorities (set ids)) q \<Longrightarrow> pn q n = abs_node nd \<Longrightarrow> net p \<subseteq> net q \<Longrightarrow>
      node_ok ids n nd \<Longrightarrow> reaches ids n q nd' out'"
  shows "reaches ids n p nd' (out @ out')"
proof -
  obtain q where q: "(pstep (majorities (set ids)))\<^sup>*\<^sup>* p q" "pn q = (pn p)(n := abs_node nd)"
      "net p \<subseteq> net q" "\<forall>(d, m) \<in> set out. Envelope n d m \<in> net q"
    and ok: "node_ok ids n nd" and out: "fst ` set out \<subseteq> set ids - {n}"
    using r by (auto simp: reaches_def)
  have "reaches ids n q nd' out'"
    using next_ raft_maj.pinv_run [OF q(1) inv] q(2,3) ok by simp
  then obtain p' where p': "(pstep (majorities (set ids)))\<^sup>*\<^sup>* q p'" "pn p' = (pn q)(n := abs_node nd')"
      "net q \<subseteq> net p'" "\<forall>(d, m) \<in> set out'. Envelope n d m \<in> net p'"
    and ok': "node_ok ids n nd'" and out': "fst ` set out' \<subseteq> set ids - {n}"
    by (auto simp: reaches_def)
  have "pn p' = (pn p)(n := abs_node nd')" using q(2) p'(2) by simp
  moreover have "\<forall>(d, m) \<in> set (out @ out'). Envelope n d m \<in> net p'"
    using q(4) p'(3,4) by auto
  moreover have "(pstep (majorities (set ids)))\<^sup>*\<^sup>* p p'" using q(1) p'(1) by simp
  ultimately show ?thesis
    using ok' out out' q(3) p'(3) unfolding reaches_def
    by (intro conjI exI [of _ p']) (auto simp: image_Un)
qed

text \<open>Changing fields the protocol does not see.\<close>

lemma reaches_abs:
  "reaches ids n p nd out \<Longrightarrow> abs_node nd' = abs_node nd \<Longrightarrow> node_ok ids n nd' \<Longrightarrow> reaches ids n p nd' out"
  by (simp add: reaches_def)

text \<open>Sending a list of messages, each of which the node may send now.\<close>

lemma reaches_send:
  assumes "pn p n = abs_node nd" "node_ok ids n nd" "fst ` set out \<subseteq> set ids - {n}"
    and ok: "\<And>q d m. (d, m) \<in> set out \<Longrightarrow> pn q = pn p \<Longrightarrow> g_acc q = g_acc p \<Longrightarrow> g_llog q = g_llog p \<Longrightarrow>
      pstep (majorities (set ids)) q (emit (Envelope n d m) q)"
  shows "reaches ids n p nd out"
proof -
  have "\<exists>p'. (pstep (majorities (set ids)))\<^sup>*\<^sup>* p p' \<and> pn p' = pn p \<and> g_acc p' = g_acc p \<and> g_llog p' = g_llog p \<and>
      net p \<subseteq> net p' \<and> (\<forall>(d, m) \<in> set out. Envelope n d m \<in> net p')"
    using ok
  proof (induction out rule: rev_induct)
    case (snoc x out)
    obtain d m where x: "x = (d, m)" by force
    obtain q where q: "(pstep (majorities (set ids)))\<^sup>*\<^sup>* p q" "pn q = pn p" "g_acc q = g_acc p"
        "g_llog q = g_llog p" "net p \<subseteq> net q" "\<forall>(d, m) \<in> set out. Envelope n d m \<in> net q"
      using snoc.IH snoc.prems by (auto simp: x)
    have "pstep (majorities (set ids)) q (emit (Envelope n d m) q)"
      using snoc.prems [of d m q] q(2-4) by (simp add: x)
    then show ?case
      using q by (intro exI [of _ "emit (Envelope n d m) q"]) (auto simp: x)
  qed auto
  then show ?thesis
    using assms(1-3) unfolding reaches_def by (metis fun_upd_triv)
qed

section \<open>Transitions\<close>

lemma abs_reset_election_deadline [simp]:
  "abs_node (reset_election_deadline now nd) = abs_node nd"
  "node_ok ids n (reset_election_deadline now nd) = node_ok ids n nd"
  by (simp_all add: reset_election_deadline_def abs_node_def node_ok_def current_term_def Let_def)

lemma reset_election_deadline_sel [simp]:
  "storage (reset_election_deadline now nd) = storage nd" "state (reset_election_deadline now nd) = state nd"
  "node_id (reset_election_deadline now nd) = node_id nd" "peer_ids (reset_election_deadline now nd) = peer_ids nd"
  "votes_received (reset_election_deadline now nd) = votes_received nd"
  "prevotes_received (reset_election_deadline now nd) = prevotes_received nd"
  "prevote_target_term (reset_election_deadline now nd) = prevote_target_term nd"
  "commit_index (reset_election_deadline now nd) = commit_index nd"
  "last_applied (reset_election_deadline now nd) = last_applied nd"
  "state_machine (reset_election_deadline now nd) = state_machine nd"
  "match_index (reset_election_deadline now nd) = match_index nd"
  "next_index (reset_election_deadline now nd) = next_index nd"
  "leader_id (reset_election_deadline now nd) = leader_id nd"
  "last_leader_contact (reset_election_deadline now nd) = last_leader_contact nd"
  by (simp_all add: reset_election_deadline_def Let_def)

lemma become_follower_reaches:
  assumes "pn p n = abs_node nd" "node_ok ids n nd" "current_term nd < t"
  shows "reaches ids n p (become_follower t now nd) []"
proof (rule reaches_step)
  let ?f = "\<lambda>x. x\<lparr>p_term := t, p_vote := None, p_role := FOLLOWER, p_votes := {}\<rparr>"
  show "pstep (majorities (set ids)) p (upd n ?f p)"
    using assms by (intro pstep.bump_term) simp
  show "pn (upd n ?f p) = (pn p)(n := abs_node (become_follower t now nd))"
    using assms by (auto simp: become_follower_def abs_node_def current_term_def)
  show "node_ok ids n (become_follower t now nd)"
    using assms(2) by (auto simp: become_follower_def node_ok_def)
qed simp

lemma append_entries_message:
  assumes "pn p n = abs_node nd" "node_ok ids n nd" "state nd = LEADER" "peer \<in> set ids - {n}"
    and "x \<in> set (send_append_entries_to peer nd)"
  shows "fst x = peer" "pn q = pn p \<Longrightarrow> pstep (majorities (set ids)) q (emit (Envelope n (fst x) (snd x)) q)"
proof -
  define j where "j = dict_get_default (next_index nd) peer (last_index (storage nd) + 1)"
  have j: "1 \<le> j" "j \<le> last_index (storage nd) + 1"
    using node_okD(10) [OF assms(2,3), of peer]
    by (auto simp: j_def dict_get_default_def last_index_def split: option.splits)
  define i where "i = nat (j - 1)"
  have i: "j = int i + 1" "i \<le> length (st_log (storage nd))"
    using j by (auto simp: i_def last_index_def)
  let ?m = "MAppendEntriesArgs (AppendEntriesArgs (current_term nd) n (int i)
    (log_term_at (st_log (storage nd)) i) (drop i (st_log (storage nd))) (commit_index nd))"
  have x: "x = (peer, ?m)"
    using assms(5) node_okD(1) [OF assms(2)]
    by (simp add: nat_add_distrib send_append_entries_to_def j_def [symmetric] i(1) entries_from_log Let_def)
  show "fst x = peer" by (simp add: x)
  show "pstep (majorities (set ids)) q (emit (Envelope n (fst x) (snd x)) q)" if "pn q = pn p"
    using pstep.send_append [of q n peer i "majorities (set ids)"] that assms(1,3,4) i(2) node_okD(8) [OF assms(2)]
    by (simp add: x)
qed

lemma send_append_entries_to_recipient: "x \<in> set (send_append_entries_to peer nd) \<Longrightarrow> fst x = peer"
  by (simp add: send_append_entries_to_def Let_def)

lemma broadcast_append_entries_reaches:
  assumes "pn p n = abs_node nd" "node_ok ids n nd" "state nd = LEADER"
    and "broadcast_append_entries now nd = (nd', out)"
  shows "reaches ids n p nd' out"
proof -
  let ?nd = "nd\<lparr>next_heartbeat_deadline := Some (now + heartbeat_interval nd)\<rparr>"
  have nd': "nd' = ?nd" and out: "out = concat (map (\<lambda>peer. send_append_entries_to peer ?nd) (peer_ids nd))"
    using assms(4) by (auto simp: broadcast_append_entries_def Let_def)
  have same: "abs_node ?nd = abs_node nd" "node_ok ids n ?nd" "state ?nd = LEADER"
    using assms(2,3) by (simp_all add: abs_node_def node_ok_def current_term_def)
  have peers: "set (peer_ids nd) = set ids - {n}" by (rule node_okD(4) [OF assms(2)])
  have pn: "pn p n = abs_node ?nd" using assms(1) same(1) by simp
  show ?thesis
    unfolding nd'
  proof (rule reaches_send [OF pn same(2)])
    show "fst ` set out \<subseteq> set ids - {n}"
      using peers send_append_entries_to_recipient by (fastforce simp: out)
    fix q :: "'a pstate" and d m
    assume "(d, m) \<in> set out" "pn q = pn p"
    then obtain peer where "peer \<in> set ids - {n}" "(d, m) \<in> set (send_append_entries_to peer ?nd)"
      using peers by (auto simp: out)
    then show "pstep (majorities (set ids)) q (emit (Envelope n d m) q)"
      using append_entries_message(2) [OF pn same(2,3), of peer "(d, m)" q] \<open>pn q = pn p\<close> by simp
  qed
qed

lemma majority_of_node:
  assumes "node_ok ids n nd"
  shows "majority_of nd = int (majority_size (card (set ids)))"
proof -
  have "card (set ids) = Suc (length (peer_ids nd))"
    using node_okD(2-4) [OF assms] distinct_card [of "peer_ids nd"] card_Suc_Diff1 [of "set ids" n] by simp
  then show ?thesis by (simp add: majority_of_def majority_size_def zdiv_int)
qed

section \<open>Elections\<close>

lemma last_term_up_to_date: "log_up_to_date nd lli llt = up_to_date lli llt (st_log (storage nd))"
  by (simp add: log_up_to_date_def up_to_date_def last_term_log last_index_def)

lemma become_leader_reaches:
  assumes inv: "pinv (majorities (set ids)) p" and pn: "pn p n = abs_node nd" and ok: "node_ok ids n nd"
    and cand: "state nd = CANDIDATE" and maj: "int (card (votes_received nd)) \<ge> majority_of nd"
    and out: "become_leader now nd = (nd', out)"
  shows "reaches ids n p nd' out"
proof -
  let ?nd = "nd\<lparr>state := LEADER, leader_id := Some (node_id nd),
    next_index := map (\<lambda>peer. (peer, last_index (storage nd) + 1)) (peer_ids nd),
    match_index := map (\<lambda>peer. (peer, 0)) (peer_ids nd)\<rparr>"
  let ?f = "\<lambda>x. x\<lparr>p_role := LEADER, p_match := (\<lambda>_. 0)\<rparr>"
  have win: "votes_received nd \<in> majorities (set ids)"
    using maj majority_of_node [OF ok] node_okD(7) [OF ok] by (simp add: majorities_def)
  have ok1: "node_ok ids n ?nd"
    using ok by (auto simp: node_ok_def dict_get_map_pair last_index_def comp_def split: if_splits)
  have abs1: "abs_node ?nd = ?f (abs_node nd)"
    by (auto simp: abs_node_def current_term_def dict_get_default_def dict_get_map_pair)
  have "reaches ids n p ?nd []"
  proof (rule reaches_step [OF pstep.lead])
    show "role p n = CANDIDATE" "p_votes (pn p n) \<in> majorities (set ids)"
      using pn cand win by simp_all
    show "pn (set_acc n (length (plog p n)) (set_llog n (upd n ?f p))) = (pn p)(n := abs_node ?nd)"
      unfolding abs1 using pn by auto
  qed (simp_all add: ok1)
  then have "reaches ids n p nd' ([] @ out)"
  proof (rule reaches_trans [OF inv])
    fix q :: "'a pstate" assume "pn q n = abs_node ?nd"
    then show "reaches ids n q nd' out"
      using out ok1 by (intro broadcast_append_entries_reaches [of q n ?nd]) (simp_all add: become_leader_def Let_def)
  qed
  then show ?thesis by simp
qed

lemma maybe_become_leader_reaches:
  assumes "pinv (majorities (set ids)) p" "pn p n = abs_node nd" "node_ok ids n nd"
    and "maybe_become_leader_from_votes now nd = (nd', out)"
  shows "reaches ids n p nd' out"
  using assms become_leader_reaches [OF assms(1-3)] reaches_refl [OF assms(3,2)]
  by (auto simp: maybe_become_leader_from_votes_def split: if_splits)

lemma broadcast_request_vote_reaches:
  assumes "pn p n = abs_node nd" "node_ok ids n nd" "state nd = CANDIDATE"
  shows "reaches ids n p nd (broadcast_request_vote nd)"
proof (rule reaches_send [OF assms(1,2)])
  show "fst ` set (broadcast_request_vote nd) \<subseteq> set ids - {n}"
    by (simp add: broadcast_request_vote_def image_image node_okD(4) [OF assms(2)])
  fix q :: "'a pstate" and d m
  assume "(d, m) \<in> set (broadcast_request_vote nd)" "pn q = pn p"
  then show "pstep (majorities (set ids)) q (emit (Envelope n d m) q)"
    using pstep.send_request_vote [of q n "majorities (set ids)" d] assms(1,3) node_okD(1) [OF assms(2)]
    by (auto simp: broadcast_request_vote_def last_term_log last_index_def)
qed

lemma become_candidate_reaches:
  assumes inv: "pinv (majorities (set ids)) p" and pn: "pn p n = abs_node nd" and ok: "node_ok ids n nd"
    and out: "become_candidate now nd = (nd', out)"
  shows "reaches ids n p nd' out"
proof -
  let ?nd = "reset_election_deadline now
    (nd\<lparr>storage := set_voted_for (Some (node_id nd)) (set_current_term (get_current_term (storage nd) + 1) (storage nd)),
        state := CANDIDATE, leader_id := None, votes_received := {node_id nd}\<rparr>)"
  let ?f = "\<lambda>x. x\<lparr>p_term := p_term x + 1, p_vote := Some n, p_role := CANDIDATE, p_votes := {n}\<rparr>"
  have ok1: "node_ok ids n ?nd"
    using ok by (auto simp: node_ok_def)
  have abs1: "abs_node ?nd = ?f (abs_node nd)"
    using node_okD(1) [OF ok] by (auto simp: abs_node_def current_term_def)
  obtain out2 where out2: "maybe_become_leader_from_votes now ?nd = (nd', out2)"
      "out = broadcast_request_vote ?nd @ out2"
    using out by (auto simp: become_candidate_def Let_def split: prod.splits)
  have "reaches ids n p ?nd []"
  proof (rule reaches_step [OF pstep.candidacy])
    show "pn (set_vote n n (upd n ?f p)) = (pn p)(n := abs_node ?nd)"
      unfolding abs1 using pn by auto
  qed (simp, rule ok1)
  then have "reaches ids n p ?nd ([] @ broadcast_request_vote ?nd)"
    by (rule reaches_trans [OF inv]) (simp add: broadcast_request_vote_reaches ok1)
  then have "reaches ids n p nd' (([] @ broadcast_request_vote ?nd) @ out2)"
    by (rule reaches_trans [OF inv]) (rule maybe_become_leader_reaches [OF _ _ ok1 out2(1)])
  then show ?thesis by (simp add: out2(2))
qed

lemma maybe_win_prevote_reaches:
  assumes "pinv (majorities (set ids)) p" "pn p n = abs_node nd" "node_ok ids n nd"
    and "maybe_win_prevote now nd = (nd', out)"
  shows "reaches ids n p nd' out"
  using assms become_candidate_reaches [OF assms(1-3)] reaches_refl [OF assms(3,2)]
  by (auto simp: maybe_win_prevote_def split: if_splits)

lemma harmless_reaches:
  assumes "pn p n = abs_node nd" "node_ok ids n nd" "fst ` set out \<subseteq> set ids - {n}"
    and "\<And>x. x \<in> set out \<Longrightarrow> harmless (snd x)"
  shows "reaches ids n p nd out"
  using assms by (intro reaches_send) (auto intro!: pstep.send_other)

lemma start_prevote_reaches:
  assumes inv: "pinv (majorities (set ids)) p" and pn: "pn p n = abs_node nd" and ok: "node_ok ids n nd"
    and out: "start_prevote now nd = (nd', out)"
  shows "reaches ids n p nd' out"
proof -
  let ?nd = "reset_election_deadline now (nd\<lparr>state := FOLLOWER, leader_id := None,
    prevote_target_term := current_term nd + 1, prevotes_received := {node_id nd}\<rparr>)"
  let ?args = "PreVoteArgs (prevote_target_term ?nd) (node_id ?nd) (last_index (storage ?nd)) (last_term (storage ?nd))"
  let ?f = "\<lambda>x. x\<lparr>p_role := FOLLOWER\<rparr>"
  let ?msgs = "map (\<lambda>peer. (peer, MPreVoteArgs ?args)) (peer_ids ?nd)"
  have ok1: "node_ok ids n ?nd"
    using ok by (auto simp: node_ok_def)
  have abs1: "abs_node ?nd = ?f (abs_node nd)"
    by (auto simp: abs_node_def current_term_def)
  obtain out2 where out2: "maybe_win_prevote now ?nd = (nd', out2)" "out = ?msgs @ out2"
    using out by (simp only: start_prevote_def Let_def split: prod.splits) auto
  have "reaches ids n p ?nd []"
  proof (rule reaches_step [OF pstep.step_down])
    show "pn (upd n ?f p) = (pn p)(n := abs_node ?nd)"
      unfolding abs1 using pn by auto
  qed (simp, rule ok1)
  then have "reaches ids n p ?nd ([] @ ?msgs)"
  proof (rule reaches_trans [OF inv])
    fix q :: "'a pstate" assume "pn q n = abs_node ?nd"
    then show "reaches ids n q ?nd ?msgs"
    proof (rule harmless_reaches [OF _ ok1])
      show "fst ` set ?msgs \<subseteq> set ids - {n}"
        by (simp add: image_image node_okD(4) [OF ok])
    qed (auto simp: harmless_def)
  qed
  then have "reaches ids n p nd' (([] @ ?msgs) @ out2)"
    by (rule reaches_trans [OF inv]) (rule maybe_win_prevote_reaches [OF _ _ ok1 out2(1)])
  then show ?thesis by (simp add: out2(2))
qed

lemma tick_reaches:
  assumes "pinv (majorities (set ids)) p" "pn p n = abs_node nd" "node_ok ids n nd"
    and "tick now nd = (nd', out)"
  shows "reaches ids n p nd' out"
  using assms(4) broadcast_append_entries_reaches [OF assms(2,3)] start_prevote_reaches [OF assms(1-3)]
    reaches_refl [OF assms(3,2)]
  by (auto simp: tick_def split: if_splits)

end
