(* ===== verification/Raft_Handlers.thy ===== *)
theory Raft_Handlers
  imports Raft_Simulation
begin

text \<open>
  The message handlers of raft/node.py and \<open>propose\<close> as runs of protocol actions. In a state
  that satisfies the protocol's invariant no handler raises, and what a handler applies to its
  state machine is the next part of the node's log.
\<close>

section \<open>What a step does to the state machine\<close>

definition applies :: "('c \<Rightarrow> 's \<Rightarrow> 's) \<Rightarrow> ('c, 's) raft_node \<Rightarrow> ('c, 's) raft_node \<Rightarrow> bool" where
  "applies apl nd nd' \<longleftrightarrow>
     (let a = nat (last_applied nd); b = nat (last_applied nd');
          xs = st_log (storage nd); ys = st_log (storage nd')
      in last_applied nd \<le> last_applied nd' \<and> take a ys = take a xs \<and>
         state_machine nd' = fold apl (map entry_command (drop a (take b ys))) (state_machine nd))"

lemma applies_same:
  assumes "last_applied nd' = last_applied nd" "state_machine nd' = state_machine nd"
    "take (nat (last_applied nd)) (st_log (storage nd')) = take (nat (last_applied nd)) (st_log (storage nd))"
  shows "applies apl nd nd'"
  using assms by (simp add: applies_def)

lemma become_follower_sel [simp]:
  "st_log (storage (become_follower t now nd)) = st_log (storage nd)"
  "current_term (become_follower t now nd) = t"
  "last_applied (become_follower t now nd) = last_applied nd"
  "state_machine (become_follower t now nd) = state_machine nd"
  "node_id (become_follower t now nd) = node_id nd"
  "commit_index (become_follower t now nd) = commit_index nd"
  "get_voted_for (storage (become_follower t now nd)) = None"
  "get_current_term (storage (become_follower t now nd)) = t"
  by (simp_all add: become_follower_def current_term_def)

text \<open>The first thing a handler does: join the term of the message when it is newer.\<close>

definition catch_up :: "int \<Rightarrow> rat \<Rightarrow> ('c, 's) raft_node \<Rightarrow> ('c, 's) raft_node" where
  "catch_up t now nd = (if t > current_term nd then become_follower t now nd else nd)"

lemma catch_up_sel [simp]:
  "st_log (storage (catch_up t now nd)) = st_log (storage nd)"
  "current_term (catch_up t now nd) = max t (current_term nd)"
  "last_applied (catch_up t now nd) = last_applied nd"
  "state_machine (catch_up t now nd) = state_machine nd"
  "node_id (catch_up t now nd) = node_id nd"
  "commit_index (catch_up t now nd) = commit_index nd"
  by (auto simp: catch_up_def)

lemma catch_up_reaches:
  assumes "pn p n = abs_node nd" "node_ok ids n nd"
  shows "reaches ids n p (catch_up t now nd) []"
  using become_follower_reaches [OF assms, of t now] reaches_refl [OF assms(2,1)]
  by (auto simp: catch_up_def)

lemma reaches_send1:
  assumes "pn p n = abs_node nd" "node_ok ids n nd" "d \<in> set ids - {n}"
    and "pstep (majorities (set ids)) p (emit (Envelope n d m) p)"
  shows "reaches ids n p nd [(d, m)]"
  using assms by (auto simp: reaches_def intro!: exI [of _ "emit (Envelope n d m) p"])

section \<open>Votes\<close>

lemma grant_vote_reaches:
  fixes now :: rat
  assumes inv: "pinv (majorities (set ids)) p" and pn: "pn p n = abs_node nd" and ok: "node_ok ids n nd"
    and env: "Envelope c n (MRequestVoteArgs (RequestVoteArgs (current_term nd) c lli llt)) \<in> net p"
    and c: "c \<in> set ids - {n}"
    and vote: "get_voted_for (storage nd) = None \<or> get_voted_for (storage nd) = Some c"
    and log: "log_up_to_date nd lli llt"
  defines "nd' \<equiv> reset_election_deadline now (nd\<lparr>storage := set_voted_for (Some c) (storage nd)\<rparr>)"
  shows "reaches ids n p nd' [(c, MRequestVoteReply (RequestVoteReply (current_term nd) True n))]"
proof -
  let ?f = "\<lambda>x. x\<lparr>p_vote := Some c\<rparr>"
  have ok1: "node_ok ids n nd'"
    using ok by (auto simp: nd'_def node_ok_def last_index_def)
  have abs1: "abs_node nd' = ?f (abs_node nd)"
    by (simp add: nd'_def abs_node_def current_term_def)
  have ct: "current_term nd' = current_term nd"
    by (simp add: nd'_def current_term_def)
  have "reaches ids n p nd' []"
  proof (cases "get_voted_for (storage nd)")
    case None
    show ?thesis
    proof (rule reaches_step [OF pstep.cast_vote])
      show "Envelope c n (MRequestVoteArgs (RequestVoteArgs (trm p n) c lli llt)) \<in> net p"
        using env pn by simp
      show "pn (set_vote n c (upd n ?f p)) = (pn p)(n := abs_node nd')"
        unfolding abs1 using pn by auto
    qed (use pn None log ok1 in \<open>simp_all add: last_term_up_to_date\<close>)
  next
    case (Some x)
    then have "abs_node nd' = abs_node nd"
      using vote unfolding abs1 by (simp add: abs_node_def)
    then show ?thesis using reaches_refl [OF ok1] pn by simp
  qed
  then have "reaches ids n p nd' ([] @ [(c, MRequestVoteReply (RequestVoteReply (current_term nd) True n))])"
  proof (rule reaches_trans [OF inv])
    fix q :: "'a pstate" assume q: "pn q n = abs_node nd'"
    then have "p_vote (pn q n) = Some c" "trm q n = current_term nd"
      by (simp_all add: abs1)
    then show "reaches ids n q nd' [(c, MRequestVoteReply (RequestVoteReply (current_term nd) True n))]"
      using pstep.send_vote [of q n c "majorities (set ids)"] by (intro reaches_send1 [OF q ok1 c]) simp
  qed
  then show ?thesis by simp
qed

lemma handle_request_vote_reaches:
  assumes inv: "pinv (majorities (set ids)) p" and pn: "pn p n = abs_node nd" and ok: "node_ok ids n nd"
    and env: "Envelope s n (MRequestVoteArgs args) \<in> net p" and s: "s \<in> set ids - {n}"
    and run: "handle_request_vote args now nd = (nd', reply)"
  shows "reaches ids n p nd' [(s, MRequestVoteReply reply)] \<and> applies apl nd nd'"
proof
  obtain t c lli llt where args: "args = RequestVoteArgs t c lli llt" by (cases args)
  have "msg_ok (majorities (set ids)) p (Envelope s n (MRequestVoteArgs args))"
    by (rule inv_netD [OF pinvD(4) [OF inv] env])
  then have c: "c = s" by (simp add: args)
  let ?nd = "catch_up t now nd"
  let ?nd2 = "reset_election_deadline now (?nd\<lparr>storage := set_voted_for (Some s) (storage ?nd)\<rparr>)"
  let ?grant = "\<not> t < current_term ?nd \<and>
    (get_voted_for (storage ?nd) = None \<or> get_voted_for (storage ?nd) = Some s) \<and> log_up_to_date ?nd lli llt"
  have res: "(nd', reply) = (if ?grant then (?nd2, RequestVoteReply (current_term ?nd) True n)
      else (?nd, RequestVoteReply (current_term ?nd) False n))"
    using run node_okD(1) [OF ok]
    by (auto simp: handle_request_vote_def args c catch_up_def current_term_def Let_def split: if_splits)
  show "applies apl nd nd'"
    using res by (intro applies_same) (simp_all split: if_splits)
  have "reaches ids n p nd' ([] @ [(s, MRequestVoteReply reply)])"
  proof (rule reaches_trans [OF inv catch_up_reaches [OF pn ok, of t now]])
    fix q :: "'a pstate"
    assume q: "pinv (majorities (set ids)) q" "pn q n = abs_node ?nd" "net p \<subseteq> net q" "node_ok ids n ?nd"
    show "reaches ids n q nd' [(s, MRequestVoteReply reply)]"
    proof (cases ?grant)
      case True
      then have t: "t = current_term ?nd" by auto
      have "Envelope s n (MRequestVoteArgs (RequestVoteArgs (current_term ?nd) s lli llt)) \<in> net q"
        using env q(3) t unfolding args c by auto
      moreover have "(nd', reply) = (?nd2, RequestVoteReply (current_term ?nd) True n)"
        by (rule trans [OF res if_P [OF True]])
      ultimately show ?thesis
        using grant_vote_reaches [OF q(1,2,4) _ s] True by simp
    next
      case False
      have "(nd', reply) = (?nd, RequestVoteReply (current_term ?nd) False n)"
        by (rule trans [OF res if_not_P [OF False]])
      then show ?thesis
        using s q(2,4) by (intro harmless_reaches) (auto simp: harmless_def)
    qed
  qed
  then show "reaches ids n p nd' [(s, MRequestVoteReply reply)]" by simp
qed

lemma catch_up_newer: "t > get_current_term (storage nd) \<Longrightarrow> become_follower t now nd = catch_up t now nd"
  by (simp add: catch_up_def current_term_def)

lemma election_sel:
  "last_applied (fst (become_leader now nd)) = last_applied nd"
  "state_machine (fst (become_leader now nd)) = state_machine nd"
  "st_log (storage (fst (become_leader now nd))) = st_log (storage nd)"
  "last_applied (fst (become_candidate now nd)) = last_applied nd"
  "state_machine (fst (become_candidate now nd)) = state_machine nd"
  "st_log (storage (fst (become_candidate now nd))) = st_log (storage nd)"
  by (simp_all add: become_leader_def become_candidate_def maybe_become_leader_from_votes_def
      broadcast_append_entries_def Let_def case_prod_beta)

lemma tick_applies: "tick now nd = (nd', out) \<Longrightarrow> applies apl nd nd'"
  by (rule applies_same)
    (auto simp: tick_def start_prevote_def maybe_win_prevote_def broadcast_append_entries_def Let_def election_sel
      case_prod_beta split: if_splits)

lemma handle_request_vote_reply_reaches:
  assumes inv: "pinv (majorities (set ids)) p" and pn: "pn p n = abs_node nd" and ok: "node_ok ids n nd"
    and env: "Envelope s n (MRequestVoteReply reply) \<in> net p" and s: "s \<in> set ids"
    and run: "handle_request_vote_reply reply now nd = (nd', out)"
  shows "reaches ids n p nd' out \<and> applies apl nd nd'"
proof
  show "applies apl nd nd'"
    using run
    by (intro applies_same) (auto simp: handle_request_vote_reply_def maybe_become_leader_from_votes_def
        become_leader_def broadcast_append_entries_def Let_def split: if_splits)
  obtain t g v where reply: "reply = RequestVoteReply t g v" by (cases reply)
  consider "t > current_term nd" | "t \<le> current_term nd" "\<not> (state nd = CANDIDATE \<and> t = current_term nd \<and> g)"
    | "state nd = CANDIDATE" "t = current_term nd" "g" by fastforce
  then show "reaches ids n p nd' out"
  proof cases
    case 1
    then show ?thesis
      using run become_follower_reaches [OF pn ok 1]
      by (simp add: handle_request_vote_reply_def reply current_term_def) blast
  next
    case 2
    then have "nd' = nd" "out = []"
      using run by (auto simp: handle_request_vote_reply_def reply current_term_def split: if_splits)
    then show ?thesis using reaches_refl [OF ok pn] by simp
  next
    case 3
    let ?nd = "nd\<lparr>votes_received := insert v (votes_received nd)\<rparr>"
    let ?f = "\<lambda>x. x\<lparr>p_votes := insert v (p_votes x)\<rparr>"
    have "msg_ok (majorities (set ids)) p (Envelope s n (MRequestVoteReply reply))"
      by (rule inv_netD [OF pinvD(4) [OF inv] env])
    then have v: "v = s" using 3 by (simp add: reply)
    have ok1: "node_ok ids n ?nd"
      using ok s by (auto simp: node_ok_def v)
    have abs1: "abs_node ?nd = ?f (abs_node nd)"
      by (simp add: abs_node_def current_term_def)
    have "reaches ids n p ?nd []"
    proof (rule reaches_step [OF pstep.count_vote])
      show "Envelope s n (MRequestVoteReply (RequestVoteReply (trm p n) True v)) \<in> net p"
        using env pn 3 by (simp add: reply)
      show "pn (upd n ?f p) = (pn p)(n := abs_node ?nd)"
        unfolding abs1 using pn by auto
    qed (use pn 3 ok1 in simp_all)
    moreover have "maybe_become_leader_from_votes now ?nd = (nd', out)"
      using run 3 by (simp add: handle_request_vote_reply_def reply current_term_def)
    ultimately have "reaches ids n p nd' ([] @ out)"
      using ok1 by (intro reaches_trans [OF inv]) (auto intro: maybe_become_leader_reaches)
    then show ?thesis by simp
  qed
qed

lemma handle_prevote_reply_reaches:
  assumes inv: "pinv (majorities (set ids)) p" and pn: "pn p n = abs_node nd" and ok: "node_ok ids n nd"
    and run: "handle_prevote_reply reply now nd = (nd', out)"
  shows "reaches ids n p nd' out \<and> applies apl nd nd'"
proof
  show "applies apl nd nd'"
    using arg_cong [OF run, of fst, symmetric]
    by (intro applies_same) (simp_all add: handle_prevote_reply_def maybe_win_prevote_def election_sel)
  obtain t g v where reply: "reply = PreVoteReply t g v" by (cases reply)
  let ?nd = "nd\<lparr>prevotes_received := insert v (prevotes_received nd)\<rparr>"
  have same: "pn p n = abs_node ?nd" "node_ok ids n ?nd"
    using pn ok by (auto simp: abs_node_def node_ok_def current_term_def)
  show "reaches ids n p nd' out"
    using run become_follower_reaches [OF pn ok, of t now] reaches_refl [OF ok pn]
      maybe_win_prevote_reaches [OF inv same]
    by (auto simp: handle_prevote_reply_def reply current_term_def split: if_splits)
qed

lemma handle_prevote_reaches:
  assumes "pn p n = abs_node nd" "node_ok ids n nd" "s \<in> set ids - {n}"
  shows "reaches ids n p nd [(s, MPreVoteReply r)]"
  using assms by (intro harmless_reaches) (auto simp: harmless_def)

section \<open>Replication\<close>

lemma node_log_terms:
  assumes "pinv Qs p" "e \<in> set (plog p n)"
  shows "1 \<le> entry_term e"
proof -
  obtain i where "i < length (plog p n)" "e = plog p n ! i"
    using assms(2) by (auto simp: in_set_conv_nth)
  then have "g_leader p (entry_term e) \<noteq> None"
    using wf_logD(1) [OF inv_logD(1) [OF pinvD(3) [OF assms(1)]]] by simp
  then show ?thesis
    using inv_voteD(5) [OF pinvD(1) [OF assms(1)]] by auto
qed

text \<open>A first phase of a handler, followed by one that may raise.\<close>

lemma reaches_then:
  assumes inv: "pinv (majorities (set ids)) p" and r: "reaches ids n p nd []"
    and next_: "\<And>q. pinv (majorities (set ids)) q \<Longrightarrow> pn q n = abs_node nd \<Longrightarrow> net p \<subseteq> net q \<Longrightarrow>
      node_ok ids n nd \<Longrightarrow> \<exists>nd' r. run = Inr (nd', r) \<and> reaches ids n q nd' (out r) \<and> P nd'"
  shows "\<exists>nd' r. run = Inr (nd', r) \<and> reaches ids n p nd' (out r) \<and> P nd'"
proof -
  obtain q where "(pstep (majorities (set ids)))\<^sup>*\<^sup>* p q" "pn q n = abs_node nd" "net p \<subseteq> net q" "node_ok ids n nd"
    using r by (auto simp: reaches_def)
  then obtain nd' r' where run: "run = Inr (nd', r')" "P nd'"
    using next_ raft_maj.pinv_run [OF _ inv] by blast
  have "reaches ids n p nd' ([] @ out r')"
    by (rule reaches_trans [OF inv r]) (use next_ run(1) in fastforce)
  then show ?thesis using run by auto
qed

text \<open>The tail of the handler, once the entry before the received ones is known to match.\<close>

definition accept_entries ::
  "('c \<Rightarrow> 's \<Rightarrow> 's) \<Rightarrow> 'c append_entries_args \<Rightarrow> int \<Rightarrow> ('c, 's) raft_node
   \<Rightarrow> (('c, 's) raft_node \<times> append_entries_reply) result" where
  "accept_entries apl args ct nd =
     rbind (append_loop (aea_prev_log_index args + 1) (aea_entries args) (storage nd)) (\<lambda>st.
       let nd = nd\<lparr>storage := st\<rparr> in
       rbind (if aea_leader_commit args > commit_index nd then
                apply_committed apl
                  (nd\<lparr>commit_index := min (aea_leader_commit args) (last_index (storage nd))\<rparr>)
              else Inr nd) (\<lambda>nd.
         Inr (nd, AppendEntriesReply ct True (node_id nd)
                    (aea_prev_log_index args + int (length (aea_entries args))) 0 (-1))))"

text \<open>The commit index that the leader's gives for a log \<open>xs\<close>, and the node that has taken over this log.\<close>

definition accepted_index :: "'c log_entry list \<Rightarrow> int \<Rightarrow> ('c, 's) raft_node \<Rightarrow> int" where
  "accepted_index xs lc nd = (if lc > commit_index nd then min lc (int (length xs)) else commit_index nd)"

definition accepted_node :: "('c \<Rightarrow> 's \<Rightarrow> 's) \<Rightarrow> 'c log_entry list \<Rightarrow> int \<Rightarrow> ('c, 's) raft_node \<Rightarrow> ('c, 's) raft_node" where
  "accepted_node apl xs lc nd =
     (let k = accepted_index xs lc nd
      in nd\<lparr>storage := (storage nd)\<lparr>st_log := xs\<rparr>, commit_index := k,
           last_applied := (if lc > commit_index nd then k else last_applied nd),
           state_machine := (if lc > commit_index nd
             then fold apl (map entry_command (drop (nat (last_applied nd)) (take (nat k) xs))) (state_machine nd)
             else state_machine nd)\<rparr>)"

lemma accept_entries_eq:
  assumes ok: "node_ok ids n nd" and loop: "append_loop (int prev + 1) es (storage nd) = Inr ((storage nd)\<lparr>st_log := xs\<rparr>)"
    and c: "nat (commit_index nd) \<le> length xs"
  shows "accept_entries apl (AppendEntriesArgs t l (int prev) pt es lc) (current_term nd) nd =
    Inr (accepted_node apl xs lc nd, AppendEntriesReply (current_term nd) True n (int prev + int (length es)) 0 (-1))"
proof (cases "lc > commit_index nd")
  case True
  have "apply_committed apl (nd\<lparr>storage := (storage nd)\<lparr>st_log := xs\<rparr>, commit_index := accepted_index xs lc nd\<rparr>) =
      Inr (accepted_node apl xs lc nd)"
    using node_okD(5,6,8) [OF ok] c True
    by (subst apply_committed_eq) (auto simp: accepted_node_def accepted_index_def last_index_def Let_def)
  then show ?thesis
    using True loop node_okD(1) [OF ok]
    by (simp add: accept_entries_def last_index_def Let_def accepted_index_def) (simp add: accepted_node_def Let_def)
next
  case False
  then show ?thesis
    using loop node_okD(1) [OF ok] by (simp add: accept_entries_def accepted_node_def accepted_index_def Let_def)
qed

lemma accepted_node_ok:
  assumes ok: "node_ok ids n nd" and fol: "state nd = FOLLOWER" and c: "nat (commit_index nd) \<le> length xs"
  shows "node_ok ids n (accepted_node apl xs lc nd)"
  using ok fol node_okD(5,6,8) [OF ok] c by (auto simp: node_ok_def accepted_node_def accepted_index_def Let_def)

lemma accept_step:
  assumes pn: "pn p n = abs_node nd" and ok: "node_ok ids n nd" and fol: "state nd = FOLLOWER"
    and env: "Envelope s n (MAppendEntriesArgs (AppendEntriesArgs (trm p n) l (int prev) pt es lc)) \<in> net p"
    and prev: "prev \<le> length (st_log (storage nd))" "log_term_at (st_log (storage nd)) prev = pt"
    and xs: "xs = reconcile prev es (st_log (storage nd))"
  defines "q \<equiv> set_acc n (prev + length es) (upd n (\<lambda>x. x\<lparr>p_log := xs, p_commit := nat (accepted_index xs lc nd)\<rparr>) p)"
  shows "pstep Qs p q" "pn q = (pn p)(n := abs_node (accepted_node apl xs lc nd))" "prev + length es \<le> g_acc q (trm q n) n"
proof -
  show "pstep Qs p q"
    unfolding q_def
  proof (rule pstep.accept_append [OF env])
    show "nat (accepted_index xs lc nd) = (if lc > int (commit p n) then nat (min lc (int (length xs))) else commit p n)"
      using node_okD(5,6,8) [OF ok] pn by (simp add: accepted_index_def)
  qed (use pn prev fol in \<open>simp_all add: xs\<close>)
  show "pn q = (pn p)(n := abs_node (accepted_node apl xs lc nd))"
    using pn by (auto simp: q_def abs_node_def accepted_node_def Let_def current_term_def get_current_term_def get_voted_for_def)
  show "prev + length es \<le> g_acc q (trm q n) n" using pn by (simp add: q_def)
qed

lemma accept_entries_reaches:
  assumes inv: "pinv (majorities (set ids)) p" and pn: "pn p n = abs_node nd" and ok: "node_ok ids n nd"
    and fol: "state nd = FOLLOWER"
    and env: "Envelope s n (MAppendEntriesArgs (AppendEntriesArgs (current_term nd) l (int prev) pt es lc)) \<in> net p"
    and s: "s \<in> set ids - {n}"
    and prev: "prev \<le> length (st_log (storage nd))" "log_term_at (st_log (storage nd)) prev = pt"
  shows "\<exists>nd' reply. accept_entries apl (AppendEntriesArgs (current_term nd) l (int prev) pt es lc) (current_term nd) nd = Inr (nd', reply) \<and>
    reaches ids n p nd' [(s, MAppendEntriesReply reply)] \<and> applies apl nd nd'"
proof -
  let ?L = "st_log (storage nd)" and ?c = "commit_index nd"
  define xs where "xs = reconcile prev es ?L"
  let ?nd = "accepted_node apl xs lc nd"
  let ?reply = "AppendEntriesReply (current_term nd) True n (int prev + int (length es)) 0 (-1)"
  let ?q = "set_acc n (prev + length es) (upd n (\<lambda>x. x\<lparr>p_log := xs, p_commit := nat (accepted_index xs lc nd)\<rparr>) p)"
  let ?e = "Envelope n s (MAppendEntriesReply ?reply)"
  have log: "plog p n = ?L" "commit p n = nat ?c" "trm p n = current_term nd" using pn by simp_all
  note env' = env [folded log(3)]
  note mok = inv_netD [OF pinvD(4) [OF inv] env']
  have "prefix (take (nat ?c) ?L) xs"
    using raft_maj.accept_keeps_committed [OF inv mok] prev unfolding log xs_def by blast
  moreover have "nat ?c \<le> length ?L"
    using inv_commitD(1) [OF pinvD(7) [OF inv], of n] unfolding log .
  ultimately have c_len: "nat ?c \<le> length xs" and keeps: "take (nat ?c) xs = take (nat ?c) ?L"
    using prefix_take_agree by blast+
  have loop: "append_loop (int prev + 1) es (storage nd) = Inr ((storage nd)\<lparr>st_log := xs\<rparr>)"
    unfolding xs_def using prev(1) node_log_terms [OF inv, of _ n] unfolding log
    by (intro append_loop_reconcile) force+
  note step = accept_step [OF pn ok fol env' prev xs_def]
  have "trm ?q n = current_term nd" using pn by simp
  then have "pstep (majorities (set ids)) ?q (emit ?e ?q)"
    using pstep.send_ack [OF step(3), of "majorities (set ids)" s 0 "- 1"] by simp
  then have "(pstep (majorities (set ids)))\<^sup>*\<^sup>* p (emit ?e ?q)"
    using step(1) by (meson converse_rtranclp_into_rtranclp r_into_rtranclp)
  then have "reaches ids n p ?nd [(s, MAppendEntriesReply ?reply)]"
    using accepted_node_ok [OF ok fol c_len, of apl lc] step(2) s unfolding reaches_def
    by (intro conjI exI [of _ "emit ?e ?q"]) auto
  moreover have "applies apl nd ?nd"
    using take_eq_take_mono [OF keeps, of "nat (last_applied nd)"] node_okD(5,6,8) [OF ok] c_len
    by (auto simp: applies_def accepted_node_def accepted_index_def Let_def)
  ultimately show ?thesis using accept_entries_eq [OF ok loop c_len] by blast
qed

text \<open>The rest of the handler, once the node follows the sender.\<close>

definition append_decision ::
  "('c \<Rightarrow> 's \<Rightarrow> 's) \<Rightarrow> 'c append_entries_args \<Rightarrow> int \<Rightarrow> ('c, 's) raft_node
   \<Rightarrow> (('c, 's) raft_node \<times> append_entries_reply) result" where
  "append_decision apl args ct nd =
     (let prev = aea_prev_log_index args; term_at_prev = term_at (storage nd) prev
      in if prev > 0 \<and> term_at_prev = -1 then
           Inr (nd, AppendEntriesReply ct False (node_id nd) 0 (last_index (storage nd) + 1) (-1))
         else if prev > 0 \<and> term_at_prev \<noteq> aea_prev_log_term args then
           Inr (nd, AppendEntriesReply ct False (node_id nd) 0
                      (first_index_of_term nd term_at_prev prev) term_at_prev)
         else accept_entries apl args ct nd)"

definition follow :: "string \<Rightarrow> rat \<Rightarrow> ('c, 's) raft_node \<Rightarrow> ('c, 's) raft_node" where
  "follow l now nd = reset_election_deadline now
     (nd\<lparr>state := FOLLOWER, leader_id := Some l, last_leader_contact := Some now\<rparr>)"

lemma follow_sel [simp]:
  "storage (follow l now nd) = storage nd" "state (follow l now nd) = FOLLOWER"
  "node_id (follow l now nd) = node_id nd" "last_applied (follow l now nd) = last_applied nd"
  "state_machine (follow l now nd) = state_machine nd" "current_term (follow l now nd) = current_term nd"
  by (simp_all add: follow_def current_term_def)

lemma handle_append_entries_eq:
  "handle_append_entries apl args now nd =
    (let nd1 = catch_up (aea_term args) now nd; ct = current_term nd1
     in if aea_term args < ct then Inr (nd1, AppendEntriesReply ct False (node_id nd1) 0 0 (-1))
        else append_decision apl args ct (follow (aea_leader_id args) now nd1))"
proof -
  have "(if aea_term args > get_current_term (storage nd) then (become_follower (aea_term args) now nd, aea_term args)
         else (nd, get_current_term (storage nd))) =
      (catch_up (aea_term args) now nd, current_term (catch_up (aea_term args) now nd))"
    by (simp add: catch_up_def current_term_def)
  then show ?thesis
    unfolding handle_append_entries_def Let_def append_decision_def accept_entries_def follow_def by simp
qed

text \<open>The refusals of the handler, with positions that the leader can use.\<close>

lemma nack_reaches:
  assumes inv: "pinv (majorities (set ids)) p" and pn: "pn p n = abs_node nd" and ok: "node_ok ids n nd"
    and s: "s \<in> set ids - {n}" and ci: "ci \<le> int (length (g_llog p (trm p n)))" "ct \<noteq> -1 \<longrightarrow> 1 \<le> ci"
  shows "reaches ids n p nd [(s, MAppendEntriesReply (AppendEntriesReply (current_term nd) False n k ci ct))]"
  using pstep.send_nack [of ci p n ct "majorities (set ids)" s k] ci pn
  by (intro reaches_send1 [OF pn ok s]) simp

lemma follow_reaches:
  assumes pn: "pn p n = abs_node nd" and ok: "node_ok ids n nd"
  shows "reaches ids n p (follow l now nd) []"
proof (rule reaches_step [OF pstep.step_down])
  have "abs_node (follow l now nd) = (abs_node nd)\<lparr>p_role := FOLLOWER\<rparr>"
    by (simp add: abs_node_def current_term_def follow_def)
  then show "pn (upd n (\<lambda>x. x\<lparr>p_role := FOLLOWER\<rparr>) p) = (pn p)(n := abs_node (follow l now nd))"
    using pn by auto
  have "node_ok ids n (nd\<lparr>state := FOLLOWER, leader_id := Some l, last_leader_contact := Some now\<rparr>)"
    using ok by (auto simp: node_ok_def)
  then show "node_ok ids n (follow l now nd)" by (simp add: follow_def)
qed simp

lemma append_decision_reaches:
  assumes inv: "pinv (majorities (set ids)) p" and pn: "pn p n = abs_node nd" and ok: "node_ok ids n nd"
    and fol: "state nd = FOLLOWER" and s: "s \<in> set ids - {n}"
    and env: "Envelope s n (MAppendEntriesArgs args) \<in> net p" and t: "aea_term args = current_term nd"
  shows "\<exists>nd' reply. append_decision apl args (current_term nd) nd = Inr (nd', reply) \<and>
    reaches ids n p nd' [(s, MAppendEntriesReply reply)] \<and> applies apl nd nd'"
proof -
  let ?L = "st_log (storage nd)"
  obtain l prev pt es lc where args: "args = AppendEntriesArgs (current_term nd) l prev pt es lc"
    using t by (cases args) simp
  have "msg_ok (majorities (set ids)) p (Envelope s n (MAppendEntriesArgs args))"
    by (rule inv_netD [OF pinvD(4) [OF inv] env])
  then have prev: "0 \<le> prev" "nat prev \<le> length (g_llog p (trm p n))"
      "pt = log_term_at (g_llog p (trm p n)) (nat prev)" unfolding args using pn by auto
  consider (short) "prev > 0" "term_at (storage nd) prev = -1"
    | (differs) "prev > 0" "term_at (storage nd) prev \<noteq> -1" "term_at (storage nd) prev \<noteq> pt"
    | (matches) "\<not> (prev > 0 \<and> term_at (storage nd) prev = -1)" "\<not> (prev > 0 \<and> term_at (storage nd) prev \<noteq> pt)"
    by blast
  then show ?thesis
  proof cases
    case short
    have "\<not> prev \<le> int (length ?L)"
    proof
      assume le: "prev \<le> int (length ?L)"
      then have "1 \<le> entry_term (?L ! nat (prev - 1))"
        using node_log_terms [OF inv, of _ n] pn short(1) by simp
      then show False using short le by (simp add: term_at_def)
    qed
    then have "reaches ids n p nd [(s, MAppendEntriesReply
        (AppendEntriesReply (current_term nd) False n 0 (last_index (storage nd) + 1) (-1)))]"
      using prev by (intro nack_reaches [OF inv pn ok s]) (simp_all add: last_index_def)
    then show ?thesis
      using short node_okD(1) [OF ok] applies_same [of nd nd apl] by (simp add: append_decision_def args)
  next
    case differs
    let ?ci = "first_index_of_term nd (term_at (storage nd) prev) prev"
    have "1 \<le> ?ci" "?ci \<le> prev"
      using first_index_of_term_bounds [OF differs(1) refl, of "storage nd"]
      by (simp_all add: first_index_of_term_def)
    then have "reaches ids n p nd [(s, MAppendEntriesReply
        (AppendEntriesReply (current_term nd) False n 0 ?ci (term_at (storage nd) prev)))]"
      using prev by (intro nack_reaches [OF inv pn ok s]) simp_all
    then show ?thesis
      using differs node_okD(1) [OF ok] applies_same [of nd nd apl] by (simp add: append_decision_def args Let_def)
  next
    case matches
    have nat_prev: "prev = int (nat prev)" using prev(1) by simp
    have "nat prev \<le> length ?L" "log_term_at ?L (nat prev) = pt"
      using matches prev by (auto simp: term_at_log log_term_at_def split: if_splits)
    then have "\<exists>nd' reply. accept_entries apl args (current_term nd) nd = Inr (nd', reply) \<and>
        reaches ids n p nd' [(s, MAppendEntriesReply reply)] \<and> applies apl nd nd'"
      using env unfolding args by (subst (asm) nat_prev, subst nat_prev) (rule accept_entries_reaches [OF inv pn ok fol _ s])
    moreover have "append_decision apl args (current_term nd) nd = accept_entries apl args (current_term nd) nd"
      unfolding append_decision_def Let_def args append_entries_args.sel if_not_P [OF matches(1)] if_not_P [OF matches(2)] ..
    ultimately show ?thesis by simp
  qed
qed

lemma handle_append_entries_reaches:
  assumes inv: "pinv (majorities (set ids)) p" and pn: "pn p n = abs_node nd" and ok: "node_ok ids n nd"
    and env: "Envelope s n (MAppendEntriesArgs args) \<in> net p" and s: "s \<in> set ids - {n}"
  shows "\<exists>nd' reply. handle_append_entries apl args now nd = Inr (nd', reply) \<and>
    reaches ids n p nd' [(s, MAppendEntriesReply reply)] \<and> applies apl nd nd'"
proof -
  let ?t = "aea_term args"
  let ?nd1 = "catch_up ?t now nd"
  let ?nd2 = "follow (aea_leader_id args) now ?nd1"
  have r1: "reaches ids n p ?nd1 []"
    by (rule catch_up_reaches [OF pn ok])
  show ?thesis
  proof (cases "?t < current_term ?nd1")
    case True
    have "reaches ids n p ?nd1 ([] @ [(s, MAppendEntriesReply (AppendEntriesReply (current_term ?nd1) False n 0 0 (-1)))])"
      by (rule reaches_trans [OF inv r1]) (rule nack_reaches [OF _ _ _ s], simp_all)
    then show ?thesis
      using True node_okD(1) [OF ok] applies_same [of ?nd1 nd apl]
      by (auto simp: handle_append_entries_eq Let_def less_max_iff_disj)
  next
    case False
    have r2: "reaches ids n p ?nd2 ([] @ [])"
      by (rule reaches_trans [OF inv r1]) (rule follow_reaches)
    have eq: "handle_append_entries apl args now nd = append_decision apl args (current_term ?nd2) ?nd2"
      using False by (simp add: handle_append_entries_eq Let_def)
    have "\<exists>nd' reply. handle_append_entries apl args now nd = Inr (nd', reply) \<and>
        reaches ids n p nd' [(s, MAppendEntriesReply reply)] \<and> applies apl ?nd2 nd'"
      unfolding eq
      by (rule reaches_then [OF inv r2 [unfolded append_Nil], where out = "\<lambda>r. [(s, MAppendEntriesReply r)]"],
          rule append_decision_reaches [OF _ _ _ _ s]) (use env False in auto)
    then show ?thesis by (simp add: applies_def)
  qed
qed

section \<open>Acknowledgements and commitment\<close>

lemma acknowledging_nodes:
  assumes ok: "node_ok ids n nd" and lead: "state nd = LEADER"
    and k: "k < length (filter (\<lambda>x. c \<le> x) (x0 # dict_values (match_index nd)))"
  shows "k < card {m \<in> set ids. m = n \<or> c \<le> dict_get_default (match_index nd) m 0}"
proof -
  let ?d = "match_index nd"
  let ?P = "\<lambda>m. c \<le> dict_get_default ?d m 0"
  have keys: "dict_keys ?d = peer_ids nd" "distinct (peer_ids nd)" "set (peer_ids nd) = set ids - {n}" "n \<in> set ids"
    using node_okD(2-4,9) [OF ok] lead by auto
  have "dict_values ?d = map (\<lambda>m. dict_get_default ?d m 0) (peer_ids nd)"
    using dict_values_by_key [of ?d] keys by (simp add: dict_get_default_the)
  then have "k \<le> length (filter ?P (peer_ids nd))"
    using k by (simp add: filter_map comp_def split: if_splits)
  also have "\<dots> = card {m \<in> set ids - {n}. ?P m}"
    using keys by (simp add: distinct_length_filter Int_def conj_commute)
  also have "\<dots> < card (insert n {m \<in> set ids - {n}. ?P m})" by simp
  also have "insert n {m \<in> set ids - {n}. ?P m} = {m \<in> set ids. m = n \<or> ?P m}"
    using keys(4) by auto
  finally show ?thesis .
qed

lemma advance_commit_index_reaches:
  assumes inv: "pinv (majorities (set ids)) p" and pn: "pn p n = abs_node nd" and ok: "node_ok ids n nd"
    and lead: "state nd = LEADER"
  shows "\<exists>nd'. advance_commit_index apl nd = Inr nd' \<and> reaches ids n p nd' [] \<and> applies apl nd nd'"
proof -
  let ?vs = "last_index (storage nd) # dict_values (match_index nd)"
  define k where "k = nat (majority_of nd - 1)"
  define c where "c = rev (sort ?vs) ! k"
  have maj: "majority_of nd = int (Suc k)" "Suc k = majority_size (card (set ids))"
    using majority_of_node [OF ok] by (simp_all add: k_def majority_size_def)
  have "length (dict_values (match_index nd)) = length (peer_ids nd)"
    using node_okD(9) [OF ok lead] by (metis length_map)
  then have k: "k < length ?vs" using maj(1) by (simp add: majority_of_def)
  have eq: "advance_commit_index apl nd =
      (if c > commit_index nd \<and> term_at (storage nd) c = current_term nd
       then apply_committed apl (nd\<lparr>commit_index := c\<rparr>) else Inr nd)"
    using k by (simp add: advance_commit_index_def Let_def k_def [symmetric] c_def)
  show ?thesis
  proof (cases "c > commit_index nd \<and> term_at (storage nd) c = current_term nd")
    case True
    note bounds = node_okD(5,6,8) [OF ok]
    have "0 \<le> current_term nd" using inv_voteD(7) [OF pinvD(1) [OF inv], of n] pn by simp
    then have c: "0 < c" "c \<le> last_index (storage nd)"
      using True bounds by (auto simp: term_at_def last_index_def split: if_splits)
    define nd' where "nd' = nd\<lparr>commit_index := c, last_applied := c, state_machine :=
      fold apl (map entry_command (drop (nat (last_applied nd)) (take (nat c) (st_log (storage nd))))) (state_machine nd)\<rparr>"
    have run: "advance_commit_index apl nd = Inr nd'"
      using True c bounds by (subst eq) (simp add: apply_committed_eq nd'_def)
    let ?f = "\<lambda>x. x\<lparr>p_commit := nat c\<rparr>"
    let ?Q = "{m \<in> set ids. m = n \<or> c \<le> dict_get_default (match_index nd) m 0}"
    have "Suc k \<le> card ?Q"
      using acknowledging_nodes [OF ok lead count_at_least_nth [OF k]] unfolding c_def by simp
    then have Q: "?Q \<in> majorities (set ids)"
      by (auto simp: majorities_def maj(2) [symmetric])
    have abs1: "abs_node nd' = ?f (abs_node nd)"
      by (simp add: abs_node_def nd'_def current_term_def)
    have "reaches ids n p nd' []"
    proof (rule reaches_step [OF pstep.leader_commit [OF _ _ _ _ Q]])
      show "log_term_at (plog p n) (nat c) = trm p n"
        using pn True c by (simp add: term_at_log)
      show "pn (upd n ?f p) = (pn p)(n := abs_node nd')"
        unfolding abs1 using pn by auto
      show "node_ok ids n nd'"
        using ok True c by (auto simp: node_ok_def nd'_def)
    qed (use pn lead True c bounds in \<open>auto simp: last_index_def\<close>)
    then show ?thesis
      using run True bounds by (auto simp: applies_def nd'_def)
  next
    case False
    then show ?thesis
      using eq reaches_refl [OF ok pn] applies_same [of nd nd apl] by auto
  qed
qed

lemma acknowledge_reaches:
  assumes inv: "pinv (majorities (set ids)) p" and pn: "pn p n = abs_node nd" and ok: "node_ok ids n nd"
    and lead: "state nd = LEADER" and s: "s \<in> set ids - {n}"
    and env: "Envelope s n (MAppendEntriesReply (AppendEntriesReply (current_term nd) True r k ci ct)) \<in> net p"
  defines "d \<equiv> (if k > dict_get_default (match_index nd) s 0 then dict_set s k (match_index nd) else match_index nd)"
  defines "nd' \<equiv> nd\<lparr>match_index := d, next_index := dict_set s (the (dict_get d s) + 1) (next_index nd)\<rparr>"
  shows "reaches ids n p nd' []" "s \<in> set (dict_keys d)"
proof -
  have sk: "s \<in> set (dict_keys (match_index nd))"
    using node_okD(4,9) [OF ok] lead s by simp
  then show sd: "s \<in> set (dict_keys d)" by (simp add: d_def dom_update)
  let ?f = "\<lambda>x. x\<lparr>p_match := (p_match x)(s := max (p_match x s) (nat k))\<rparr>"
  have "dict_get_default d m 0 = (if m = s then max (dict_get_default (match_index nd) s 0) k
      else dict_get_default (match_index nd) m 0)" for m
    by (simp add: d_def dict_get_default_def max_def)
  then have abs1: "abs_node nd' = ?f (abs_node nd)"
    by (auto simp: abs_node_def nd'_def current_term_def max_def)
  have step: "pstep (majorities (set ids)) p (upd n ?f p)"
    using env pn lead by (intro pstep.count_ack [where r = r and ci = ci and ct = ct]) simp_all
  have pn': "pn (upd n ?f p) = (pn p)(n := abs_node nd')"
    unfolding abs1 using pn by auto
  have inv': "pinv (majorities (set ids)) (upd n ?f p)"
    by (rule raft_maj.pinv_step [OF step inv])
  have "nat (dict_get_default d s 0) \<le> length (st_log (storage nd))"
  proof -
    have r: "role (upd n ?f p) n = LEADER" using pn lead by simp
    have "p_match (pn (upd n ?f p) n) s \<le> g_acc p (trm p n) s"
      using inv_accD(5) [OF pinvD(2) [OF inv'] r, of s] by simp
    also have "\<dots> \<le> length (g_llog p (trm p n))" by (rule inv_accD(2) [OF pinvD(2) [OF inv]])
    also have "\<dots> = length (plog p n)"
      using inv_voteD(6) [OF pinvD(1) [OF inv], of n] pn lead by simp
    finally show ?thesis unfolding pn' using pn by (simp add: nd'_def)
  qed
  moreover have pos: "\<forall>v \<in> set (dict_values d). 0 \<le> v"
  proof -
    have "0 \<le> k" using inv_netD [OF pinvD(4) [OF inv] env] by simp
    moreover have "set (dict_values (dict_set s k (match_index nd))) \<subseteq> insert k (set (dict_values (match_index nd)))"
      by (rule dict_values_set)
    ultimately show ?thesis using node_okD(11) [OF ok lead] by (auto simp: d_def)
  qed
  moreover have "the (dict_get d s) \<in> set (dict_values d)"
    using sd dict_get_None_iff [of d s] by (force dest: map_of_SomeD)
  moreover have "dict_keys d = peer_ids nd"
    using sk node_okD(9) [OF ok lead] by (simp only: d_def dict_keys_set if_True split: if_split) simp
  ultimately have "node_ok ids n nd'"
    using ok lead by (auto simp: node_ok_def nd'_def last_index_def dict_get_default_the [OF sd])
  then show "reaches ids n p nd' []"
    by (intro reaches_step [OF step pn']) simp_all
qed

lemma retry_reaches:
  assumes inv: "pinv (majorities (set ids)) p" and pn: "pn p n = abs_node nd" and ok: "node_ok ids n nd"
    and lead: "state nd = LEADER" and s: "s \<in> set ids - {n}" and nxt: "1 \<le> nxt" "nxt \<le> last_index (storage nd) + 1"
  defines "nd' \<equiv> nd\<lparr>next_index := dict_set s nxt (next_index nd)\<rparr>"
  shows "reaches ids n p nd' (send_append_entries_to s nd')"
proof -
  have ok1: "node_ok ids n nd'" "state nd' = LEADER" and pn1: "pn p n = abs_node nd'"
    using ok lead nxt pn by (auto simp: node_ok_def nd'_def abs_node_def current_term_def)
  obtain m where m: "send_append_entries_to s nd' = [(s, m)]"
    by (simp add: send_append_entries_to_def Let_def)
  show ?thesis
    unfolding m using append_entries_message(2) [OF pn1 ok1 s, of "(s, m)" p]
    by (intro reaches_send1 [OF pn1 ok1(1) s]) (simp add: m)
qed

lemma ack_reaches:
  assumes inv: "pinv (majorities (set ids)) p" and pn: "pn p n = abs_node nd" and ok: "node_ok ids n nd" and lead: "state nd = LEADER"
    and env: "Envelope s n (MAppendEntriesReply reply) \<in> net p" and s: "s \<in> set ids - {n}"
    and reply: "reply = AppendEntriesReply (current_term nd) True r k ci ct"
  shows "\<exists>nd' out. handle_append_entries_reply apl s reply now nd = Inr (nd', out) \<and>
    reaches ids n p nd' out \<and> applies apl nd nd'"
proof -
  let ?d = "if k > dict_get_default (match_index nd) s 0 then dict_set s k (match_index nd) else match_index nd"
  let ?nd = "nd\<lparr>match_index := ?d, next_index := dict_set s (the (dict_get ?d s) + 1) (next_index nd)\<rparr>"
  note acked = acknowledge_reaches [OF inv pn ok lead s, of r k ci ct]
  have r1: "reaches ids n p ?nd []" and "s \<in> set (dict_keys ?d)"
    using acked env by (simp_all add: reply)
  then obtain m where m: "dict_get ?d s = Some m" using dict_get_None_iff [of ?d s] by blast
  have eq: "handle_append_entries_reply apl s reply now nd =
      rbind (advance_commit_index apl ?nd) (\<lambda>nd. Inr (nd, []))"
    using lead m by (auto simp: handle_append_entries_reply_def reply current_term_def Let_def)
  have "\<exists>nd' out. handle_append_entries_reply apl s reply now nd = Inr (nd', out) \<and>
      reaches ids n p nd' out \<and> applies apl ?nd nd'"
  proof (rule reaches_then [OF inv r1, where out = "\<lambda>r. r"])
    fix q :: "'a pstate"
    assume "pinv (majorities (set ids)) q" "pn q n = abs_node ?nd" "node_ok ids n ?nd"
    then show "\<exists>nd' out. handle_append_entries_reply apl s reply now nd = Inr (nd', out) \<and>
        reaches ids n q nd' out \<and> applies apl ?nd nd'"
      using advance_commit_index_reaches [of ids q n ?nd apl] lead unfolding eq by auto
  qed
  then show ?thesis by (simp add: applies_def)
qed

lemma rejection_reaches:
  assumes inv: "pinv (majorities (set ids)) p" and pn: "pn p n = abs_node nd" and ok: "node_ok ids n nd" and lead: "state nd = LEADER"
    and env: "Envelope s n (MAppendEntriesReply reply) \<in> net p" and s: "s \<in> set ids - {n}"
    and reply: "reply = AppendEntriesReply (current_term nd) False r k ci ct"
  shows "\<exists>nd' out. handle_append_entries_reply apl s reply now nd = Inr (nd', out) \<and>
    reaches ids n p nd' out \<and> applies apl nd nd'"
proof -
  note mok = inv_netD [OF pinvD(4) [OF inv] env, unfolded reply, simplified]
  let ?nxt = "if ct \<noteq> -1 then (if last_index_of_term nd ct > 0 then last_index_of_term nd ct + 1 else ci) else max 1 ci"
  let ?nd = "nd\<lparr>next_index := dict_set s ?nxt (next_index nd)\<rparr>"
  have "length (g_llog p (current_term nd)) = length (st_log (storage nd))"
    using inv_voteD(6) [OF pinvD(1) [OF inv], of n] pn lead by simp
  then have "1 \<le> ?nxt" "?nxt \<le> last_index (storage nd) + 1"
    using mok last_index_of_term_bounds [of "storage nd" ct "last_index (storage nd)"]
    by (auto simp: last_index_def last_index_of_term_def)
  then have "reaches ids n p ?nd (send_append_entries_to s ?nd)"
    by (rule retry_reaches [OF inv pn ok lead s])
  moreover have "handle_append_entries_reply apl s reply now nd = Inr (?nd, send_append_entries_to s ?nd)"
    using lead by (simp add: handle_append_entries_reply_def reply current_term_def Let_def)
  ultimately show ?thesis using applies_same [of ?nd nd apl] by simp
qed

lemma handle_append_entries_reply_reaches:
  assumes inv: "pinv (majorities (set ids)) p" and pn: "pn p n = abs_node nd" and ok: "node_ok ids n nd"
    and env: "Envelope s n (MAppendEntriesReply reply) \<in> net p" and s: "s \<in> set ids - {n}"
  shows "\<exists>nd' out. handle_append_entries_reply apl s reply now nd = Inr (nd', out) \<and>
    reaches ids n p nd' out \<and> applies apl nd nd'"
proof -
  obtain t succ r k ci ct where reply: "reply = AppendEntriesReply t succ r k ci ct" by (cases reply)
  consider "t > current_term nd" | "t \<le> current_term nd" "\<not> (state nd = LEADER \<and> t = current_term nd)"
    | (ack) "state nd = LEADER" "t = current_term nd" "succ" | (nack) "state nd = LEADER" "t = current_term nd" "\<not> succ"
    by fastforce
  then show ?thesis
  proof cases
    case 1
    then show ?thesis
      using become_follower_reaches [OF pn ok 1, of now] applies_same [of "become_follower t now nd" nd apl]
      by (auto simp: handle_append_entries_reply_def reply current_term_def)
  next
    case 2
    then show ?thesis
      using reaches_refl [OF ok pn] applies_same [of nd nd apl]
      by (auto simp: handle_append_entries_reply_def reply current_term_def)
  next
    case ack
    then show ?thesis by (intro ack_reaches [OF inv pn ok _ env s]) (simp_all add: reply)
  next
    case nack
    then show ?thesis by (intro rejection_reaches [OF inv pn ok _ env s]) (simp_all add: reply)
  qed
qed

section \<open>Proposals\<close>

lemma propose_reaches:
  assumes inv: "pinv (majorities (set ids)) p" and pn: "pn p n = abs_node nd" and ok: "node_ok ids n nd"
    and run: "propose command now nd = (nd', out, entry)"
  shows "reaches ids n p nd' out \<and> applies apl nd nd'"
proof (cases "state nd = LEADER")
  case False
  then show ?thesis
    using run reaches_refl [OF ok pn] applies_same [of nd nd apl] by (simp add: propose_def)
next
  case lead: True
  let ?e = "LogEntry (current_term nd) (last_index (storage nd) + 1) command"
  let ?nd = "nd\<lparr>storage := append_log [?e] (storage nd)\<rparr>"
  let ?f = "\<lambda>x. x\<lparr>p_log := p_log x @ [LogEntry (p_term x) (int (length (p_log x)) + 1) command]\<rparr>"
  have bc: "broadcast_append_entries now ?nd = (nd', out)"
    using run lead by (auto simp: propose_def Let_def split: prod.splits)
  have ok1: "node_ok ids n ?nd"
    using ok by (fastforce simp: node_ok_def last_index_def)
  have abs1: "abs_node ?nd = ?f (abs_node nd)"
    by (simp add: abs_node_def current_term_def last_index_def)
  have "reaches ids n p ?nd []"
  proof (rule reaches_step [OF pstep.client_append])
    show "pn (set_acc n (Suc (length (plog p n))) (set_llog n (upd n ?f p))) = (pn p)(n := abs_node ?nd)"
      unfolding abs1 using pn by auto
    show "node_ok ids n ?nd" by (rule ok1)
  qed (use pn lead in simp_all)
  then have "reaches ids n p nd' ([] @ out)"
    by (rule reaches_trans [OF inv]) (rule broadcast_append_entries_reaches [OF _ ok1 _ bc], simp_all add: lead)
  moreover have "nat (last_applied nd) \<le> length (st_log (storage nd))"
    using inv_commitD(1) [OF pinvD(7) [OF inv], of n] pn node_okD(6) [OF ok] by simp
  then have "applies apl nd nd'"
    using bc by (intro applies_same) (auto simp: broadcast_append_entries_def Let_def)
  ultimately show ?thesis by simp
qed

lemma receive_reaches:
  assumes inv: "pinv (majorities (set ids)) p" and pn: "pn p n = abs_node nd" and ok: "node_ok ids n nd"
    and env: "Envelope s n m \<in> net p" and s: "s \<in> set ids - {n}"
  shows "\<exists>nd' out. receive apl (Envelope s n m) now nd = Inr (nd', out) \<and>
    reaches ids n p nd' out \<and> applies apl nd nd'"
proof (cases m)
  case (MRequestVoteArgs args)
  then show ?thesis
    using handle_request_vote_reaches [OF inv pn ok _ s, of args now] env by (auto simp: receive_def split: prod.splits)
next
  case (MRequestVoteReply reply)
  then show ?thesis
    using handle_request_vote_reply_reaches [OF inv pn ok, of s reply now] env s
    by (cases "handle_request_vote_reply reply now nd") (auto simp: receive_def)
next
  case (MAppendEntriesArgs args)
  then show ?thesis
    using handle_append_entries_reaches [OF inv pn ok _ s, of args apl now] env by (auto simp: receive_def)
next
  case (MAppendEntriesReply reply)
  then show ?thesis
    using handle_append_entries_reply_reaches [OF inv pn ok _ s, of reply apl now] env by (auto simp: receive_def)
next
  case (MPreVoteArgs args)
  then show ?thesis
    using handle_prevote_reaches [OF pn ok s] applies_same [of nd nd apl] by (simp add: receive_def)
next
  case (MPreVoteReply reply)
  then show ?thesis
    using handle_prevote_reply_reaches [OF inv pn ok, of reply now]
    by (cases "handle_prevote_reply reply now nd") (auto simp: receive_def)
qed

end
