(* ===== verification/Raft_Network.thy ===== *)
theory Raft_Network
  imports Raft_Handlers
begin

text \<open>
  Many nodes together: all the nodes of a cluster and every envelope that was ever sent. A step
  is one method call of one node at an arbitrary clock reading, or a restart that keeps the
  node's storage and state machine. Delivering any envelope of the wire, any number of times and in
  any order, covers every transport. The network is shown to implement the protocol, and the
  state machines are shown to agree.
\<close>

section \<open>Networks of nodes\<close>

record ('c, 's) network =
  nodes :: "string \<Rightarrow> ('c, 's) raft_node"
  wire :: "'c envelope set"

definition post :: "string \<Rightarrow> 'c outbox \<Rightarrow> 'c envelope set" where
  "post n out = (\<lambda>(d, m). Envelope n d m) ` set out"

definition act :: "string \<Rightarrow> ('c, 's) raft_node \<Rightarrow> 'c outbox \<Rightarrow> ('c, 's) network \<Rightarrow> ('c, 's) network" where
  "act n nd out N = N\<lparr>nodes := (nodes N)(n := nd), wire := wire N \<union> post n out\<rparr>"

definition peers_of :: "string list \<Rightarrow> string \<Rightarrow> string list" where
  "peers_of ids n = filter (\<lambda>m. m \<noteq> n) ids"

inductive net_step :: "string list \<Rightarrow> ('c \<Rightarrow> 's \<Rightarrow> 's) \<Rightarrow> ('c, 's) network \<Rightarrow> ('c, 's) network \<Rightarrow> bool"
  for ids apl where
  net_start: "n \<in> set ids \<Longrightarrow> net_step ids apl N (act n (start_node now (nodes N n)) [] N)"
| net_tick: "n \<in> set ids \<Longrightarrow> tick now (nodes N n) = (nd, out) \<Longrightarrow> net_step ids apl N (act n nd out N)"
| net_receive: "Envelope s n m \<in> wire N \<Longrightarrow>
    receive apl (Envelope s n m) now (nodes N n) = Inr (nd, out) \<Longrightarrow> net_step ids apl N (act n nd out N)"
| net_propose: "n \<in> set ids \<Longrightarrow> propose command now (nodes N n) = (nd, out, entry) \<Longrightarrow>
    net_step ids apl N (act n nd out N)"
| net_restart: "n \<in> set ids \<Longrightarrow>
    nd = RaftNode n (peers_of ids n) (storage (nodes N n)) (state_machine (nodes N n)) tmin tmax hb rnd \<Longrightarrow>
    net_step ids apl N (act n nd [] N)"

definition net_init :: "string list \<Rightarrow> 's \<Rightarrow> ('c, 's) network \<Rightarrow> bool" where
  "net_init ids sm0 N \<longleftrightarrow> wire N = {} \<and>
     (\<forall>n \<in> set ids. \<exists>tmin tmax hb rnd.
        nodes N n = RaftNode n (peers_of ids n) InMemoryStorage sm0 tmin tmax hb rnd)"

section \<open>The simulation\<close>

definition simulates :: "string list \<Rightarrow> ('c, 's) network \<Rightarrow> 'c pstate \<Rightarrow> bool" where
  "simulates ids N p \<longleftrightarrow> pinv (majorities (set ids)) p \<and> wire N \<subseteq> net p \<and>
     (\<forall>n \<in> set ids. pn p n = abs_node (nodes N n) \<and> node_ok ids n (nodes N n)) \<and>
     (\<forall>s d m. Envelope s d m \<in> wire N \<longrightarrow> d \<in> set ids \<and> s \<in> set ids - {d})"

lemma simulatesD:
  assumes "simulates ids N p"
  shows "pinv (majorities (set ids)) p" and "wire N \<subseteq> net p"
    and "n \<in> set ids \<Longrightarrow> pn p n = abs_node (nodes N n)" and "n \<in> set ids \<Longrightarrow> node_ok ids n (nodes N n)"
    and "Envelope s d m \<in> wire N \<Longrightarrow> d \<in> set ids \<and> s \<in> set ids - {d}"
  using assms unfolding simulates_def by blast+

text \<open>One method call of one node.\<close>

lemma act_simulates:
  assumes sim: "simulates ids N p" and n: "n \<in> set ids" and r: "reaches ids n p nd out"
  shows "\<exists>p'. (pstep (majorities (set ids)))\<^sup>*\<^sup>* p p' \<and> simulates ids (act n nd out N) p'"
proof -
  obtain p' where p': "(pstep (majorities (set ids)))\<^sup>*\<^sup>* p p'" "pn p' = (pn p)(n := abs_node nd)"
      "net p \<subseteq> net p'" "\<forall>(d, m) \<in> set out. Envelope n d m \<in> net p'" "node_ok ids n nd"
      "fst ` set out \<subseteq> set ids - {n}"
    using r by (auto simp: reaches_def)
  have "simulates ids (act n nd out N) p'"
    unfolding simulates_def
  proof (intro conjI ballI allI impI)
    show "pinv (majorities (set ids)) p'" by (rule raft_maj.pinv_run [OF p'(1) simulatesD(1) [OF sim]])
    show "wire (act n nd out N) \<subseteq> net p'"
      using simulatesD(2) [OF sim] p'(3,4) by (auto simp: act_def post_def)
    fix m assume "m \<in> set ids"
    then show "pn p' m = abs_node (nodes (act n nd out N) m)" "node_ok ids m (nodes (act n nd out N) m)"
      using simulatesD(3,4) [OF sim] p'(2,5) by (simp_all add: act_def)
  next
    fix s d m assume "Envelope s d m \<in> wire (act n nd out N)"
    then show "d \<in> set ids" "s \<in> set ids - {d}"
      using simulatesD(5) [OF sim] p'(6) n by (fastforce simp: act_def post_def)+
  qed
  then show ?thesis using p'(1) by blast
qed

lemma peers_of_props:
  assumes "distinct ids"
  shows "distinct (peers_of ids n)" "set (peers_of ids n) = set ids - {n}"
  using assms by (auto simp: peers_of_def)

lemma restart_reaches:
  assumes "distinct ids" "n \<in> set ids" "pn p n = abs_node nd"
  shows "reaches ids n p (RaftNode n (peers_of ids n) (storage nd) sm tmin tmax hb rnd) []" (is "reaches ids n p ?nd []")
proof (rule reaches_step [OF pstep.restart])
  let ?f = "\<lambda>x. x\<lparr>p_role := FOLLOWER, p_votes := {}, p_match := (\<lambda>_. 0), p_commit := 0\<rparr>"
  have "abs_node ?nd = ?f (abs_node nd)"
    by (simp add: RaftNode_def abs_node_def current_term_def dict_get_default_def)
  then show "pn (upd n ?f p) = (pn p)(n := abs_node ?nd)"
    using assms(3) by auto
  show "node_ok ids n ?nd"
    using assms(2) peers_of_props [OF assms(1)] by (simp add: node_ok_def RaftNode_def)
qed simp

lemma net_step_simulates:
  assumes "net_step ids apl N N'" "simulates ids N p" "distinct ids"
  shows "\<exists>p'. (pstep (majorities (set ids)))\<^sup>*\<^sup>* p p' \<and> simulates ids N' p'"
proof -
  note sim = simulatesD [OF assms(2)]
  note act = act_simulates [OF assms(2)]
  show ?thesis
    using assms(1)
  proof cases
    case (net_start n now)
    have "reaches ids n p (start_node now (nodes N n)) []"
      using sim(3,4) [OF net_start(2)] by (intro reaches_refl) (simp_all add: start_node_def)
    then show ?thesis using act net_start by blast
  next
    case (net_tick n now nd out)
    then show ?thesis using act tick_reaches [OF sim(1) sim(3,4)] by blast
  next
    case (net_receive s n m now nd out)
    have n: "n \<in> set ids" "s \<in> set ids - {n}" using sim(5) net_receive(2) by auto
    have "Envelope s n m \<in> net p" using sim(2) net_receive(2) by auto
    then have "reaches ids n p nd out"
      using receive_reaches [OF sim(1) sim(3) [OF n(1)] sim(4) [OF n(1)] _ n(2), of m apl now] net_receive(3) by auto
    then show ?thesis using act n(1) net_receive(1) by blast
  next
    case (net_propose n command now nd out entry)
    then show ?thesis using act propose_reaches [OF sim(1) sim(3,4)] by blast
  next
    case (net_restart n nd tmin tmax hb rnd)
    have "reaches ids n p nd []"
      unfolding net_restart(3) by (rule restart_reaches [OF assms(3) net_restart(2) sim(3) [OF net_restart(2)]])
    then show ?thesis using act net_restart(1,2) by blast
  qed
qed

lemma net_run_simulates:
  assumes "(net_step ids apl)\<^sup>*\<^sup>* N N'" "simulates ids N p" "distinct ids"
  shows "\<exists>p'. (pstep (majorities (set ids)))\<^sup>*\<^sup>* p p' \<and> simulates ids N' p'"
  using assms
proof (induction rule: rtranclp_induct)
  case (step N1 N2)
  then obtain q where "(pstep (majorities (set ids)))\<^sup>*\<^sup>* p q" "simulates ids N1 q" by blast
  then show ?case using net_step_simulates [OF step(2)] step.prems(2) by (meson rtranclp_trans)
qed auto

lemma net_init_simulates:
  assumes "net_init ids sm0 N" "distinct ids"
  shows "simulates ids N pinit"
  unfolding simulates_def
proof (intro conjI ballI allI impI)
  show "pinv (majorities (set ids)) pinit" by (rule raft_maj.pinv_init)
  fix n assume n: "n \<in> set ids"
  then obtain tmin tmax hb rnd where nd: "nodes N n = RaftNode n (peers_of ids n) InMemoryStorage sm0 tmin tmax hb rnd"
    using assms(1) by (auto simp: net_init_def)
  show "pn pinit n = abs_node (nodes N n)" "node_ok ids n (nodes N n)"
    unfolding nd using n peers_of_props [OF assms(2)]
    by (simp_all add: pinit_def abs_node_def RaftNode_def current_term_def InMemoryStorage_def get_current_term_def
        get_voted_for_def dict_get_default_def node_ok_def)
qed (use assms(1) in \<open>auto simp: net_init_def\<close>)

section \<open>State machines\<close>

text \<open>
  The contract of \<open>StateMachine.apply\<close> in raft/state_machine.py: a command that has been
  applied before changes nothing when it is applied again.
\<close>

locale idempotent_machine =
  fixes apl :: "'c \<Rightarrow> 's \<Rightarrow> 's" and sm0 :: 's
  assumes replay: "c \<in> set cs \<Longrightarrow> apl c (fold apl cs sm0) = fold apl cs sm0"
begin

lemma replay_all: "set ds \<subseteq> set cs \<Longrightarrow> fold apl ds (fold apl cs sm0) = fold apl cs sm0"
  by (induction ds) (simp_all add: replay)

text \<open>Replaying a part of the history from any point on, and going on after it.\<close>

lemma replay_from:
  assumes "a \<le> length xs" "b \<le> length ys" and cmp: "prefix xs (take b ys) \<or> prefix (take b ys) xs"
  shows "fold apl (drop a (take b ys)) (fold apl xs sm0) =
    fold apl (if length xs \<le> b then take b ys else xs) sm0"
proof (cases "prefix xs (take b ys)")
  case True
  then have "length xs \<le> b" using prefix_length_le by fastforce
  obtain zs where zs: "take b ys = xs @ zs" using True by (auto simp: prefix_def)
  have "set (drop a xs) \<subseteq> set xs" by (rule set_drop_subset)
  then show ?thesis using \<open>length xs \<le> b\<close> assms(1) zs by (simp add: replay_all)
next
  case False
  then have pre: "prefix (take b ys) xs" using cmp by blast
  then have "set (drop a (take b ys)) \<subseteq> set xs"
    by (meson order_trans set_drop_subset set_mono_prefix)
  moreover have "\<not> length xs \<le> b"
    using pre False assms(2) by (auto simp: prefix_iff_take)
  ultimately show ?thesis by (simp add: replay_all)
qed

end

text \<open>
  The state machine of every node is the result of applying, once each and in order, some list
  of entries that are committed in the cluster, and the node has not got beyond them.
\<close>

definition machines_ok ::
  "string list \<Rightarrow> ('c \<Rightarrow> 's \<Rightarrow> 's) \<Rightarrow> 's \<Rightarrow> ('c, 's) network \<Rightarrow> 'c pstate \<Rightarrow> bool" where
  "machines_ok ids apl sm0 N p \<longleftrightarrow> (\<forall>n \<in> set ids. \<exists>cs T. committed (majorities (set ids)) p T cs \<and>
     state_machine (nodes N n) = fold apl (map entry_command cs) sm0 \<and> nat (last_applied (nodes N n)) \<le> length cs)"

lemma committed_run:
  assumes "(pstep (majorities (set ids)))\<^sup>*\<^sup>* p p'" "pinv (majorities (set ids)) p" "committed (majorities (set ids)) p T xs"
  shows "committed (majorities (set ids)) p' T xs"
  using assms
proof (induction rule: rtranclp_induct)
  case (step q q')
  then show ?case
    using committed_grows [OF raft_maj.pstep_grows [OF step(2) raft_maj.pinv_run [OF step(1)]]] by blast
qed

lemma committed_prefix: "committed Qs p T ys \<Longrightarrow> prefix xs ys \<Longrightarrow> committed Qs p T xs"
  unfolding committed_def by (elim disjE) (auto intro: prefix_order.order_trans)

lemma simulates_committed:
  assumes "simulates ids N p" "n \<in> set ids" "k \<le> commit_index (nodes N n)"
  shows "committed (majorities (set ids)) p (current_term (nodes N n)) (take (nat k) (st_log (storage (nodes N n))))"
    and "nat k \<le> length (st_log (storage (nodes N n)))"
  using inv_commitD [OF pinvD(7) [OF simulatesD(1) [OF assms(1)]], of n] simulatesD(3) [OF assms(1,2)] assms(3)
    prefix_take_mono [of "nat k" "nat (commit_index (nodes N n))" "st_log (storage (nodes N n))"]
  by (auto intro: committed_prefix)

lemma net_step_applies:
  assumes "net_step ids apl N N'" "simulates ids N p"
  obtains n where "n \<in> set ids" "\<And>m. m \<noteq> n \<Longrightarrow> nodes N' m = nodes N m"
    "applies apl (nodes N n) (nodes N' n) \<or>
     last_applied (nodes N' n) = 0 \<and> state_machine (nodes N' n) = state_machine (nodes N n)"
proof -
  note sim = simulatesD [OF assms(2)] and goal = that
  have res: thesis if "n \<in> set ids" "N' = act n nd out N" "applies apl (nodes N n) nd \<or>
      last_applied nd = 0 \<and> state_machine nd = state_machine (nodes N n)" for n nd out
    using that by (intro goal [of n]) (auto simp: act_def)
  show ?thesis
    using assms(1)
  proof cases
    case (net_start n now)
    then show ?thesis using res applies_same [of "start_node now (nodes N n)" "nodes N n" apl] by (auto simp: start_node_def)
  next
    case (net_tick n now nd out)
    then show ?thesis using res tick_applies by blast
  next
    case (net_receive s n m now nd out)
    have n: "n \<in> set ids" "s \<in> set ids - {n}" using sim(5) net_receive(2) by auto
    have "Envelope s n m \<in> net p" using sim(2) net_receive(2) by auto
    then have "applies apl (nodes N n) nd"
      using receive_reaches [OF sim(1) sim(3) [OF n(1)] sim(4) [OF n(1)] _ n(2), of m apl now] net_receive(3) by auto
    then show ?thesis using res n(1) net_receive(1) by blast
  next
    case (net_propose n command now nd out entry)
    then show ?thesis using res propose_reaches [OF sim(1) sim(3,4)] by blast
  next
    case (net_restart n nd tmin tmax hb rnd)
    then show ?thesis using res by (auto simp: RaftNode_def)
  qed
qed

context idempotent_machine
begin

lemma machine_applies:
  assumes sim': "simulates ids N' p'" and n: "n \<in> set ids"
    and cs: "committed (majorities (set ids)) p' T cs" "nat (last_applied nd) \<le> length cs"
    and sm: "state_machine nd = fold apl (map entry_command cs) sm0"
    and ap: "applies apl nd (nodes N' n)"
  shows "\<exists>cs' T'. committed (majorities (set ids)) p' T' cs' \<and>
     state_machine (nodes N' n) = fold apl (map entry_command cs') sm0 \<and> nat (last_applied (nodes N' n)) \<le> length cs'"
proof -
  let ?nd' = "nodes N' n"
  let ?ys = "st_log (storage ?nd')" and ?a = "nat (last_applied nd)" and ?b = "nat (last_applied ?nd')"
  note com = simulates_committed [OF sim' n node_okD(6) [OF simulatesD(4) [OF sim' n]]]
  let ?cs = "if length cs \<le> ?b then take ?b ?ys else cs"
  have "prefix cs (take ?b ?ys) \<or> prefix (take ?b ?ys) cs"
    by (rule raft_maj.committed_comparable [OF simulatesD(1) [OF sim'] cs(1) com(1)])
  then have "prefix (map entry_command cs) (take ?b (map entry_command ?ys)) \<or>
      prefix (take ?b (map entry_command ?ys)) (map entry_command cs)"
    using map_mono_prefix by (metis take_map)
  then have "fold apl (drop ?a (take ?b (map entry_command ?ys))) (fold apl (map entry_command cs) sm0) =
      fold apl (map entry_command ?cs) sm0"
    using replay_from [of ?a "map entry_command cs" ?b "map entry_command ?ys"] cs(2) com(2) by (simp add: take_map)
  then have "state_machine ?nd' = fold apl (map entry_command ?cs) sm0"
    using ap sm by (simp add: applies_def Let_def drop_map take_map)
  moreover have "committed (majorities (set ids)) p' (if length cs \<le> ?b then current_term ?nd' else T) ?cs"
    using com(1) cs(1) by simp
  moreover have "?b \<le> length ?cs" using com(2) by simp
  ultimately show ?thesis by blast
qed

lemma machines_ok_step:
  assumes step: "net_step ids apl N N'" and sim: "simulates ids N p" and ok: "machines_ok ids apl sm0 N p"
    and run: "(pstep (majorities (set ids)))\<^sup>*\<^sup>* p p'" and sim': "simulates ids N' p'"
  shows "machines_ok ids apl sm0 N' p'"
  unfolding machines_ok_def
proof
  fix m assume m: "m \<in> set ids"
  obtain cs T where "committed (majorities (set ids)) p T cs"
    and sm: "state_machine (nodes N m) = fold apl (map entry_command cs) sm0" "nat (last_applied (nodes N m)) \<le> length cs"
    using ok m by (auto simp: machines_ok_def)
  then have com: "committed (majorities (set ids)) p' T cs"
    using committed_run [OF run simulatesD(1) [OF sim]] by blast
  obtain n where n: "n \<in> set ids" "m \<noteq> n \<Longrightarrow> nodes N' m = nodes N m"
    "applies apl (nodes N n) (nodes N' n) \<or>
     last_applied (nodes N' n) = 0 \<and> state_machine (nodes N' n) = state_machine (nodes N n)"
    using net_step_applies [OF step sim] by metis
  show "\<exists>cs T. committed (majorities (set ids)) p' T cs \<and>
     state_machine (nodes N' m) = fold apl (map entry_command cs) sm0 \<and> nat (last_applied (nodes N' m)) \<le> length cs"
  proof (cases "m = n \<and> applies apl (nodes N n) (nodes N' n)")
    case True
    then show ?thesis using machine_applies [OF sim' m com sm(2,1)] by simp
  next
    case False
    then have "state_machine (nodes N' m) = state_machine (nodes N m)" "last_applied (nodes N' m) \<in> {0, last_applied (nodes N m)}"
      using n(2,3) by (cases "m = n"; auto)+
    then show ?thesis using com sm by (intro exI [of _ cs] exI [of _ T]) auto
  qed
qed

lemma net_run_machines:
  assumes "(net_step ids apl)\<^sup>*\<^sup>* N N'" "net_init ids sm0 N" "distinct ids"
  shows "\<exists>p. simulates ids N' p \<and> machines_ok ids apl sm0 N' p"
  using assms
proof (induction rule: rtranclp_induct)
  case base
  then have "machines_ok ids apl sm0 N pinit"
    by (force simp: machines_ok_def committed_def net_init_def RaftNode_def)
  then show ?case using net_init_simulates [OF base] by blast
next
  case (step N1 N2)
  then obtain p where p: "simulates ids N1 p" "machines_ok ids apl sm0 N1 p" by blast
  then obtain p' where "(pstep (majorities (set ids)))\<^sup>*\<^sup>* p p'" "simulates ids N2 p'"
    using net_step_simulates [OF step(2)] step.prems(2) by blast
  then show ?case using machines_ok_step [OF step(2) p] by blast
qed

text \<open>State machine safety: of two nodes, one has applied an initial part of what the other has.\<close>

lemma machines_agree:
  assumes "(net_step ids apl)\<^sup>*\<^sup>* N N'" "net_init ids sm0 N" "distinct ids" "n \<in> set ids" "m \<in> set ids"
  shows "\<exists>cs ds. state_machine (nodes N' n) = fold apl cs sm0 \<and> state_machine (nodes N' m) = fold apl ds sm0 \<and>
    (prefix cs ds \<or> prefix ds cs)"
proof -
  obtain p where p: "simulates ids N' p" "machines_ok ids apl sm0 N' p"
    using net_run_machines [OF assms(1-3)] by blast
  obtain cs S where cs: "committed (majorities (set ids)) p S cs"
      "state_machine (nodes N' n) = fold apl (map entry_command cs) sm0"
    using p(2) assms(4) by (auto simp: machines_ok_def)
  obtain ds T where ds: "committed (majorities (set ids)) p T ds"
      "state_machine (nodes N' m) = fold apl (map entry_command ds) sm0"
    using p(2) assms(5) by (auto simp: machines_ok_def)
  have "prefix cs ds \<or> prefix ds cs"
    by (rule raft_maj.committed_comparable [OF simulatesD(1) [OF p(1)] cs(1) ds(1)])
  then have "prefix (map entry_command cs) (map entry_command ds) \<or> prefix (map entry_command ds) (map entry_command cs)"
    using map_mono_prefix by blast
  then show ?thesis using cs(2) ds(2) by blast
qed

end

section \<open>Safety of the network\<close>

lemma simulates_one_leader:
  assumes "simulates ids N p" "n \<in> set ids" "m \<in> set ids" "state (nodes N n) = LEADER" "state (nodes N m) = LEADER"
    "current_term (nodes N n) = current_term (nodes N m)"
  shows "n = m"
  using raft_maj.one_leader [OF simulatesD(1) [OF assms(1)], of n m] simulatesD(3) [OF assms(1)] assms(2-6) by simp

lemma simulates_logs_match:
  assumes "simulates ids N p" "n \<in> set ids" "m \<in> set ids"
    "i < length (st_log (storage (nodes N n)))" "i < length (st_log (storage (nodes N m)))"
    "entry_term (st_log (storage (nodes N n)) ! i) = entry_term (st_log (storage (nodes N m)) ! i)"
  shows "take (Suc i) (st_log (storage (nodes N n))) = take (Suc i) (st_log (storage (nodes N m)))"
  using raft_maj.logs_match [OF simulatesD(1) [OF assms(1)], of i n m] simulatesD(3) [OF assms(1)] assms(2-6) by simp

text \<open>What a node has committed stays: in the logs of all later leaders, and in what any node commits later.\<close>

lemma net_commits_agree:
  assumes "simulates ids N p" "(net_step ids apl)\<^sup>*\<^sup>* N N'" "distinct ids" "n \<in> set ids" "m \<in> set ids"
    "i < nat (commit_index (nodes N n))" "i < nat (commit_index (nodes N' m))"
  shows "st_log (storage (nodes N n)) ! i = st_log (storage (nodes N' m)) ! i"
proof -
  obtain p' where p': "(pstep (majorities (set ids)))\<^sup>*\<^sup>* p p'" "simulates ids N' p'"
    using net_run_simulates [OF assms(2,1,3)] by blast
  note c = simulates_committed [OF assms(1,4) order_refl] and c' = simulates_committed [OF p'(2) assms(5) order_refl]
  have "committed (majorities (set ids)) p' (current_term (nodes N n))
      (take (nat (commit_index (nodes N n))) (st_log (storage (nodes N n))))"
    by (rule committed_run [OF p'(1) simulatesD(1) [OF assms(1)] c(1)])
  then have "prefix (take (nat (commit_index (nodes N n))) (st_log (storage (nodes N n))))
       (take (nat (commit_index (nodes N' m))) (st_log (storage (nodes N' m)))) \<or>
      prefix (take (nat (commit_index (nodes N' m))) (st_log (storage (nodes N' m))))
       (take (nat (commit_index (nodes N n))) (st_log (storage (nodes N n))))"
    using raft_maj.committed_comparable [OF simulatesD(1) [OF p'(2)]] c'(1) by blast
  then show ?thesis
    using prefix_nth [where i = i] assms(6,7) c(2) c'(2) by fastforce
qed

lemma net_leader_complete:
  assumes "simulates ids N p" "(net_step ids apl)\<^sup>*\<^sup>* N N'" "distinct ids" "n \<in> set ids" "m \<in> set ids"
    "state (nodes N' m) = LEADER" "current_term (nodes N n) \<le> current_term (nodes N' m)"
  shows "prefix (take (nat (commit_index (nodes N n))) (st_log (storage (nodes N n)))) (st_log (storage (nodes N' m)))"
proof -
  obtain p' where p': "(pstep (majorities (set ids)))\<^sup>*\<^sup>* p p'" "simulates ids N' p'"
    using net_run_simulates [OF assms(2,1,3)] by blast
  have "committed (majorities (set ids)) p' (current_term (nodes N n))
      (take (nat (commit_index (nodes N n))) (st_log (storage (nodes N n))))"
    by (rule committed_run [OF p'(1) simulatesD(1) [OF assms(1)] simulates_committed(1) [OF assms(1,4) order_refl]])
  then have com: "committed (majorities (set ids)) p' (trm p' m)
      (take (nat (commit_index (nodes N n))) (st_log (storage (nodes N n))))"
    using committed_grows [OF grows_refl] assms(5,7) simulatesD(3) [OF p'(2)] by simp
  have ld: "g_leader p' (trm p' m) = Some m \<and> plog p' m = g_llog p' (trm p' m)"
    using inv_voteD(6) [OF pinvD(1) [OF simulatesD(1) [OF p'(2)]], of m] assms(5,6) simulatesD(3) [OF p'(2)] by simp
  then have "prefix (take (nat (commit_index (nodes N n))) (st_log (storage (nodes N n)))) (plog p' m)"
    using raft_maj.committed_in_leader [OF simulatesD(1) [OF p'(2)] com] by simp
  then show ?thesis using assms(5) simulatesD(3) [OF p'(2)] by simp
qed

lemma simulates_bounds:
  assumes "simulates ids N p" "n \<in> set ids"
  shows "0 \<le> last_applied (nodes N n)" "last_applied (nodes N n) \<le> commit_index (nodes N n)"
    "commit_index (nodes N n) \<le> int (length (st_log (storage (nodes N n))))"
    "i < length (st_log (storage (nodes N n))) \<Longrightarrow> entry_index (st_log (storage (nodes N n)) ! i) = int i + 1"
    "sorted (map entry_term (st_log (storage (nodes N n))))"
proof -
  note sD = simulatesD [OF assms(1)]
  have wf: "wf_log p (st_log (storage (nodes N n)))"
    using inv_logD(1) [OF pinvD(3) [OF sD(1)], of n] sD(3) [OF assms(2)] by simp
  show "0 \<le> last_applied (nodes N n)" "last_applied (nodes N n) \<le> commit_index (nodes N n)"
    using node_okD(5,6) [OF sD(4) [OF assms(2)]] by auto
  show "commit_index (nodes N n) \<le> int (length (st_log (storage (nodes N n))))"
    using simulates_committed(2) [OF assms order_refl] by linarith
  show "i < length (st_log (storage (nodes N n))) \<Longrightarrow> entry_index (st_log (storage (nodes N n)) ! i) = int i + 1"
    using wf_logD(4) [OF wf] by blast
  show "sorted (map entry_term (st_log (storage (nodes N n))))"
    using wf by (simp add: wf_log_def)
qed

end
