(* ===== verification/Raft_Transport.thy ===== *)
theory Raft_Transport
  imports Raft_Network
begin

text \<open>
  The in-memory network of raft/transport.py. The inboxes are a \<open>defaultdict\<close>: reading a
  missing inbox creates it, which \<open>register\<close> also does. \<open>deliver_to\<close> drains an inbox through
  a handler that may itself send; the loop need not end for an arbitrary handler, so it is a
  partial function.
\<close>

section \<open>The transport\<close>

record 'c transport =
  inboxes :: "(string, 'c envelope list) dict"
  partitioned :: "string set"

definition InMemoryTransport :: "'c transport" where
  "InMemoryTransport = \<lparr>inboxes = [], partitioned = {}\<rparr>"

definition register :: "string \<Rightarrow> 'c transport \<Rightarrow> 'c transport" where
  "register nid t = (case dict_get (inboxes t) nid of
       None \<Rightarrow> t\<lparr>inboxes := dict_set nid [] (inboxes t)\<rparr>
     | Some _ \<Rightarrow> t)"

definition inbox_of :: "'c transport \<Rightarrow> string \<Rightarrow> 'c envelope list" where
  "inbox_of t nid = dict_get_default (inboxes t) nid []"

definition send :: "string \<Rightarrow> string \<Rightarrow> 'c message \<Rightarrow> 'c transport \<Rightarrow> 'c transport" where
  "send sender_id recipient_id message t =
     (if sender_id \<in> partitioned t \<or> recipient_id \<in> partitioned t then t
      else t\<lparr>inboxes := dict_set recipient_id
               (inbox_of t recipient_id @ [Envelope sender_id recipient_id message]) (inboxes t)\<rparr>)"

definition partition_nodes :: "string list \<Rightarrow> 'c transport \<Rightarrow> 'c transport" where
  "partition_nodes nids t = t\<lparr>partitioned := partitioned t \<union> set nids\<rparr>"

definition heal :: "'c transport \<Rightarrow> 'c transport" where
  "heal t = t\<lparr>partitioned := {}\<rparr>"

definition rejoin :: "string list \<Rightarrow> 'c transport \<Rightarrow> 'c transport" where
  "rejoin nids t = t\<lparr>partitioned := partitioned t - set nids\<rparr>"

definition is_partitioned :: "string \<Rightarrow> 'c transport \<Rightarrow> bool" where
  "is_partitioned nid t \<longleftrightarrow> nid \<in> partitioned t"

definition inbox_size :: "string \<Rightarrow> 'c transport \<Rightarrow> nat \<times> 'c transport" where
  "inbox_size nid t = (length (inbox_of t nid), register nid t)"

text \<open>\<open>popleft\<close> on the inbox of a node.\<close>

definition pop_inbox :: "string \<Rightarrow> 'c transport \<Rightarrow> ('c envelope \<times> 'c transport) option" where
  "pop_inbox nid t = (case inbox_of t nid of
       [] \<Rightarrow> None
     | envelope # rest \<Rightarrow> Some (envelope, t\<lparr>inboxes := dict_set nid rest (inboxes t)\<rparr>))"

partial_function (option) deliver_loop ::
  "string \<Rightarrow> ('c envelope \<Rightarrow> 'c transport \<times> 'x \<Rightarrow> ('c transport \<times> 'x) result) \<Rightarrow> nat \<Rightarrow> 'c transport \<times> 'x
   \<Rightarrow> (nat \<times> 'c transport \<times> 'x) result option" where
  "deliver_loop nid handler delivered tx =
     (case pop_inbox nid (fst tx) of
        None \<Rightarrow> Some (Inr (delivered, tx))
      | Some (envelope, t) \<Rightarrow>
          (case handler envelope (t, snd tx) of
             Inl e \<Rightarrow> Some (Inl e)
           | Inr tx' \<Rightarrow> deliver_loop nid handler (delivered + 1) tx'))"

definition deliver_to ::
  "string \<Rightarrow> ('c envelope \<Rightarrow> 'c transport \<times> 'x \<Rightarrow> ('c transport \<times> 'x) result) \<Rightarrow> 'c transport \<times> 'x
   \<Rightarrow> (nat \<times> 'c transport \<times> 'x) result option" where
  "deliver_to nid handler tx = deliver_loop nid handler 0 (register nid (fst tx), snd tx)"

lemma inbox_of_simps [simp]:
  "inbox_of InMemoryTransport n = []"
  "inbox_of (register d t) n = inbox_of t n"
  "inbox_of (partition_nodes ns t) n = inbox_of t n"
  "inbox_of (heal t) n = inbox_of t n"
  "inbox_of (rejoin ns t) n = inbox_of t n"
  "inbox_of (t\<lparr>inboxes := dict_set d es (inboxes t)\<rparr>) n = (if n = d then es else inbox_of t n)"
  by (simp_all add: inbox_of_def InMemoryTransport_def register_def partition_nodes_def heal_def rejoin_def
      dict_get_default_def split: option.splits)

lemma inbox_of_send [simp]:
  "inbox_of (send s d m t) n =
     (if n = d \<and> s \<notin> partitioned t \<and> d \<notin> partitioned t then inbox_of t n @ [Envelope s d m] else inbox_of t n)"
  by (simp add: send_def)

lemma partitioned_simps [simp]:
  "partitioned (send s d m t) = partitioned t"
  "partitioned (register n t) = partitioned t"
  "partitioned (partition_nodes ns t) = partitioned t \<union> set ns"
  "partitioned (heal t) = {}"
  "partitioned (rejoin ns t) = partitioned t - set ns"
  by (simp_all add: send_def register_def partition_nodes_def heal_def rejoin_def split: option.splits)

section \<open>The interface of a transport\<close>

text \<open>
  What the driver of a node needs of a network: it hands over only envelopes that were sent,
  each to the node it is addressed to. It may lose, delay, reorder or repeat them.
\<close>

locale message_transport =
  fixes t_ok :: "'t \<Rightarrow> bool"
    and pending :: "'t \<Rightarrow> 'c envelope set"
    and t_register :: "string \<Rightarrow> 't \<Rightarrow> 't"
    and t_send :: "string \<Rightarrow> string \<Rightarrow> 'c message \<Rightarrow> 't \<Rightarrow> 't"
    and t_next :: "string \<Rightarrow> 't \<Rightarrow> ('c envelope \<times> 't) option"
  assumes register_law: "t_ok t \<Longrightarrow> t_ok (t_register n t) \<and> pending (t_register n t) \<subseteq> pending t"
    and send_law: "t_ok t \<Longrightarrow> t_ok (t_send s d m t) \<and> pending (t_send s d m t) \<subseteq> insert (Envelope s d m) (pending t)"
    and next_law: "t_ok t \<Longrightarrow> t_next n t = Some (e, t') \<Longrightarrow>
      t_ok t' \<and> e \<in> pending t \<and> env_recipient_id e = n \<and> pending t' \<subseteq> pending t"
begin

lemma send_all_pending:
  "t_ok t \<Longrightarrow> t_ok (fold (\<lambda>(d, m). t_send n d m) out t) \<and>
     pending (fold (\<lambda>(d, m). t_send n d m) out t) \<subseteq> pending t \<union> post n out"
proof (induction out arbitrary: t)
  case (Cons x out)
  obtain d m where x: "x = (d, m)" by force
  show ?case
    using Cons.IH [of "t_send n d m t"] send_law [OF Cons.prems, of n d m] by (auto simp: x post_def)
qed (simp add: post_def)

text \<open>A node that takes a message from the transport and handles it is a step of the network.\<close>

lemma receive_step:
  assumes ok: "t_ok t" and sub: "pending t \<subseteq> wire N" and next_: "t_next n t = Some (e, t')"
    and run: "receive apl e now (nodes N n) = Inr (nd, out)"
  shows "net_step ids apl N (act n nd out N)"
    and "t_ok (fold (\<lambda>(d, m). t_send n d m) out t')"
    and "pending (fold (\<lambda>(d, m). t_send n d m) out t') \<subseteq> wire (act n nd out N)"
proof -
  note nxt = next_law [OF ok next_]
  obtain s m where e: "e = Envelope s n m" "Envelope s n m \<in> wire N"
    using nxt sub by (cases e) auto
  show "net_step ids apl N (act n nd out N)"
    using net_receive [OF e(2), of apl now nd out ids] run by (simp add: e(1))
  show "t_ok (fold (\<lambda>(d, m). t_send n d m) out t')"
    "pending (fold (\<lambda>(d, m). t_send n d m) out t') \<subseteq> wire (act n nd out N)"
    using send_all_pending [of t' n out] nxt sub by (auto simp: act_def)
qed

end

definition in_flight :: "'c transport \<Rightarrow> 'c envelope set" where
  "in_flight t = {e. \<exists>n. e \<in> set (inbox_of t n)}"

definition addressed :: "'c transport \<Rightarrow> bool" where
  "addressed t \<longleftrightarrow> (\<forall>n. \<forall>e \<in> set (inbox_of t n). env_recipient_id e = n)"

interpretation mem_transport: message_transport addressed in_flight register send pop_inbox
proof unfold_locales
  fix t t' :: "'c transport" and n s d :: string and m :: "'c message" and e
  assume ok: "addressed t"
  show "addressed (register n t) \<and> in_flight (register n t) \<subseteq> in_flight t"
    using ok by (simp add: addressed_def in_flight_def)
  show "addressed (send s d m t) \<and> in_flight (send s d m t) \<subseteq> insert (Envelope s d m) (in_flight t)"
    using ok by (auto simp: addressed_def in_flight_def split: if_splits)
  assume "pop_inbox n t = Some (e, t')"
  then obtain rest where inbox: "inbox_of t n = e # rest" and t': "t' = t\<lparr>inboxes := dict_set n rest (inboxes t)\<rparr>"
    by (auto simp: pop_inbox_def split: list.splits)
  have sub: "set (inbox_of t' k) \<subseteq> set (inbox_of t k)" for k
    using inbox by (auto simp: t')
  have "e \<in> set (inbox_of t n)" using inbox by simp
  then show "addressed t' \<and> e \<in> in_flight t \<and> env_recipient_id e = n \<and> in_flight t' \<subseteq> in_flight t"
    using ok sub unfolding addressed_def in_flight_def by blast
qed

section \<open>Draining an inbox\<close>

text \<open>
  A handler that never sends to the node itself empties the inbox: it is called once on each of
  the envelopes that were there, and the loop ends.
\<close>

lemma deliver_loop_drains:
  assumes "I x" "\<And>e. e \<in> set (inbox_of t n) \<Longrightarrow> E e"
    and keeps: "\<And>e t x t' x'. I x \<Longrightarrow> E e \<Longrightarrow> h e (t, x) = Inr (t', x') \<Longrightarrow> I x' \<and> inbox_of t' n = inbox_of t n"
  shows "\<exists>r. deliver_loop n h k (t, x) = Some r \<and>
     (\<forall>k' t' x'. r = Inr (k', t', x') \<longrightarrow> k' = k + length (inbox_of t n) \<and> inbox_of t' n = [] \<and> I x')"
  using assms(1,2)
proof (induction "inbox_of t n" arbitrary: t x k)
  case Nil
  then show ?case by (simp add: deliver_loop.simps [of n h k] pop_inbox_def)
next
  case (Cons e rest)
  let ?t = "t\<lparr>inboxes := dict_set n rest (inboxes t)\<rparr>"
  have pop: "pop_inbox n t = Some (e, ?t)" using Cons(2) [symmetric] by (simp add: pop_inbox_def)
  have e: "E e" using Cons(4) [of e] Cons(2) [symmetric] by simp
  show ?case
  proof (cases "h e (?t, x)")
    case (Inl err)
    then show ?thesis
      using pop by (simp add: deliver_loop.simps [of n h k "(t, x)"])
  next
    case (Inr tx')
    obtain t' x' where tx': "tx' = (t', x')" by force
    have t': "rest = inbox_of t' n" "I x'" using keeps [OF Cons(3) e, of ?t t' x'] Inr by (simp_all add: tx')
    have "E e'" if "e' \<in> set (inbox_of t' n)" for e'
      using that Cons(4) [of e'] Cons(2) [symmetric] by (simp add: t'(1))
    then show ?thesis
      using Cons(1) [OF t', of "Suc k"] pop Cons(2) [symmetric] Inr t'(1)
      by (simp add: deliver_loop.simps [of n h k "(t, x)"] tx')
  qed
qed

end
