(* ===== verification/Raft_Cluster.thy ===== *)
theory Raft_Cluster
  imports Raft_Transport
begin

text \<open>
  A running cluster: the driver of one node (coordinator/raft_runtime.py) and the cluster that
  owns the nodes, their storages and state machines and the shared transport
  (coordinator/raft_cluster.py). The driver threads and the callers run concurrently; a node is
  only touched under its lock, so that an execution is a sequence of atomic actions: a tick, the
  delivery of one envelope, a proposal, a kill or a revival, in any order and at any clock reading.
  The storage and the state machine of a node outlive its runtime: they are read from the runtime
  that is replaced.
\<close>

section \<open>The driver of one node\<close>

record ('c, 's) runtime =
  rt_node :: "('c, 's) raft_node"
  rt_tick_interval :: rat
  rt_running :: bool

definition RaftNodeRuntime :: "('c, 's) raft_node \<Rightarrow> rat \<Rightarrow> ('c, 's) runtime" where
  "RaftNodeRuntime nd interval = \<lparr>rt_node = nd, rt_tick_interval = interval, rt_running = False\<rparr>"

definition runtime_start :: "rat \<Rightarrow> ('c, 's) runtime \<Rightarrow> ('c, 's) runtime" where
  "runtime_start now rt = rt\<lparr>rt_node := start_node now (rt_node rt), rt_running := True\<rparr>"

definition runtime_stop :: "('c, 's) runtime \<Rightarrow> ('c, 's) runtime" where
  "runtime_stop rt = rt\<lparr>rt_running := False\<rparr>"

definition runtime_node_id :: "('c, 's) runtime \<Rightarrow> string" where
  "runtime_node_id rt = node_id (rt_node rt)"

text \<open>
  The network that a runtime is given is any transport: its \<open>send\<close> and its \<open>deliver_to\<close> are arguments of the
  methods that use them.
\<close>

definition send_all :: "(string \<Rightarrow> string \<Rightarrow> 'c message \<Rightarrow> 't \<Rightarrow> 't) \<Rightarrow> string \<Rightarrow> 'c outbox \<Rightarrow> 't \<Rightarrow> 't" where
  "send_all tsend n out t = fold (\<lambda>(d, m). tsend n d m) out t"

definition runtime_propose ::
  "(string \<Rightarrow> string \<Rightarrow> 'c message \<Rightarrow> 't \<Rightarrow> 't) \<Rightarrow> 'c \<Rightarrow> rat \<Rightarrow> 't \<times> ('c, 's) runtime
   \<Rightarrow> ('t \<times> ('c, 's) runtime) \<times> 'c log_entry option" where
  "runtime_propose tsend command now trt =
     (let (t, rt) = trt; (nd, out, entry) = propose command now (rt_node rt)
      in ((send_all tsend (node_id nd) out t, rt\<lparr>rt_node := nd\<rparr>), entry))"

text \<open>The pass-throughs for a server that answers a request with the node's reply.\<close>

definition runtime_handle_request_vote ::
  "request_vote_args \<Rightarrow> rat \<Rightarrow> ('c, 's) runtime \<Rightarrow> ('c, 's) runtime \<times> request_vote_reply" where
  "runtime_handle_request_vote args now rt =
     (let (nd, reply) = handle_request_vote args now (rt_node rt) in (rt\<lparr>rt_node := nd\<rparr>, reply))"

definition runtime_handle_prevote :: "prevote_args \<Rightarrow> rat \<Rightarrow> ('c, 's) runtime \<Rightarrow> prevote_reply" where
  "runtime_handle_prevote args now rt = handle_prevote args now (rt_node rt)"

definition runtime_handle_append_entries ::
  "('c \<Rightarrow> 's \<Rightarrow> 's) \<Rightarrow> 'c append_entries_args \<Rightarrow> rat \<Rightarrow> ('c, 's) runtime \<Rightarrow> (('c, 's) runtime \<times> append_entries_reply) result" where
  "runtime_handle_append_entries apl args now rt =
     rbind (handle_append_entries apl args now (rt_node rt)) (\<lambda>(nd, reply). Inr (rt\<lparr>rt_node := nd\<rparr>, reply))"

definition runtime_receive ::
  "(string \<Rightarrow> string \<Rightarrow> 'c message \<Rightarrow> 't \<Rightarrow> 't) \<Rightarrow> ('c \<Rightarrow> 's \<Rightarrow> 's) \<Rightarrow> rat \<Rightarrow> 'c envelope \<Rightarrow> 't \<times> ('c, 's) runtime
   \<Rightarrow> ('t \<times> ('c, 's) runtime) result" where
  "runtime_receive tsend apl now envelope trt =
     (let (t, rt) = trt
      in rbind (receive apl envelope now (rt_node rt)) (\<lambda>(nd, out).
           Inr (send_all tsend (node_id nd) out t, rt\<lparr>rt_node := nd\<rparr>)))"

definition runtime_is_leader :: "('c, 's) runtime \<Rightarrow> bool" where
  "runtime_is_leader rt \<longleftrightarrow> is_leader (rt_node rt)"

definition runtime_current_term :: "('c, 's) runtime \<Rightarrow> int" where
  "runtime_current_term rt = current_term (rt_node rt)"

definition runtime_leader_id :: "('c, 's) runtime \<Rightarrow> string option" where
  "runtime_leader_id rt = leader_id (rt_node rt)"

definition runtime_commit_index :: "('c, 's) runtime \<Rightarrow> int" where
  "runtime_commit_index rt = commit_index (rt_node rt)"

lemmas runtime_getters [simp] = runtime_node_id_def runtime_is_leader_def runtime_current_term_def runtime_leader_id_def runtime_commit_index_def

definition runtime_tick ::
  "(string \<Rightarrow> string \<Rightarrow> 'c message \<Rightarrow> 't \<Rightarrow> 't) \<Rightarrow> rat \<Rightarrow> 't \<times> ('c, 's) runtime \<Rightarrow> 't \<times> ('c, 's) runtime" where
  "runtime_tick tsend now trt =
     (let (t, rt) = trt; (nd, out) = tick now (rt_node rt)
      in (send_all tsend (node_id nd) out t, rt\<lparr>rt_node := nd\<rparr>))"

text \<open>One turn of the driver's loop, when nothing else runs in between.\<close>

definition run_once ::
  "(string \<Rightarrow> string \<Rightarrow> 'c message \<Rightarrow> 't \<Rightarrow> 't)
   \<Rightarrow> (string \<Rightarrow> ('c envelope \<Rightarrow> 't \<times> ('c, 's) runtime \<Rightarrow> ('t \<times> ('c, 's) runtime) result) \<Rightarrow> 't \<times> ('c, 's) runtime
       \<Rightarrow> (nat \<times> 't \<times> ('c, 's) runtime) result option)
   \<Rightarrow> ('c \<Rightarrow> 's \<Rightarrow> 's) \<Rightarrow> rat \<Rightarrow> 't \<times> ('c, 's) runtime \<Rightarrow> (nat \<times> 't \<times> ('c, 's) runtime) result option" where
  "run_once tsend tdeliver apl now trt =
     (let (t, rt) = runtime_tick tsend now trt
      in tdeliver (node_id (rt_node rt)) (runtime_receive tsend apl now) (t, rt))"

section \<open>The cluster\<close>

record ('c, 's) raft_cluster =
  rc_transport :: "'c transport"
  rc_runtimes :: "(string, ('c, 's) runtime) dict"
  rc_election_timeout_min :: rat
  rc_election_timeout_max :: rat
  rc_heartbeat_interval :: rat
  rc_tick_interval :: rat
  rc_last_known_leader :: "string option"

definition build_runtime ::
  "string \<Rightarrow> string list \<Rightarrow> 'c storage \<Rightarrow> 's \<Rightarrow> (nat \<Rightarrow> rat \<Rightarrow> rat \<Rightarrow> rat)
   \<Rightarrow> ('c, 's) raft_cluster \<Rightarrow> ('c, 's) runtime" where
  "build_runtime nid ids st sm rnd c =
     RaftNodeRuntime
       (RaftNode nid (peers_of ids nid) st sm (rc_election_timeout_min c) (rc_election_timeout_max c)
          (rc_heartbeat_interval c) rnd)
       (rc_tick_interval c)"

definition RaftCluster ::
  "string list \<Rightarrow> 's \<Rightarrow> (string \<Rightarrow> nat \<Rightarrow> rat \<Rightarrow> rat \<Rightarrow> rat) \<Rightarrow> rat \<Rightarrow> rat \<Rightarrow> rat \<Rightarrow> rat \<Rightarrow> ('c, 's) raft_cluster" where
  "RaftCluster ids sm0 rnd tmin tmax hb interval =
     (let c = \<lparr>rc_transport = fold register ids InMemoryTransport, rc_runtimes = [],
               rc_election_timeout_min = tmin, rc_election_timeout_max = tmax,
               rc_heartbeat_interval = hb, rc_tick_interval = interval, rc_last_known_leader = None\<rparr>
      in c\<lparr>rc_runtimes := fold (\<lambda>n. dict_set n (build_runtime n ids InMemoryStorage sm0 (rnd n) c)) ids []\<rparr>)"

definition put_runtime ::
  "string \<Rightarrow> ('c, 's) raft_cluster \<Rightarrow> 'c transport \<times> ('c, 's) runtime \<Rightarrow> ('c, 's) raft_cluster" where
  "put_runtime n c trt = c\<lparr>rc_transport := fst trt, rc_runtimes := dict_set n (snd trt) (rc_runtimes c)\<rparr>"

definition with_runtime ::
  "string \<Rightarrow> ('c, 's) raft_cluster \<Rightarrow> (('c, 's) runtime \<Rightarrow> 'x result) \<Rightarrow> 'x result" where
  "with_runtime n c f = (case dict_get (rc_runtimes c) n of None \<Rightarrow> Inl KeyError | Some rt \<Rightarrow> f rt)"

definition start_cluster :: "rat \<Rightarrow> ('c, 's) raft_cluster \<Rightarrow> ('c, 's) raft_cluster" where
  "start_cluster now c = c\<lparr>rc_runtimes := map (\<lambda>(n, rt). (n, runtime_start now rt)) (rc_runtimes c)\<rparr>"

definition stop_cluster :: "('c, 's) raft_cluster \<Rightarrow> ('c, 's) raft_cluster" where
  "stop_cluster c = c\<lparr>rc_runtimes := map (\<lambda>(n, rt). (n, runtime_stop rt)) (rc_runtimes c)\<rparr>"

definition kill :: "string \<Rightarrow> ('c, 's) raft_cluster \<Rightarrow> ('c, 's) raft_cluster result" where
  "kill n c = with_runtime n c (\<lambda>rt.
     Inr (put_runtime n c (partition_nodes [n] (rc_transport c), runtime_stop rt)))"

definition revive ::
  "string \<Rightarrow> (nat \<Rightarrow> rat \<Rightarrow> rat \<Rightarrow> rat) \<Rightarrow> rat \<Rightarrow> ('c, 's) raft_cluster \<Rightarrow> ('c, 's) raft_cluster result" where
  "revive n rnd now c = with_runtime n c (\<lambda>rt.
     let t = register n (rejoin [n] (rc_transport c));
         fresh = build_runtime n (dict_keys (rc_runtimes c)) (storage (rt_node rt)) (state_machine (rt_node rt)) rnd c
     in Inr (put_runtime n c (t, runtime_start now fresh)))"

definition is_alive :: "string \<Rightarrow> ('c, 's) raft_cluster \<Rightarrow> bool" where
  "is_alive n c \<longleftrightarrow> \<not> is_partitioned n (rc_transport c)"

section \<open>Executions\<close>

datatype 'c action =
    Start string rat
  | Tick string rat
  | Deliver string rat
  | Propose string 'c rat
  | Kill string
  | Revive string "nat \<Rightarrow> rat \<Rightarrow> rat \<Rightarrow> rat" rat
  | Partition "string list"
  | Rejoin "string list"
  | Heal

fun cluster_act ::
  "('c \<Rightarrow> 's \<Rightarrow> 's) \<Rightarrow> 'c action \<Rightarrow> ('c, 's) raft_cluster \<Rightarrow> ('c, 's) raft_cluster result" where
  "cluster_act apl (Start n now) c = with_runtime n c (\<lambda>rt.
     Inr (put_runtime n c (rc_transport c, runtime_start now rt)))"
| "cluster_act apl (Tick n now) c = with_runtime n c (\<lambda>rt.
     if rt_running rt then Inr (put_runtime n c (runtime_tick send now (rc_transport c, rt))) else Inr c)"
| "cluster_act apl (Deliver n now) c = with_runtime n c (\<lambda>rt.
     if rt_running rt then
       (case pop_inbox n (rc_transport c) of
          None \<Rightarrow> Inr c
        | Some (envelope, t) \<Rightarrow>
            rbind (runtime_receive send apl now envelope (t, rt)) (\<lambda>trt. Inr (put_runtime n c trt)))
     else Inr c)"
| "cluster_act apl (Propose n command now) c = with_runtime n c (\<lambda>rt.
     Inr (put_runtime n c (fst (runtime_propose send command now (rc_transport c, rt)))))"
| "cluster_act apl (Kill n) c = kill n c"
| "cluster_act apl (Revive n rnd now) c = revive n rnd now c"
| "cluster_act apl (Partition ns) c = Inr (c\<lparr>rc_transport := partition_nodes ns (rc_transport c)\<rparr>)"
| "cluster_act apl (Rejoin ns) c = Inr (c\<lparr>rc_transport := rejoin ns (rc_transport c)\<rparr>)"
| "cluster_act apl Heal c = Inr (c\<lparr>rc_transport := heal (rc_transport c)\<rparr>)"

fun cluster_run ::
  "('c \<Rightarrow> 's \<Rightarrow> 's) \<Rightarrow> 'c action list \<Rightarrow> ('c, 's) raft_cluster \<Rightarrow> ('c, 's) raft_cluster result" where
  "cluster_run apl [] c = Inr c"
| "cluster_run apl (a # as) c = rbind (cluster_act apl a c) (cluster_run apl as)"

fun names_nodes :: "string list \<Rightarrow> 'c action \<Rightarrow> bool" where
  "names_nodes ids (Start n now) \<longleftrightarrow> n \<in> set ids"
| "names_nodes ids (Tick n now) \<longleftrightarrow> n \<in> set ids"
| "names_nodes ids (Deliver n now) \<longleftrightarrow> n \<in> set ids"
| "names_nodes ids (Propose n command now) \<longleftrightarrow> n \<in> set ids"
| "names_nodes ids (Kill n) \<longleftrightarrow> n \<in> set ids"
| "names_nodes ids (Revive n rnd now) \<longleftrightarrow> n \<in> set ids"
| "names_nodes ids _ \<longleftrightarrow> True"

abbreviation node_of :: "('c, 's) raft_cluster \<Rightarrow> string \<Rightarrow> ('c, 's) raft_node" where
  "node_of c n \<equiv> rt_node (the (dict_get (rc_runtimes c) n))"

lemma cluster_run_append: "cluster_run apl (as @ bs) c = rbind (cluster_run apl as c) (cluster_run apl bs)"
proof (induction as arbitrary: c)
  case (Cons a as)
  show ?case by (cases "cluster_act apl a c") (simp_all add: Cons)
qed simp

section \<open>Executions of a cluster are runs of the network\<close>

definition cluster_rel :: "string list \<Rightarrow> ('c, 's) raft_cluster \<Rightarrow> ('c, 's) network \<Rightarrow> bool" where
  "cluster_rel ids c N \<longleftrightarrow> dict_keys (rc_runtimes c) = ids \<and> (\<forall>n \<in> set ids. nodes N n = node_of c n) \<and>
     addressed (rc_transport c) \<and> in_flight (rc_transport c) \<subseteq> wire N"

lemma cluster_relD:
  assumes "cluster_rel ids c N"
  shows "dict_keys (rc_runtimes c) = ids" "n \<in> set ids \<Longrightarrow> nodes N n = node_of c n"
    "addressed (rc_transport c)" "in_flight (rc_transport c) \<subseteq> wire N"
    "n \<in> set ids \<Longrightarrow> \<exists>rt. dict_get (rc_runtimes c) n = Some rt"
  using assms dict_get_None_iff [of "rc_runtimes c" n] by (auto simp: cluster_rel_def)

text \<open>A method call of one node, with the messages it sent put on the transport.\<close>

lemma put_runtime_rel:
  assumes rel: "cluster_rel ids c N" and n: "n \<in> set ids"
    and t: "addressed t" "in_flight t \<subseteq> wire (act n nd out N)" and nd: "rt_node rt = nd"
  shows "cluster_rel ids (put_runtime n c (t, rt)) (act n nd out N)"
  using cluster_relD(1,2) [OF rel] n t nd
  by (auto simp: cluster_rel_def put_runtime_def act_def dict_keys_set)

lemma send_all_rel:
  assumes "addressed t" "in_flight t \<subseteq> wire N"
  shows "addressed (send_all send n out t)" "in_flight (send_all send n out t) \<subseteq> wire (act n nd out N)"
  using mem_transport.send_all_pending [OF assms(1), of n out] assms(2) by (auto simp: send_all_def act_def)

lemma transport_rel:
  assumes "cluster_rel ids c N" "\<And>n. inbox_of t n = inbox_of (rc_transport c) n"
  shows "cluster_rel ids (c\<lparr>rc_transport := t\<rparr>) N" "addressed t" "in_flight t \<subseteq> wire N"
  using assms by (simp_all add: cluster_rel_def addressed_def in_flight_def)

lemma reaches_node_id: "reaches ids n p nd out \<Longrightarrow> node_id nd = n"
  by (simp add: reaches_def node_ok_def)

lemma act_nothing: "wire (act n nd [] N) = wire N"
  by (simp add: act_def post_def)

lemma step_rel:
  assumes rel: "cluster_rel ids c N" and n: "n \<in> set ids" and step: "net_step ids apl N (act n nd out N)"
    and r: "reaches ids n p nd out" and rt: "rt_node rt = nd"
  shows "\<exists>N'. (net_step ids apl)\<^sup>*\<^sup>* N N' \<and>
    cluster_rel ids (put_runtime n c (send_all send (node_id nd) out (rc_transport c), rt)) N'"
  using put_runtime_rel [OF rel n send_all_rel [OF cluster_relD(3,4) [OF rel]] rt] step reaches_node_id [OF r]
  by (intro exI [of _ "act n nd out N"]) auto

lemma quiet_rel:
  assumes rel: "cluster_rel ids c N" and n: "n \<in> set ids" and t: "\<And>n. inbox_of t n = inbox_of (rc_transport c) n"
    and run: "(net_step ids apl)\<^sup>*\<^sup>* N (act n (rt_node rt) [] N)"
  shows "\<exists>N'. (net_step ids apl)\<^sup>*\<^sup>* N N' \<and> cluster_rel ids (put_runtime n c (t, rt)) N'"
  using put_runtime_rel [OF rel n transport_rel(2) [OF rel t], of "rt_node rt" "[]" rt] transport_rel(3) [OF rel t] run
  by (intro exI [of _ "act n (rt_node rt) [] N"]) (simp add: act_nothing)

lemma known_runtime:
  assumes "cluster_rel ids c N" "n \<in> set ids"
  obtains rt where "dict_get (rc_runtimes c) n = Some rt" "rt_node rt = nodes N n"
  using cluster_relD(2,5) [OF assms] by auto

definition refines_act ::
  "string list \<Rightarrow> ('c \<Rightarrow> 's \<Rightarrow> 's) \<Rightarrow> 'c action \<Rightarrow> ('c, 's) raft_cluster \<Rightarrow> ('c, 's) network \<Rightarrow> bool" where
  "refines_act ids apl a c N \<longleftrightarrow>
     (\<exists>c' N'. cluster_act apl a c = Inr c' \<and> (net_step ids apl)\<^sup>*\<^sup>* N N' \<and> cluster_rel ids c' N')"

lemma refines_actI:
  "cluster_act apl a c = Inr c' \<Longrightarrow> \<exists>N'. (net_step ids apl)\<^sup>*\<^sup>* N N' \<and> cluster_rel ids c' N' \<Longrightarrow> refines_act ids apl a c N"
  by (auto simp: refines_act_def)

lemma refines_stay: "cluster_act apl a c = Inr c \<Longrightarrow> cluster_rel ids c N \<Longrightarrow> refines_act ids apl a c N"
  by (auto simp: refines_act_def)

lemma start_refines:
  assumes rel: "cluster_rel ids c N" and n: "n \<in> set ids"
  shows "refines_act ids apl (Start n now) c N"
proof -
  obtain rt where rt: "dict_get (rc_runtimes c) n = Some rt" "rt_node rt = nodes N n"
    by (rule known_runtime [OF rel n])
  show ?thesis
  proof (rule refines_actI)
    show "cluster_act apl (Start n now) c = Inr (put_runtime n c (rc_transport c, runtime_start now rt))"
      using rt by (simp add: with_runtime_def)
    show "\<exists>N'. (net_step ids apl)\<^sup>*\<^sup>* N N' \<and> cluster_rel ids (put_runtime n c (rc_transport c, runtime_start now rt)) N'"
      using rt n net_start [of n ids apl N now] by (intro quiet_rel [OF rel]) (auto simp: runtime_start_def)
  qed
qed

lemma tick_refines:
  assumes rel: "cluster_rel ids c N" and sim: "simulates ids N p" and n: "n \<in> set ids"
  shows "refines_act ids apl (Tick n now) c N"
proof -
  note sD = simulatesD [OF sim]
  obtain rt where rt: "dict_get (rc_runtimes c) n = Some rt" "rt_node rt = nodes N n"
    by (rule known_runtime [OF rel n])
  obtain nd out where run: "tick now (nodes N n) = (nd, out)" by force
  have "\<exists>N'. (net_step ids apl)\<^sup>*\<^sup>* N N' \<and>
      cluster_rel ids (put_runtime n c (send_all send (node_id nd) out (rc_transport c), rt\<lparr>rt_node := nd\<rparr>)) N'"
    by (rule step_rel [OF rel n net_tick [OF n run] tick_reaches [OF sD(1) sD(3) [OF n] sD(4) [OF n] run]]) simp
  then show ?thesis
    using rt run rel
    by (cases "rt_running rt") (auto simp: with_runtime_def runtime_tick_def intro: refines_stay refines_actI)
qed

lemma deliver_refines:
  assumes rel: "cluster_rel ids c N" and sim: "simulates ids N p" and n: "n \<in> set ids"
  shows "refines_act ids apl (Deliver n now) c N"
proof -
  note rD = cluster_relD [OF rel] and sD = simulatesD [OF sim]
  obtain rt where rt: "dict_get (rc_runtimes c) n = Some rt" "rt_node rt = nodes N n"
    by (rule known_runtime [OF rel n])
  show ?thesis
  proof (cases "\<not> rt_running rt \<or> pop_inbox n (rc_transport c) = None")
    case True
    then show ?thesis using rt rel by (auto simp: with_runtime_def intro: refines_stay)
  next
    case False
    then obtain e t where pop: "pop_inbox n (rc_transport c) = Some (e, t)" by auto
    obtain s m where e: "e = Envelope s n m" "e \<in> wire N" and t: "addressed t"
      using mem_transport.next_law [OF rD(3), of n e t] pop rD(4) by (cases e) auto
    have s: "s \<in> set ids - {n}" using sD(5) e by blast
    obtain nd out where run: "receive apl e now (nodes N n) = Inr (nd, out)" and r: "reaches ids n p nd out"
      using receive_reaches [OF sD(1) sD(3) [OF n] sD(4) [OF n] _ s, of m apl now] sD(2) e by blast
    note go = mem_transport.receive_step [OF rD(3,4) pop run]
    have "cluster_rel ids (put_runtime n c (send_all send (node_id nd) out t, rt\<lparr>rt_node := nd\<rparr>)) (act n nd out N)"
      by (rule put_runtime_rel [OF rel n]) (use go(2,3) reaches_node_id [OF r] in \<open>simp_all add: send_all_def\<close>)
    then show ?thesis
      using rt run go(1) pop False
      by (intro refines_actI [where c' = "put_runtime n c (send_all send (node_id nd) out t, rt\<lparr>rt_node := nd\<rparr>)"])
        (auto simp: with_runtime_def runtime_receive_def)
  qed
qed

lemma propose_refines:
  assumes rel: "cluster_rel ids c N" and sim: "simulates ids N p" and n: "n \<in> set ids"
  shows "refines_act ids apl (Propose n command now) c N"
proof -
  note sD = simulatesD [OF sim]
  obtain rt where rt: "dict_get (rc_runtimes c) n = Some rt" "rt_node rt = nodes N n"
    by (rule known_runtime [OF rel n])
  obtain nd out entry where run: "propose command now (nodes N n) = (nd, out, entry)" by (metis prod_cases3)
  have "reaches ids n p nd out"
    using propose_reaches [OF sD(1) sD(3) [OF n] sD(4) [OF n] run] by blast
  then have "\<exists>N'. (net_step ids apl)\<^sup>*\<^sup>* N N' \<and>
      cluster_rel ids (put_runtime n c (send_all send (node_id nd) out (rc_transport c), rt\<lparr>rt_node := nd\<rparr>)) N'"
    by (rule step_rel [OF rel n net_propose [OF n run]]) simp
  then show ?thesis
    using rt run by (auto simp: with_runtime_def runtime_propose_def intro: refines_actI)
qed

lemma kill_refines:
  assumes rel: "cluster_rel ids c N" and n: "n \<in> set ids"
  shows "refines_act ids apl (Kill n) c N"
proof -
  obtain rt where rt: "dict_get (rc_runtimes c) n = Some rt" "rt_node rt = nodes N n"
    by (rule known_runtime [OF rel n])
  have "act n (rt_node (runtime_stop rt)) [] N = N"
    using rt(2) by (simp add: act_def post_def runtime_stop_def)
  then have "\<exists>N'. (net_step ids apl)\<^sup>*\<^sup>* N N' \<and>
      cluster_rel ids (put_runtime n c (partition_nodes [n] (rc_transport c), runtime_stop rt)) N'"
    using n by (intro quiet_rel [OF rel]) auto
  then show ?thesis using rt by (auto simp: kill_def with_runtime_def intro: refines_actI)
qed

lemma revive_refines:
  assumes rel: "cluster_rel ids c N" and n: "n \<in> set ids"
  shows "refines_act ids apl (Revive n rnd now) c N"
proof -
  obtain rt where rt: "dict_get (rc_runtimes c) n = Some rt" "rt_node rt = nodes N n"
    by (rule known_runtime [OF rel n])
  let ?fresh = "build_runtime n ids (storage (nodes N n)) (state_machine (nodes N n)) rnd c"
  let ?N = "act n (rt_node ?fresh) [] N"
  have "net_step ids apl N ?N"
    by (rule net_restart [OF n]) (simp add: build_runtime_def RaftNodeRuntime_def)
  moreover have "net_step ids apl ?N (act n (start_node now (nodes ?N n)) [] ?N)" by (rule net_start [OF n])
  moreover have "act n (start_node now (nodes ?N n)) [] ?N = act n (rt_node (runtime_start now ?fresh)) [] N"
    by (simp add: act_def runtime_start_def post_def)
  ultimately have "(net_step ids apl)\<^sup>*\<^sup>* N (act n (rt_node (runtime_start now ?fresh)) [] N)"
    by (metis converse_rtranclp_into_rtranclp r_into_rtranclp)
  then have "\<exists>N'. (net_step ids apl)\<^sup>*\<^sup>* N N' \<and>
      cluster_rel ids (put_runtime n c (register n (rejoin [n] (rc_transport c)), runtime_start now ?fresh)) N'"
    using n by (intro quiet_rel [OF rel]) auto
  then show ?thesis
    using rt cluster_relD(1) [OF rel] by (auto simp: revive_def with_runtime_def Let_def intro: refines_actI)
qed

lemma cluster_act_refines:
  assumes rel: "cluster_rel ids c N" and sim: "simulates ids N p" and a: "names_nodes ids a"
  shows "refines_act ids apl a c N"
proof (cases a)
  case (Partition ns)
  then show ?thesis using transport_rel(1) [OF rel, of "partition_nodes ns (rc_transport c)"] by (auto simp: refines_act_def)
next
  case (Rejoin ns)
  then show ?thesis using transport_rel(1) [OF rel, of "rejoin ns (rc_transport c)"] by (auto simp: refines_act_def)
next
  case Heal
  then show ?thesis using transport_rel(1) [OF rel, of "heal (rc_transport c)"] by (auto simp: refines_act_def)
qed (use a start_refines [OF rel] tick_refines [OF rel sim] deliver_refines [OF rel sim] propose_refines [OF rel sim]
      kill_refines [OF rel] revive_refines [OF rel] in auto)

lemma cluster_run_refines:
  assumes "cluster_rel ids c N" "simulates ids N p" "distinct ids" "\<And>a. a \<in> set acts \<Longrightarrow> names_nodes ids a"
  shows "\<exists>c' N'. cluster_run apl acts c = Inr c' \<and> (net_step ids apl)\<^sup>*\<^sup>* N N' \<and> cluster_rel ids c' N'"
  using assms
proof (induction acts arbitrary: c N p)
  case (Cons a acts)
  obtain c1 N1 where one: "cluster_act apl a c = Inr c1" "(net_step ids apl)\<^sup>*\<^sup>* N N1" "cluster_rel ids c1 N1"
    using cluster_act_refines [OF Cons.prems(1,2), of a apl] Cons.prems(4) by (auto simp: refines_act_def)
  obtain p1 where "simulates ids N1 p1"
    using net_run_simulates [OF one(2) Cons.prems(2,3)] by blast
  then have "\<exists>c' N'. cluster_run apl acts c1 = Inr c' \<and> (net_step ids apl)\<^sup>*\<^sup>* N1 N' \<and> cluster_rel ids c' N'"
    using Cons.prems(3,4) by (intro Cons.IH [OF one(3)]) auto
  then obtain c' N' where "cluster_run apl acts c1 = Inr c'" "(net_step ids apl)\<^sup>*\<^sup>* N1 N'" "cluster_rel ids c' N'"
    by blast
  then show ?case using one(1,2) by (auto intro: rtranclp_trans)
qed auto

section \<open>The initial cluster\<close>

lemma dict_comprehension:
  "distinct ids \<Longrightarrow> set ids \<inter> set (dict_keys d) = {} \<Longrightarrow> fold (\<lambda>n. dict_set n (f n)) ids d = d @ map (\<lambda>n. (n, f n)) ids"
proof (induction ids arbitrary: d)
  case (Cons n ids)
  have "dict_set n (f n) d = d @ [(n, f n)]"
    using Cons.prems(2) by (induction d) auto
  then show ?case using Cons by auto
qed simp

lemma register_all_empty: "inbox_of (fold register ids t) n = inbox_of t n"
  by (induction ids arbitrary: t) simp_all

definition net_of :: "('c, 's) raft_cluster \<Rightarrow> ('c, 's) network" where
  "net_of c = \<lparr>nodes = node_of c, wire = {}\<rparr>"

lemma RaftCluster_init:
  assumes "distinct ids" and c_def: "c = RaftCluster ids sm0 rnd tmin tmax hb interval"
  shows "cluster_rel ids c (net_of c)" "net_init ids sm0 (net_of c)"
proof -
  have rts: "rc_runtimes c = map (\<lambda>n. (n, RaftNodeRuntime (RaftNode n (peers_of ids n) InMemoryStorage sm0 tmin tmax hb (rnd n)) interval)) ids"
    using dict_comprehension [of ids "[]"] assms(1) by (simp add: c_def RaftCluster_def Let_def build_runtime_def)
  have "inbox_of (rc_transport c) n = []" for n
    by (simp add: c_def RaftCluster_def Let_def register_all_empty)
  then show "cluster_rel ids c (net_of c)"
    by (simp add: cluster_rel_def rts net_of_def addressed_def in_flight_def comp_def)
  show "net_init ids sm0 (net_of c)"
    by (auto simp: net_init_def net_of_def rts dict_get_map_pair RaftNodeRuntime_def)
qed

text \<open>Every execution of a cluster that names its own nodes ends without an exception, in a state
  that is reached by a run of the network from its start.\<close>

lemma cluster_execution:
  assumes "distinct ids" "\<forall>a \<in> set acts. names_nodes ids a"
  obtains c N0 N where "cluster_run apl acts (RaftCluster ids sm0 rnd tmin tmax hb interval) = Inr c"
    "net_init ids sm0 N0" "(net_step ids apl)\<^sup>*\<^sup>* N0 N" "cluster_rel ids c N"
  using cluster_run_refines [OF RaftCluster_init(1) [OF assms(1) refl] net_init_simulates [OF RaftCluster_init(2) [OF assms(1) refl] assms(1)] assms(1)]
    RaftCluster_init(2) [OF assms(1) refl] assms(2) by metis

text \<open>An execution that raises nothing has named only nodes of the cluster.\<close>

lemma cluster_act_names:
  assumes "cluster_rel ids c N" "cluster_act apl a c = Inr c'"
  shows "names_nodes ids a"
  using assms(2) cluster_relD(1) [OF assms(1)]
  by (cases a) (auto simp: with_runtime_def kill_def revive_def dest!: dict_get_Some_key split: option.splits)

lemma cluster_run_network:
  assumes "cluster_rel ids c N" "simulates ids N p" "distinct ids" "cluster_run apl acts c = Inr c'"
  shows "\<exists>N'. (net_step ids apl)\<^sup>*\<^sup>* N N' \<and> cluster_rel ids c' N'"
proof -
  have "\<And>a. a \<in> set acts \<Longrightarrow> names_nodes ids a"
    using assms
  proof (induction acts arbitrary: c N p)
    case (Cons b acts)
    obtain c1 where c1: "cluster_act apl b c = Inr c1" "cluster_run apl acts c1 = Inr c'"
      using Cons.prems(5) by (auto simp: rbind_Inr_conv)
    have b: "names_nodes ids b" by (rule cluster_act_names [OF Cons.prems(2) c1(1)])
    obtain N1 where N1: "(net_step ids apl)\<^sup>*\<^sup>* N N1" "cluster_rel ids c1 N1"
      using cluster_act_refines [OF Cons.prems(2,3) b, of apl] c1(1) by (auto simp: refines_act_def)
    obtain p1 where "simulates ids N1 p1" using net_run_simulates [OF N1(1) Cons.prems(3,4)] by blast
    then show ?case using Cons.IH [OF _ N1(2) _ Cons.prems(4) c1(2)] Cons.prems(1) b by auto
  qed simp
  then show ?thesis using cluster_run_refines [OF assms(1-3), of acts apl] assms(4) by auto
qed

lemma cluster_reachable:
  assumes "distinct ids" "cluster_run apl acts (RaftCluster ids sm0 rnd tmin tmax hb interval) = Inr c"
  obtains N0 N p where "net_init ids sm0 N0" "(net_step ids apl)\<^sup>*\<^sup>* N0 N" "cluster_rel ids c N" "simulates ids N p"
proof -
  let ?c = "RaftCluster ids sm0 rnd tmin tmax hb interval :: ('a, 'b) raft_cluster"
  note init = RaftCluster_init [OF assms(1) refl, of sm0 rnd tmin tmax hb interval]
  note sim = net_init_simulates [OF init(2) assms(1)]
  obtain N where N: "(net_step ids apl)\<^sup>*\<^sup>* (net_of ?c) N" "cluster_rel ids c N"
    using cluster_run_network [OF init(1) sim assms] by blast
  obtain p where "simulates ids N p" using net_run_simulates [OF N(1) sim assms(1)] by blast
  then show ?thesis using that [OF init(2) N] by blast
qed

end
