(* ===== verification/Raft_Driver.thy ===== *)
theory Raft_Driver
  imports Raft_Cluster
begin

text \<open>
  The loops around a cluster: one turn of a node's driver thread ends and drains its inbox
  (coordinator/raft_runtime.py), and the client's \<open>find_leader\<close> and \<open>propose\<close>
  (coordinator/raft_cluster.py) end once the clock has passed their deadline, whatever the rest of
  the cluster does in the meantime.
\<close>

section \<open>To whom a node sends\<close>

definition identity :: "('c, 's) raft_node \<Rightarrow> string \<times> string list" where
  "identity nd = (node_id nd, peer_ids nd)"

definition sends_to :: "string \<times> string list \<Rightarrow> ('c, 's) raft_node \<times> 'c outbox \<Rightarrow> bool" where
  "sends_to i r \<longleftrightarrow> identity (fst r) = i \<and> fst ` set (snd r) \<subseteq> set (snd i)"

lemma identity_simps [simp]:
  "identity (reset_election_deadline now nd) = identity nd"
  "identity (become_follower t now nd) = identity nd"
  "identity (nd\<lparr>storage := st\<rparr>) = identity nd" "identity (nd\<lparr>state := r\<rparr>) = identity nd"
  "identity (nd\<lparr>leader_id := l\<rparr>) = identity nd" "identity (nd\<lparr>votes_received := v\<rparr>) = identity nd"
  "identity (nd\<lparr>prevotes_received := v\<rparr>) = identity nd" "identity (nd\<lparr>prevote_target_term := t\<rparr>) = identity nd"
  "identity (nd\<lparr>next_index := d\<rparr>) = identity nd" "identity (nd\<lparr>match_index := d\<rparr>) = identity nd"
  "identity (nd\<lparr>commit_index := k\<rparr>) = identity nd" "identity (nd\<lparr>last_applied := k\<rparr>) = identity nd"
  "identity (nd\<lparr>state_machine := s\<rparr>) = identity nd" "identity (nd\<lparr>next_heartbeat_deadline := x\<rparr>) = identity nd"
  "identity (nd\<lparr>last_leader_contact := x\<rparr>) = identity nd"
  by (simp_all add: identity_def become_follower_def)

lemma identity_catch_up [simp]: "identity (catch_up t now nd) = identity nd"
  by (simp add: catch_up_def)

lemma identity_follow [simp]: "identity (follow l now nd) = identity nd"
  by (simp add: follow_def)

lemma sends_nothing [simp]: "sends_to i (nd, []) \<longleftrightarrow> identity nd = i"
  by (simp add: sends_to_def)

lemma sends_peers: "identity nd = i \<Longrightarrow> peer_ids nd = snd i"
  by (auto simp: identity_def)

lemma broadcast_append_entries_sends:
  "identity nd = i \<Longrightarrow> sends_to i (broadcast_append_entries now nd)"
  by (auto simp: broadcast_append_entries_def sends_to_def Let_def sends_peers dest: send_append_entries_to_recipient)

lemma maybe_become_leader_sends:
  "identity nd = i \<Longrightarrow> sends_to i (maybe_become_leader_from_votes now nd)"
  by (simp add: maybe_become_leader_from_votes_def become_leader_def broadcast_append_entries_sends)

lemma sends_append:
  "sends_to i (nd, out) \<Longrightarrow> sends_to i (nd', out') \<Longrightarrow> sends_to i (nd', out @ out')"
  by (auto simp: sends_to_def)

lemma sends_map: "identity nd = i \<Longrightarrow> sends_to i (nd, map (\<lambda>peer. (peer, m)) (peer_ids nd))"
  by (auto simp: sends_to_def sends_peers)

lemma become_candidate_sends:
  assumes "identity nd = i"
  shows "sends_to i (become_candidate now nd)"
proof -
  let ?nd = "reset_election_deadline now
    (nd\<lparr>storage := set_voted_for (Some (node_id nd)) (set_current_term (get_current_term (storage nd) + 1) (storage nd)),
        state := CANDIDATE, leader_id := None, votes_received := {node_id nd}\<rparr>)"
  obtain nd' out' where r: "maybe_become_leader_from_votes now ?nd = (nd', out')" by force
  have "sends_to i (nd', out')"
    using maybe_become_leader_sends [of ?nd i now] assms by (simp add: r)
  moreover have "sends_to i (?nd, broadcast_request_vote ?nd)"
    unfolding broadcast_request_vote_def Let_def by (rule sends_map) (simp add: assms)
  ultimately show ?thesis
    unfolding become_candidate_def Let_def r prod.case by (rule sends_append [rotated])
qed

lemma maybe_win_prevote_sends: "identity nd = i \<Longrightarrow> sends_to i (maybe_win_prevote now nd)"
  by (simp add: maybe_win_prevote_def become_candidate_sends)

lemma start_prevote_sends:
  assumes "identity nd = i"
  shows "sends_to i (start_prevote now nd)"
proof -
  let ?nd = "reset_election_deadline now (nd\<lparr>state := FOLLOWER, leader_id := None,
    prevote_target_term := current_term nd + 1, prevotes_received := {node_id nd}\<rparr>)"
  obtain nd' out' where r: "maybe_win_prevote now ?nd = (nd', out')" by force
  have "sends_to i (nd', out')"
    using maybe_win_prevote_sends [of ?nd i now] assms by (simp add: r)
  moreover have "sends_to i (?nd, map (\<lambda>peer. (peer, m)) (peer_ids ?nd))" for m :: "'a message"
    by (rule sends_map) (simp add: assms)
  ultimately show ?thesis
    unfolding start_prevote_def Let_def r prod.case by (intro sends_append)
qed

lemma tick_sends: "sends_to (identity nd) (tick now nd)"
  by (simp add: tick_def broadcast_append_entries_sends start_prevote_sends)

lemma apply_committed_identity: "apply_committed apl nd = Inr nd' \<Longrightarrow> identity nd' = identity nd"
proof (induction apl nd rule: apply_committed.induct)
  case (1 apl nd)
  then show ?case
    by (cases "last_applied nd < commit_index nd")
      (auto simp: apply_committed.simps [of apl nd] Let_def split: option.splits)
qed

lemma handle_append_entries_identity:
  assumes "handle_append_entries apl args now nd = Inr (nd', reply)"
  shows "identity nd' = identity nd"
proof -
  have "accept_entries apl args ct nd1 = Inr (nd', reply) \<Longrightarrow> identity nd' = identity nd1" for ct nd1
    by (auto simp: accept_entries_def rbind_Inr_conv Let_def dest!: apply_committed_identity split: if_splits)
  then have "append_decision apl args ct nd1 = Inr (nd', reply) \<Longrightarrow> identity nd' = identity nd1" for ct nd1
    by (auto simp: append_decision_def Let_def split: if_splits)
  then show ?thesis
    using assms by (auto simp: handle_append_entries_eq Let_def split: if_splits)
qed

lemma handle_request_vote_identity: "identity (fst (handle_request_vote args now nd)) = identity nd"
  by (simp add: handle_request_vote_def Let_def)

lemma handle_append_entries_reply_sends:
  assumes "handle_append_entries_reply apl s reply now nd = Inr (nd', out)"
  shows "identity nd' = identity nd \<and> fst ` set out \<subseteq> {s}"
proof -
  have "advance_commit_index apl nd1 = Inr nd2 \<Longrightarrow> identity nd2 = identity nd1" for nd1 nd2 :: "('a, 'b) raft_node"
    by (auto simp: advance_commit_index_def Let_def dest!: apply_committed_identity split: if_splits)
  then show ?thesis
    using assms
    by (fastforce simp: handle_append_entries_reply_def rbind_Inr_conv Let_def dest: send_append_entries_to_recipient
        split: if_splits option.splits)
qed

text \<open>A node keeps its identity, and sends only to its peers and to the sender of what it received.\<close>

lemma receive_sends:
  assumes "receive apl e now nd = Inr (nd', out)"
  shows "identity nd' = identity nd \<and> fst ` set out \<subseteq> insert (env_sender_id e) (set (peer_ids nd))"
proof (cases "env_message e")
  case (MRequestVoteArgs args)
  then show ?thesis
    using assms handle_request_vote_identity [of args now nd] by (auto simp: receive_def case_prod_beta)
next
  case (MRequestVoteReply reply)
  have "sends_to (identity nd) (handle_request_vote_reply reply now nd)"
    using maybe_become_leader_sends [of "nd\<lparr>votes_received := insert (rvr_voter_id reply) (votes_received nd)\<rparr>" "identity nd" now]
    by (simp add: handle_request_vote_reply_def)
  then show ?thesis using assms MRequestVoteReply by (auto simp: receive_def sends_to_def sends_peers [OF refl])
next
  case (MAppendEntriesArgs args)
  then show ?thesis
    using assms handle_append_entries_identity [of apl args now nd]
    by (auto simp: receive_def rbind_Inr_conv case_prod_beta)
next
  case (MAppendEntriesReply reply)
  then show ?thesis
    using assms handle_append_entries_reply_sends [of apl "env_sender_id e" reply now nd] by (auto simp: receive_def)
next
  case (MPreVoteArgs args)
  then show ?thesis using assms by (auto simp: receive_def)
next
  case (MPreVoteReply reply)
  have "sends_to (identity nd) (handle_prevote_reply reply now nd)"
    using maybe_win_prevote_sends [of "nd\<lparr>prevotes_received := insert (pvr_voter_id reply) (prevotes_received nd)\<rparr>" "identity nd" now]
    by (simp add: handle_prevote_reply_def)
  then show ?thesis using assms MPreVoteReply by (auto simp: receive_def sends_to_def sends_peers [OF refl])
qed

lemma send_all_inbox: "n \<notin> fst ` set out \<Longrightarrow> inbox_of (send_all send s out t) n = inbox_of t n"
  by (induction out arbitrary: t) (auto simp: send_all_def)

text \<open>One turn of the driver's loop ends, and leaves an empty inbox.\<close>

lemma run_once_ends:
  assumes id: "node_id (rt_node rt) = n" "n \<notin> set (peer_ids (rt_node rt))"
    and inbox: "\<And>e. e \<in> set (inbox_of t n) \<Longrightarrow> env_sender_id e \<noteq> n"
  shows "\<exists>r. run_once send deliver_to apl now (t, rt) = Some r \<and>
    (\<forall>k t' rt'. r = Inr (k, t', rt') \<longrightarrow> k = length (inbox_of t n) \<and> inbox_of t' n = [] \<and> node_id (rt_node rt') = n)"
proof -
  let ?I = "\<lambda>rt'. identity (rt_node rt') = identity (rt_node rt)"
  obtain nd out where run: "tick now (rt_node rt) = (nd, out)" by force
  have ident: "identity nd = identity (rt_node rt)" "fst ` set out \<subseteq> set (peer_ids (rt_node rt))"
    using tick_sends [of "rt_node rt" now] by (auto simp: run sends_to_def sends_peers [OF refl])
  let ?t = "register n (send_all send (node_id nd) out t)"
  have nid: "node_id nd = n" using ident(1) id(1) by (simp add: identity_def)
  have same: "inbox_of ?t n = inbox_of t n"
    using send_all_inbox [of n out "node_id nd" t] ident(2) id(2) by (simp only: inbox_of_simps) blast
  have eq: "run_once send deliver_to apl now (t, rt) = deliver_loop n (runtime_receive send apl now) 0 (?t, rt\<lparr>rt_node := nd\<rparr>)"
    by (simp add: run_once_def runtime_tick_def run nid deliver_to_def)
  have "\<exists>r. run_once send deliver_to apl now (t, rt) = Some r \<and>
      (\<forall>k t' rt'. r = Inr (k, t', rt') \<longrightarrow> k = 0 + length (inbox_of ?t n) \<and> inbox_of t' n = [] \<and> ?I rt')"
    unfolding eq
  proof (rule deliver_loop_drains [where E = "\<lambda>e. env_sender_id e \<noteq> n"])
    fix e t x t' x'
    assume I: "?I x" and e: "env_sender_id e \<noteq> n" and run: "runtime_receive send apl now e (t, x) = Inr (t', x')"
    then obtain nd' out' where r: "receive apl e now (rt_node x) = Inr (nd', out')"
        "t' = send_all send (node_id nd') out' t" "x' = x\<lparr>rt_node := nd'\<rparr>"
      by (auto simp: runtime_receive_def rbind_Inr_conv)
    have "peer_ids (rt_node x) = peer_ids (rt_node rt)" using I by (simp add: identity_def)
    then have "n \<notin> insert (env_sender_id e) (set (peer_ids (rt_node x)))" using id(2) e by simp
    then have "n \<notin> fst ` set out'" by (rule contra_subsetD [OF conjunct2 [OF receive_sends [OF r(1)]]])
    then have "inbox_of t' n = inbox_of t n" unfolding r(2) by (rule send_all_inbox)
    moreover have "?I x'" using conjunct1 [OF receive_sends [OF r(1)]] I unfolding r(3) by simp
    ultimately show "?I x' \<and> inbox_of t' n = inbox_of t n" by blast
  qed (use ident(1) same inbox in auto)
  then show ?thesis using id(1) same by (auto simp: identity_def)
qed

section \<open>Finding the leader and proposing\<close>

text \<open>
  The client reads the clock and the cluster while driver threads and fault injection go on.
  \<open>clock k\<close> is the k-th clock reading and \<open>env k\<close> what the others have done to the cluster when
  it returns.
\<close>

record ('c, 's) world =
  w_cluster :: "('c, 's) raft_cluster"
  w_reads :: nat

definition monotonic ::
  "(nat \<Rightarrow> rat) \<Rightarrow> (nat \<Rightarrow> ('c, 's) raft_cluster \<Rightarrow> ('c, 's) raft_cluster) \<Rightarrow> ('c, 's) world
   \<Rightarrow> rat \<times> ('c, 's) world" where
  "monotonic clock env w =
     (clock (w_reads w), \<lparr>w_cluster = env (w_reads w) (w_cluster w), w_reads = Suc (w_reads w)\<rparr>)"

definition leads :: "('c, 's) raft_cluster \<Rightarrow> string \<Rightarrow> bool" where
  "leads c n \<longleftrightarrow> is_alive n c \<and> (case dict_get (rc_runtimes c) n of None \<Rightarrow> False | Some rt \<Rightarrow> runtime_is_leader rt)"

definition poll_leader :: "('c, 's) raft_cluster \<Rightarrow> string option" where
  "poll_leader c =
     (let scan = find (leads c) (dict_keys (rc_runtimes c))
      in case rc_last_known_leader c of
           Some n \<Rightarrow> if leads c n then Some n else scan
         | None \<Rightarrow> scan)"

partial_function (option) find_leader_loop ::
  "(nat \<Rightarrow> rat) \<Rightarrow> (nat \<Rightarrow> ('c, 's) raft_cluster \<Rightarrow> ('c, 's) raft_cluster) \<Rightarrow> rat \<Rightarrow> ('c, 's) world
   \<Rightarrow> (string option \<times> ('c, 's) world) option" where
  "find_leader_loop clock env deadline w =
     (case poll_leader (w_cluster w) of
        Some n \<Rightarrow> Some (Some n, w\<lparr>w_cluster := (w_cluster w)\<lparr>rc_last_known_leader := Some n\<rparr>\<rparr>)
      | None \<Rightarrow>
          (let (now, w) = monotonic clock env w
           in if now \<ge> deadline then Some (None, w) else find_leader_loop clock env deadline w))"

definition find_leader ::
  "(nat \<Rightarrow> rat) \<Rightarrow> (nat \<Rightarrow> ('c, 's) raft_cluster \<Rightarrow> ('c, 's) raft_cluster) \<Rightarrow> rat \<Rightarrow> ('c, 's) world
   \<Rightarrow> (string option \<times> ('c, 's) world) option" where
  "find_leader clock env timeout w =
     (let (now, w) = monotonic clock env w in find_leader_loop clock env (now + timeout) w)"

partial_function (option) propose_loop ::
  "(nat \<Rightarrow> rat) \<Rightarrow> (nat \<Rightarrow> ('c, 's) raft_cluster \<Rightarrow> ('c, 's) raft_cluster) \<Rightarrow> 'c \<Rightarrow> rat \<Rightarrow> ('c, 's) world
   \<Rightarrow> ('c log_entry result \<times> ('c, 's) world) option" where
  "propose_loop clock env command deadline w =
     (let (now, w) = monotonic clock env w in
      if \<not> now < deadline then Some (Inl TimeoutError, w)
      else
        (let (now, w) = monotonic clock env w in
         Option.bind (find_leader clock env (max 0 (deadline - now)) w) (\<lambda>(leader, w).
           case leader of
             None \<Rightarrow> Some (Inl TimeoutError, w)
           | Some n \<Rightarrow>
               (let (now, w) = monotonic clock env w; c = w_cluster w in
                case dict_get (rc_runtimes c) n of
                  None \<Rightarrow> Some (Inl KeyError, w)
                | Some rt \<Rightarrow>
                    (let (trt, entry) = runtime_propose send command now (rc_transport c, rt)
                     in case entry of
                          Some e \<Rightarrow> Some (Inr e, w\<lparr>w_cluster := put_runtime n c trt\<rparr>)
                        | None \<Rightarrow> propose_loop clock env command deadline
                            (w\<lparr>w_cluster := (put_runtime n c trt)\<lparr>rc_last_known_leader := None\<rparr>\<rparr>))))))"

definition cluster_propose ::
  "(nat \<Rightarrow> rat) \<Rightarrow> (nat \<Rightarrow> ('c, 's) raft_cluster \<Rightarrow> ('c, 's) raft_cluster) \<Rightarrow> 'c \<Rightarrow> rat \<Rightarrow> ('c, 's) world
   \<Rightarrow> ('c log_entry result \<times> ('c, 's) world) option" where
  "cluster_propose clock env command timeout w =
     (let (now, w) = monotonic clock env w in propose_loop clock env command (now + timeout) w)"

lemma monotonic_reads [simp]: "w_reads (snd (monotonic clock env w)) = Suc (w_reads w)"
  "fst (monotonic clock env w) = clock (w_reads w)"
  by (simp_all add: monotonic_def)

lemma poll_leader_leads: "poll_leader c = Some n \<Longrightarrow> leads c n"
  by (auto simp: poll_leader_def Let_def find_Some_iff split: option.splits if_splits)

lemma poll_leader_None: "poll_leader c = None \<longleftrightarrow> (\<forall>n. \<not> leads c n)"
proof
  assume none: "poll_leader c = None"
  show "\<forall>n. \<not> leads c n"
  proof
    fix n
    have "leads c n \<Longrightarrow> n \<in> set (dict_keys (rc_runtimes c))"
      by (auto simp: leads_def dest: dict_get_Some_key split: option.splits)
    then show "\<not> leads c n"
      using none by (auto simp: poll_leader_def find_None_iff Let_def split: option.splits if_splits)
  qed
qed (metis option.exhaust poll_leader_leads)

lemma leads_last_known [simp]: "leads (c\<lparr>rc_last_known_leader := l\<rparr>) n = leads c n"
  by (simp add: leads_def is_alive_def)

lemma find_leader_loop_ends:
  assumes "\<And>k. K \<le> k \<Longrightarrow> deadline \<le> clock k"
  shows "\<exists>r. find_leader_loop clock env deadline w = Some r"
proof (induction "K - w_reads w" arbitrary: w rule: less_induct)
  case less
  obtain now w1 where m: "monotonic clock env w = (now, w1)" by force
  then have w1: "w_reads w1 = Suc (w_reads w)" "now = clock (w_reads w)"
    using monotonic_reads [of clock env w] by simp_all
  show ?case
  proof (cases "poll_leader (w_cluster w) = None \<and> now < deadline")
    case True
    then have "K - w_reads w1 < K - w_reads w" using assms [of "w_reads w"] w1 by fastforce
    then show ?thesis
      using less [of w1] True m by (simp add: find_leader_loop.simps [of clock env deadline w])
  next
    case False
    then show ?thesis
      using m by (cases "poll_leader (w_cluster w)") (auto simp: find_leader_loop.simps [of clock env deadline w])
  qed
qed

definition found :: "(nat \<Rightarrow> rat) \<Rightarrow> rat \<Rightarrow> ('c, 's) world \<Rightarrow> string option \<times> ('c, 's) world \<Rightarrow> bool" where
  "found clock deadline w res \<longleftrightarrow> (case res of
      (Some n, w') \<Rightarrow> w_reads w \<le> w_reads w' \<and> leads (w_cluster w') n \<and> rc_last_known_leader (w_cluster w') = Some n
    | (None, w') \<Rightarrow> w_reads w < w_reads w' \<and> deadline \<le> clock (w_reads w' - 1))"

lemma found_later: "found clock deadline w1 res \<Longrightarrow> w_reads w1 = Suc (w_reads w) \<Longrightarrow> found clock deadline w res"
  by (auto simp: found_def split: option.splits prod.splits)

lemma find_leader_loop_result:
  "find_leader_loop clock env deadline w = Some res \<Longrightarrow> found clock deadline w res"
proof (induction rule: find_leader_loop.raw_induct [where P = "\<lambda>clock env deadline w res. found clock deadline w res",
    rotated, consumes 1, case_names loop])
  case (loop loop clock env deadline w res)
  obtain now w1 where m: "monotonic clock env w = (now, w1)" by force
  then have w1: "w_reads w1 = Suc (w_reads w)" "now = clock (w_reads w)"
    using monotonic_reads [of clock env w] by simp_all
  show ?case
  proof (cases "poll_leader (w_cluster w) = None \<and> \<not> deadline \<le> now")
    case True
    then have "loop clock env deadline w1 = Some res" using loop(2) m by simp
    then show ?thesis using loop(1) found_later w1(1) by blast
  next
    case False
    then show ?thesis
      using loop(2) m w1 poll_leader_leads
      by (cases "poll_leader (w_cluster w)") (auto simp: found_def)
  qed
qed

lemma propose_loop_ends:
  assumes "\<And>k. K \<le> k \<Longrightarrow> deadline \<le> clock k" "\<And>d. \<exists>K. \<forall>k \<ge> K. d \<le> clock k"
  shows "\<exists>r. propose_loop clock env command deadline w = Some r"
proof (induction "K - w_reads w" arbitrary: w rule: less_induct)
  case less
  obtain now w1 where m1: "monotonic clock env w = (now, w1)" by force
  obtain now2 w2 where m2: "monotonic clock env w1 = (now2, w2)" by force
  obtain now3 w3 where m3: "monotonic clock env w2 = (now3, w3)" by force
  have reads: "w_reads w3 = w_reads w + 3" "now = clock (w_reads w)"
    using m1 m2 m3 monotonic_reads [of clock env w] monotonic_reads [of clock env w1] monotonic_reads [of clock env w2]
    by simp_all
  show ?case
  proof (cases "now < deadline")
    case False
    then show ?thesis using m1 by (simp add: propose_loop.simps [of clock env command deadline w])
  next
    case early: True
    let ?d = "now3 + max 0 (deadline - now2)"
    obtain l w4 where f: "find_leader_loop clock env ?d w3 = Some (l, w4)"
      using find_leader_loop_ends assms(2) by (metis surj_pair)
    then have "w_reads w3 \<le> w_reads w4"
      using find_leader_loop_result [OF f] by (auto simp: found_def split: option.splits)
    then have IH: "\<exists>r. propose_loop clock env command deadline w' = Some r" if "w_reads w4 \<le> w_reads w'" for w'
      using early reads assms(1) [of "w_reads w"] that by (intro less) fastforce
    show ?thesis
      using early m1 m2 m3 f
      by (auto simp: propose_loop.simps [of clock env command deadline w] find_leader_def Let_def
          monotonic_def [of clock env w4] split: option.splits prod.splits intro!: IH [simplified])
  qed
qed

lemma runtime_propose_entry:
  assumes "runtime_propose send command now (t, rt) = ((t', rt'), Some e)"
  shows "is_leader (rt_node rt')" and "st_log (storage (rt_node rt')) = st_log (storage (rt_node rt)) @ [e]"
    and "e = LogEntry (current_term (rt_node rt')) (last_index (storage (rt_node rt'))) command"
  using assms
  by (auto simp: runtime_propose_def propose_def broadcast_append_entries_def Let_def last_index_def current_term_def
      is_leader_def split: if_splits)

definition logged :: "'c \<Rightarrow> 'c log_entry \<Rightarrow> ('c, 's) raft_cluster \<Rightarrow> bool" where
  "logged command e c \<longleftrightarrow> (\<exists>n rt. dict_get (rc_runtimes c) n = Some rt \<and> is_leader (rt_node rt) \<and>
     st_log (storage (rt_node rt)) \<noteq> [] \<and> last (st_log (storage (rt_node rt))) = e \<and>
     e = LogEntry (current_term (rt_node rt)) (last_index (storage (rt_node rt))) command)"

lemma propose_loop_result:
  "propose_loop clock env command deadline w = Some res \<Longrightarrow>
     fst res = Inr e \<longrightarrow> logged command e (w_cluster (snd res))"
proof (induction rule: propose_loop.raw_induct
    [where P = "\<lambda>clock env command deadline w res. fst res = Inr e \<longrightarrow> logged command e (w_cluster (snd res))",
    rotated, consumes 1, case_names loop])
  case (loop loop clock env command deadline w res)
  show ?case
  proof
    assume e: "fst res = Inr e"
    have put: "logged command e (put_runtime n c (t', rt'))"
      if "runtime_propose send command now (t, rt) = ((t', rt'), Some e)" for n c t rt t' rt' now
      unfolding logged_def
    proof (intro exI conjI)
      show "dict_get (rc_runtimes (put_runtime n c (t', rt'))) n = Some rt'" by (simp add: put_runtime_def)
      show "st_log (storage (rt_node rt')) \<noteq> []" "last (st_log (storage (rt_node rt'))) = e"
        unfolding runtime_propose_entry(2) [OF that] by simp_all
    qed (rule runtime_propose_entry [OF that])+
    obtain now w1 where m1: "monotonic clock env w = (now, w1)" by force
    obtain now2 w2 where m2: "monotonic clock env w1 = (now2, w2)" by force
    obtain n w3 where f: "find_leader clock env (max 0 (deadline - now2)) w2 = Some (Some n, w3)"
      using loop(2) e m1 m2 by (auto simp: bind_eq_Some_conv split: if_splits option.splits)
    obtain now4 w4 where m4: "monotonic clock env w3 = (now4, w4)" by force
    obtain rt where rt: "dict_get (rc_runtimes (w_cluster w4)) n = Some rt"
      using loop(2) e m1 m2 f m4 by (auto simp: Let_def split: if_splits option.splits)
    obtain t' rt' entry where p: "runtime_propose send command now4 (rc_transport (w_cluster w4), rt) = ((t', rt'), entry)"
      by (metis surj_pair)
    show "logged command e (w_cluster (snd res))"
    proof (cases entry)
      case None
      then have "loop clock env command deadline
          (w4\<lparr>w_cluster := (put_runtime n (w_cluster w4) (t', rt'))\<lparr>rc_last_known_leader := None\<rparr>\<rparr>) = Some res"
        using loop(2) e m1 m2 f m4 rt p by (auto simp: Let_def split: if_splits)
      then show ?thesis using loop(1) e by blast
    next
      case (Some e')
      then have "res = (Inr e', w4\<lparr>w_cluster := put_runtime n (w_cluster w4) (t', rt')\<rparr>)"
        using loop(2) e m1 m2 f m4 rt p by (auto simp: Let_def split: if_splits)
      then show ?thesis using put [of now4 "rc_transport (w_cluster w4)" rt t' rt'] p Some e by simp
    qed
  qed
qed

end
