(* ===== verification/Raft_State_Machine.thy ===== *)
theory Raft_State_Machine
  imports Raft_Network
begin

text \<open>
  The recording state machine of raft/state_machine.py and the contract every state machine has
  to meet. \<open>key\<close> is what \<open>getattr(command, "entry_id", command)\<close> gives for a command.
\<close>

record ('c, 'k) recording_machine =
  applied :: "'c list"
  applied_ids :: "'k set"

definition RecordingStateMachine :: "('c, 'k) recording_machine" where
  "RecordingStateMachine = \<lparr>applied = [], applied_ids = {}\<rparr>"

definition record_apply ::
  "('c \<Rightarrow> 'k) \<Rightarrow> 'c \<Rightarrow> ('c, 'k) recording_machine \<Rightarrow> 'c option \<times> ('c, 'k) recording_machine" where
  "record_apply key command sm =
     (if key command \<in> applied_ids sm then (None, sm)
      else (Some command, sm\<lparr>applied_ids := insert (key command) (applied_ids sm),
                              applied := applied sm @ [command]\<rparr>))"

definition record_step :: "('c \<Rightarrow> 'k) \<Rightarrow> 'c \<Rightarrow> ('c, 'k) recording_machine \<Rightarrow> ('c, 'k) recording_machine" where
  "record_step key command sm = snd (record_apply key command sm)"

lemma record_step_ids: "applied_ids (fold (record_step key) cs sm) = applied_ids sm \<union> key ` set cs"
  by (induction cs arbitrary: sm) (auto simp: record_step_def record_apply_def)

interpretation recording: idempotent_machine "record_step key" RecordingStateMachine for key
  by unfold_locales
    (use record_step_ids in \<open>fastforce simp: record_step_def record_apply_def RecordingStateMachine_def\<close>)

text \<open>The recorded commands have pairwise different keys, and every applied key is recorded.\<close>

lemma recorded_distinct:
  "distinct (map key (applied (fold (record_step key) cs RecordingStateMachine))) \<and>
   key ` set (applied (fold (record_step key) cs RecordingStateMachine)) = key ` set cs"
proof (induction cs rule: rev_induct)
  case (snoc c cs)
  let ?sm = "fold (record_step key) cs RecordingStateMachine"
  have "applied_ids ?sm = key ` set cs" by (simp add: record_step_ids RecordingStateMachine_def)
  then show ?case using snoc by (auto simp: record_step_def [of key c ?sm] record_apply_def)
qed (simp add: RecordingStateMachine_def)

end
