(* ===== verification/Raft_Properties.thy ===== *)
theory Raft_Properties
  imports Raft_Driver Raft_State_Machine
begin

text \<open>
  The safety properties of Raft, stated of the executions of a whole cluster of
  coordinator/raft_cluster.py: any interleaving of ticks, deliveries, proposals, kills, revivals and
  partitions at any clock readings, from the cluster that \<open>RaftCluster\<close> builds.
\<close>

section \<open>A small execution\<close>

text \<open>
  Three nodes of which \<open>a\<close> times out first: it wins the prevote and the election, replicates one
  command to \<open>b\<close>, commits it and tells \<open>b\<close> so. The witnesses below are taken from it.
\<close>

definition demo_ids :: "string list" where
  "demo_ids = [''a'', ''b'', ''c'']"

definition demo_random :: "string \<Rightarrow> nat \<Rightarrow> rat \<Rightarrow> rat \<Rightarrow> rat" where
  "demo_random n k lo hi = (if n = ''a'' then lo else hi)"

definition demo_actions :: "string action list" where
  "demo_actions = [Start ''a'' 0, Start ''b'' 0, Start ''c'' 0,
     Tick ''a'' 5, Deliver ''b'' 6, Deliver ''a'' 7, Deliver ''b'' 8, Deliver ''a'' 9,
     Propose ''a'' ''debit'' 10, Deliver ''b'' 11, Deliver ''b'' 11, Deliver ''a'' 12, Deliver ''a'' 12,
     Tick ''a'' 15, Deliver ''b'' 16]"

definition demo_start :: "(string, (string, string) recording_machine) raft_cluster" where
  "demo_start = RaftCluster demo_ids RecordingStateMachine demo_random 3 6 1 1"

definition demo_end :: "(string, (string, string) recording_machine) raft_cluster" where
  "demo_end = (case cluster_run (record_step id) demo_actions demo_start of Inr c \<Rightarrow> c | Inl _ \<Rightarrow> demo_start)"

definition demo_failover :: "string action list" where
  "demo_failover = [Kill ''a'',
     Deliver ''c'' 17, Deliver ''c'' 17, Deliver ''c'' 17, Deliver ''c'' 17, Deliver ''c'' 17,
     Tick ''b'' 30, Deliver ''c'' 31, Deliver ''b'' 32, Deliver ''c'' 33, Deliver ''b'' 34,
     Revive ''a'' (demo_random ''a'') 40, Propose ''b'' ''credit'' 41, Deliver ''a'' 42, Deliver ''b'' 43,
     Deliver ''a'' 44, Deliver ''b'' 45, Tick ''b'' 46, Deliver ''a'' 47]"

definition demo_after :: "(string, (string, string) recording_machine) raft_cluster" where
  "demo_after = (case cluster_run (record_step id) demo_failover demo_end of Inr c \<Rightarrow> c | Inl _ \<Rightarrow> demo_end)"

lemma demo_names: "distinct demo_ids" "\<forall>a \<in> set demo_actions. names_nodes demo_ids a"
  by (simp_all add: demo_ids_def demo_actions_def)

lemma node_log_eq: "node_log nd = st_log (storage nd)"
  by (simp add: node_log_def entries_from_log)

lemma demo_run: "cluster_run (record_step id) demo_actions demo_start = Inr demo_end"
proof -
  obtain c where "cluster_run (record_step id) demo_actions demo_start = Inr c"
    unfolding demo_start_def by (rule cluster_execution [OF demo_names])
  then show ?thesis by (simp add: demo_end_def)
qed

lemma demo_facts:
  "is_leader (node_of demo_end ''a'')" "current_term (node_of demo_end ''a'') = 1"
  "node_log (node_of demo_end ''a'') = [LogEntry 1 1 ''debit'']" "commit_index (node_of demo_end ''a'') = 1"
  "node_log (node_of demo_end ''b'') = [LogEntry 1 1 ''debit'']" "commit_index (node_of demo_end ''b'') = 1"
  "applied (state_machine (node_of demo_end ''b'')) = [''debit'']"
  by code_simp+

lemma demo_names': "\<forall>a \<in> set (demo_actions @ demo_failover). names_nodes demo_ids a"
  by (simp add: demo_ids_def demo_actions_def demo_failover_def)

lemma demo_run': "cluster_run (record_step id) demo_failover demo_end = Inr demo_after"
proof -
  obtain c where "cluster_run (record_step id) (demo_actions @ demo_failover) demo_start = Inr c"
    unfolding demo_start_def by (rule cluster_execution [OF demo_names(1) demo_names'])
  then have "cluster_run (record_step id) demo_failover demo_end = Inr c"
    by (simp add: cluster_run_append demo_run)
  then show ?thesis by (simp add: demo_after_def)
qed

lemma demo_facts':
  "is_leader (node_of demo_after ''b'')" "current_term (node_of demo_after ''b'') = 2"
  "commit_index (node_of demo_after ''a'') = 2" "applied (state_machine (node_of demo_after ''a'')) = [''debit'', ''credit'']"
  by code_simp+

text \<open>
  C22: No execution of a cluster raises an exception.
\<close>

theorem cluster_never_raises:
  assumes "distinct ids" "\<forall>a \<in> set acts. names_nodes ids a"
  shows "\<exists>c. cluster_run apl acts (RaftCluster ids sm0 rnd tmin tmax hb interval) = Inr c"
  by (rule cluster_execution [OF assms]) blast

theorem cluster_never_raises_witness:
  "\<exists>c. cluster_run (record_step id) demo_actions (RaftCluster demo_ids RecordingStateMachine demo_random 3 6 1 1) = Inr c"
  by (rule cluster_never_raises [OF demo_names])

text \<open>
  C5: In every execution of a cluster, two nodes that lead the same term are the same node.
\<close>

theorem election_safety:
  assumes "distinct ids" "cluster_run apl acts (RaftCluster ids sm0 rnd tmin tmax hb interval) = Inr c"
    "n \<in> set ids" "m \<in> set ids" "is_leader (node_of c n)" "is_leader (node_of c m)"
    "current_term (node_of c n) = current_term (node_of c m)"
  shows "n = m"
proof -
  obtain N p where "cluster_rel ids c N" "simulates ids N p" by (rule cluster_reachable [OF assms(1,2)])
  then show ?thesis
    using simulates_one_leader [of ids N p n m] cluster_relD(2) [of ids c N] assms(3-7) by (simp add: is_leader_def)
qed

theorem election_safety_witness:
  "is_leader (node_of demo_end ''a'') \<and>
   \<not> (is_leader (node_of demo_end ''b'') \<and> current_term (node_of demo_end ''b'') = current_term (node_of demo_end ''a''))"
  using election_safety [OF demo_names(1) demo_run [unfolded demo_start_def], of "''b''" "''a''"] demo_facts(1)
  by (auto simp: demo_ids_def)

text \<open>
  C21: Two logs with an entry of the same term at a position agree up to it.
\<close>

theorem log_matching:
  assumes "distinct ids" "cluster_run apl acts (RaftCluster ids sm0 rnd tmin tmax hb interval) = Inr c"
    "n \<in> set ids" "m \<in> set ids" "i < length (node_log (node_of c n))" "i < length (node_log (node_of c m))"
    "entry_term (node_log (node_of c n) ! i) = entry_term (node_log (node_of c m) ! i)"
  shows "take (Suc i) (node_log (node_of c n)) = take (Suc i) (node_log (node_of c m))"
proof -
  obtain N p where "cluster_rel ids c N" "simulates ids N p" by (rule cluster_reachable [OF assms(1,2)])
  then show ?thesis
    using simulates_logs_match [of ids N p n m i] cluster_relD(2) [of ids c N] assms(3-7) by (simp add: node_log_eq)
qed

theorem log_matching_witness:
  "take (Suc 0) (node_log (node_of demo_end ''a'')) = take (Suc 0) (node_log (node_of demo_end ''b''))"
  by (rule log_matching [OF demo_names(1) demo_run [unfolded demo_start_def]])
    (simp_all add: demo_ids_def demo_facts)










end
