(* ===== verification/Raft_Integrity.thy ===== *)
theory Raft_Integrity
  imports Raft_Cluster
begin

text \<open>
  No node invents a command: every command in a log, in a message under way or in a state machine
  was proposed to the cluster. What a state machine has applied is the beginning of some node's log.
\<close>

section \<open>Commands of a node and of its messages\<close>

definition cmds :: "('c, 's) raft_node \<Rightarrow> 'c set" where
  "cmds nd = entry_command ` set (st_log (storage nd))"

definition msg_cmds :: "'c message \<Rightarrow> 'c set" where
  "msg_cmds m = (case m of MAppendEntriesArgs args \<Rightarrow> entry_command ` set (aea_entries args) | _ \<Rightarrow> {})"

definition sound :: "'c set \<Rightarrow> ('c, 's) raft_node \<times> 'c outbox \<Rightarrow> bool" where
  "sound C r \<longleftrightarrow> cmds (fst r) \<subseteq> C \<and> (\<forall>x \<in> set (snd r). msg_cmds (snd x) \<subseteq> C)"

lemma cmds_simps [simp]:
  "cmds (reset_election_deadline now nd) = cmds nd" "cmds (become_follower t now nd) = cmds nd"
  "cmds (nd\<lparr>state := r\<rparr>) = cmds nd" "cmds (nd\<lparr>leader_id := l\<rparr>) = cmds nd"
  "cmds (nd\<lparr>votes_received := v\<rparr>) = cmds nd" "cmds (nd\<lparr>prevotes_received := v\<rparr>) = cmds nd"
  "cmds (nd\<lparr>prevote_target_term := t\<rparr>) = cmds nd" "cmds (nd\<lparr>next_index := d\<rparr>) = cmds nd"
  "cmds (nd\<lparr>match_index := d\<rparr>) = cmds nd" "cmds (nd\<lparr>commit_index := k\<rparr>) = cmds nd"
  "cmds (nd\<lparr>last_applied := k\<rparr>) = cmds nd" "cmds (nd\<lparr>state_machine := s\<rparr>) = cmds nd"
  "cmds (nd\<lparr>next_heartbeat_deadline := x\<rparr>) = cmds nd" "cmds (nd\<lparr>last_leader_contact := x\<rparr>) = cmds nd"
  "cmds (nd\<lparr>storage := set_voted_for w (set_current_term t (storage nd))\<rparr>) = cmds nd"
  "cmds (nd\<lparr>storage := set_voted_for w (storage nd)\<rparr>) = cmds nd"
  by (simp_all add: cmds_def)

lemma sound_quiet [simp]: "sound C (nd, []) \<longleftrightarrow> cmds nd \<subseteq> C"
  by (simp add: sound_def)

lemma sound_append: "sound C (nd, out) \<Longrightarrow> sound C (nd', out') \<Longrightarrow> sound C (nd', out @ out')"
  by (auto simp: sound_def)

lemma send_append_entries_to_cmds: "x \<in> set (send_append_entries_to peer nd) \<Longrightarrow> msg_cmds (snd x) \<subseteq> cmds nd"
proof -
  have "set (entries_from (storage nd) i) \<subseteq> set (st_log (storage nd))" for i
    by (simp add: entries_from_def py_from_def set_drop_subset Let_def)
  then show "x \<in> set (send_append_entries_to peer nd) \<Longrightarrow> msg_cmds (snd x) \<subseteq> cmds nd"
    by (auto simp: send_append_entries_to_def Let_def msg_cmds_def cmds_def)
qed

lemma broadcast_append_entries_sound: "cmds nd \<subseteq> C \<Longrightarrow> sound C (broadcast_append_entries now nd)"
  using send_append_entries_to_cmds by (fastforce simp: broadcast_append_entries_def sound_def Let_def)

lemma maybe_become_leader_sound: "cmds nd \<subseteq> C \<Longrightarrow> sound C (maybe_become_leader_from_votes now nd)"
  by (simp add: maybe_become_leader_from_votes_def become_leader_def broadcast_append_entries_sound)

lemma become_candidate_sound:
  assumes "cmds nd \<subseteq> C"
  shows "sound C (become_candidate now nd)"
proof -
  let ?nd = "reset_election_deadline now
    (nd\<lparr>storage := set_voted_for (Some (node_id nd)) (set_current_term (get_current_term (storage nd) + 1) (storage nd)),
        state := CANDIDATE, leader_id := None, votes_received := {node_id nd}\<rparr>)"
  obtain nd' out' where r: "maybe_become_leader_from_votes now ?nd = (nd', out')" by force
  have "sound C (nd', out')" using maybe_become_leader_sound [of ?nd C now] assms by (simp add: r)
  moreover have "sound C (?nd, broadcast_request_vote ?nd)"
    using assms by (simp add: sound_def broadcast_request_vote_def msg_cmds_def)
  ultimately show ?thesis unfolding become_candidate_def Let_def r prod.case by (rule sound_append [rotated])
qed

lemma maybe_win_prevote_sound: "cmds nd \<subseteq> C \<Longrightarrow> sound C (maybe_win_prevote now nd)"
  by (simp add: maybe_win_prevote_def become_candidate_sound)

lemma start_prevote_sound:
  assumes "cmds nd \<subseteq> C"
  shows "sound C (start_prevote now nd)"
proof -
  let ?nd = "reset_election_deadline now (nd\<lparr>state := FOLLOWER, leader_id := None,
    prevote_target_term := current_term nd + 1, prevotes_received := {node_id nd}\<rparr>)"
  obtain nd' out' where r: "maybe_win_prevote now ?nd = (nd', out')" by force
  have "sound C (nd', out')" using maybe_win_prevote_sound [of ?nd C now] assms by (simp add: r)
  moreover have "sound C (?nd, map (\<lambda>peer. (peer, MPreVoteArgs args)) (peer_ids ?nd))" for args
    using assms by (auto simp: sound_def msg_cmds_def)
  ultimately show ?thesis unfolding start_prevote_def Let_def r prod.case by (intro sound_append)
qed

lemma tick_sound: "cmds nd \<subseteq> C \<Longrightarrow> sound C (tick now nd)"
  by (simp add: tick_def broadcast_append_entries_sound start_prevote_sound)

section \<open>Handlers\<close>

lemma append_loop_set: "append_loop idx es st = Inr st' \<Longrightarrow> set (st_log st') \<subseteq> set (st_log st) \<union> set es"
proof (induction idx es st rule: append_loop.induct)
  case (2 idx entry rest st)
  show ?case
  proof (cases "term_at st idx = -1 \<or> term_at st idx \<noteq> entry_term entry")
    case True
    then show ?thesis
      using 2(2) by (auto simp: truncate_from_def append_log_def Let_def dest!: in_set_takeD split: if_splits)
  next
    case False
    then show ?thesis using 2 by auto
  qed
qed simp

lemma apply_committed_storage: "apply_committed apl nd = Inr nd' \<Longrightarrow> storage nd' = storage nd"
proof (induction apl nd rule: apply_committed.induct)
  case (1 apl nd)
  show ?case
  proof (cases "last_applied nd < commit_index nd")
    case True
    then obtain entry where "get_entry (storage nd) (last_applied nd + 1) = Some entry"
      using 1(2) by (cases "get_entry (storage nd) (last_applied nd + 1)") (simp_all add: apply_committed.simps [of apl nd])
    then show ?thesis using 1 True by (simp add: apply_committed.simps [of apl nd])
  next
    case False
    then show ?thesis using 1(2) by (simp add: apply_committed.simps [of apl nd])
  qed
qed

lemma handle_append_entries_cmds:
  assumes "handle_append_entries apl args now nd = Inr (nd', reply)"
  shows "cmds nd' \<subseteq> cmds nd \<union> entry_command ` set (aea_entries args)"
proof -
  have acc: "cmds nd' \<subseteq> cmds nd1 \<union> entry_command ` set (aea_entries args)"
    if run: "accept_entries apl args ct nd1 = Inr (nd', reply)" for ct nd1
  proof -
    obtain st where st: "append_loop (aea_prev_log_index args + 1) (aea_entries args) (storage nd1) = Inr st" "storage nd' = st"
      using run by (auto simp: accept_entries_def rbind_Inr_conv Let_def dest: apply_committed_storage split: if_splits)
    then show ?thesis using append_loop_set [OF st(1)] by (auto simp: cmds_def)
  qed
  have dec: "cmds nd' \<subseteq> cmds nd1 \<union> entry_command ` set (aea_entries args)"
    if "append_decision apl args ct nd1 = Inr (nd', reply)" for ct nd1
    using that acc [of ct nd1] by (auto simp: append_decision_def Let_def split: if_splits)
  have "cmds (catch_up t now nd) = cmds nd" "cmds (follow l now nd1) = cmds nd1" for t l nd1
    by (simp_all add: catch_up_def follow_def)
  then show ?thesis
    using assms dec by (fastforce simp: handle_append_entries_eq Let_def split: if_splits)
qed

lemma handle_append_entries_reply_sound:
  assumes "cmds nd \<subseteq> C" "handle_append_entries_reply apl s reply now nd = Inr (nd', out)"
  shows "sound C (nd', out)"
proof -
  have adv: "cmds nd2 = cmds nd1" if "advance_commit_index apl nd1 = Inr nd2" for nd1 nd2 :: "('a, 'b) raft_node"
    using that by (auto simp: advance_commit_index_def Let_def cmds_def dest!: apply_committed_storage split: if_splits)
  have retry: "sound C (nd1, send_append_entries_to s nd1)" if "cmds nd1 \<subseteq> C" for nd1
    using that send_append_entries_to_cmds by (fastforce simp: sound_def)
  show ?thesis
    using assms(2,1)
    by (auto simp: handle_append_entries_reply_def rbind_Inr_conv Let_def dest!: adv intro!: retry split: if_splits option.splits)
qed

lemma receive_sound:
  assumes "cmds nd \<subseteq> C" "msg_cmds (env_message e) \<subseteq> C" "receive apl e now nd = Inr (nd', out)"
  shows "sound C (nd', out)"
proof (cases "env_message e")
  case (MRequestVoteArgs args)
  have "cmds (fst (handle_request_vote args now nd)) = cmds nd" by (simp add: handle_request_vote_def Let_def)
  then show ?thesis using assms(1,3) MRequestVoteArgs by (auto simp: receive_def case_prod_beta sound_def msg_cmds_def)
next
  case (MRequestVoteReply reply)
  then show ?thesis
    using assms(1,3) maybe_become_leader_sound [of "nd\<lparr>votes_received := insert (rvr_voter_id reply) (votes_received nd)\<rparr>" C now]
    by (auto simp: receive_def handle_request_vote_reply_def split: if_splits)
next
  case (MAppendEntriesArgs args)
  then show ?thesis
    using assms handle_append_entries_cmds [of apl args now nd]
    by (fastforce simp: receive_def rbind_Inr_conv sound_def msg_cmds_def)
next
  case (MAppendEntriesReply reply)
  then show ?thesis
    using assms(1,3) handle_append_entries_reply_sound [of nd C apl "env_sender_id e" reply now] by (simp add: receive_def)
next
  case (MPreVoteArgs args)
  then show ?thesis using assms(1,3) by (auto simp: receive_def sound_def msg_cmds_def)
next
  case (MPreVoteReply reply)
  then show ?thesis
    using assms(1,3) maybe_win_prevote_sound [of "nd\<lparr>prevotes_received := insert (pvr_voter_id reply) (prevotes_received nd)\<rparr>" C now]
    by (auto simp: receive_def handle_prevote_reply_def split: if_splits)
qed

lemma propose_sound:
  assumes "cmds nd \<subseteq> C" "command \<in> C" "propose command now nd = (nd', out, entry)"
  shows "sound C (nd', out)"
proof -
  let ?nd = "nd\<lparr>storage := append_log [LogEntry (current_term nd) (last_index (storage nd) + 1) command] (storage nd)\<rparr>"
  have "cmds ?nd \<subseteq> C" using assms(1,2) by (auto simp: cmds_def)
  then show ?thesis
    using assms(1,3) broadcast_append_entries_sound [of ?nd C now]
    by (auto simp: propose_def Let_def split: if_splits prod.splits)
qed

section \<open>Clusters\<close>

fun proposed :: "'c action \<Rightarrow> 'c set" where
  "proposed (Propose n command now) = {command}"
| "proposed _ = {}"

definition wire_sound :: "'c set \<Rightarrow> 'c transport \<Rightarrow> bool" where
  "wire_sound C t \<longleftrightarrow> (\<forall>n. \<forall>e \<in> set (inbox_of t n). msg_cmds (env_message e) \<subseteq> C)"

definition cluster_sound :: "'c set \<Rightarrow> ('c, 's) raft_cluster \<Rightarrow> bool" where
  "cluster_sound C c \<longleftrightarrow> (\<forall>n rt. dict_get (rc_runtimes c) n = Some rt \<longrightarrow> cmds (rt_node rt) \<subseteq> C) \<and>
     wire_sound C (rc_transport c)"

lemma send_all_wire: "wire_sound C t \<Longrightarrow> \<forall>x \<in> set out. msg_cmds (snd x) \<subseteq> C \<Longrightarrow> wire_sound C (send_all send n out t)"
proof (induction out arbitrary: t)
  case (Cons x out)
  have "wire_sound C (send n (fst x) (snd x) t)" using Cons.prems by (auto simp: wire_sound_def split: if_splits)
  then show ?case using Cons by (simp add: send_all_def case_prod_beta)
qed (simp add: send_all_def)

lemma pop_wire: "wire_sound C t \<Longrightarrow> pop_inbox n t = Some (e, t') \<Longrightarrow> wire_sound C t' \<and> msg_cmds (env_message e) \<subseteq> C"
proof -
  assume ok: "wire_sound C t" and pop: "pop_inbox n t = Some (e, t')"
  then obtain rest where inbox: "inbox_of t n = e # rest" and t': "t' = t\<lparr>inboxes := dict_set n rest (inboxes t)\<rparr>"
    by (auto simp: pop_inbox_def split: list.splits)
  have "set (inbox_of t' k) \<subseteq> set (inbox_of t k)" for k using inbox by (auto simp: t')
  moreover have "e \<in> set (inbox_of t n)" using inbox by simp
  ultimately show ?thesis using ok unfolding wire_sound_def by blast
qed

lemma put_runtime_sound:
  "cluster_sound C c \<Longrightarrow> wire_sound C t \<Longrightarrow> cmds (rt_node rt) \<subseteq> C \<Longrightarrow> cluster_sound C (put_runtime n c (t, rt))"
  by (auto simp: cluster_sound_def put_runtime_def)

lemma known_sound: "cluster_sound C c \<Longrightarrow> dict_get (rc_runtimes c) n = Some rt \<Longrightarrow> cmds (rt_node rt) \<subseteq> C"
  by (auto simp: cluster_sound_def)

lemma put_sent_sound:
  assumes "cluster_sound C c" "wire_sound C t" "sound C (nd, out)"
  shows "cluster_sound C (put_runtime n c (send_all send k out t, rt\<lparr>rt_node := nd\<rparr>))"
  using assms by (intro put_runtime_sound send_all_wire) (auto simp: sound_def)

lemma deliver_sound:
  assumes ok: "cluster_sound C c" and rt: "dict_get (rc_runtimes c) n = Some rt" and run: "cluster_act apl (Deliver n now) c = Inr c'"
  shows "cluster_sound C c'"
proof (cases "\<not> rt_running rt \<or> pop_inbox n (rc_transport c) = None")
  case True
  then show ?thesis using run rt ok by (auto simp: with_runtime_def split: if_splits)
next
  case False
  then obtain e t where pop: "pop_inbox n (rc_transport c) = Some (e, t)" by auto
  obtain nd out where r: "receive apl e now (rt_node rt) = Inr (nd, out)" "c' = put_runtime n c (send_all send (node_id nd) out t, rt\<lparr>rt_node := nd\<rparr>)"
    using run rt False pop by (auto simp: with_runtime_def runtime_receive_def rbind_Inr_conv)
  have w: "wire_sound C t" "msg_cmds (env_message e) \<subseteq> C" using pop_wire [OF _ pop] ok by (auto simp: cluster_sound_def)
  show ?thesis
    unfolding r(2) using receive_sound [OF known_sound [OF ok rt] w(2) r(1)] by (rule put_sent_sound [OF ok w(1)])
qed

lemma revive_sound:
  assumes ok: "cluster_sound C c" and rt: "dict_get (rc_runtimes c) n = Some rt" and run: "revive n rnd now c = Inr c'"
  shows "cluster_sound C c'"
proof -
  have wire: "wire_sound C (register n (rejoin [n] (rc_transport c)))" "wire_sound C (rejoin [n] (rc_transport c))"
    using ok by (simp_all add: cluster_sound_def wire_sound_def)
  show ?thesis
    using run rt put_runtime_sound [OF ok wire(1)] put_runtime_sound [OF ok wire(2)] known_sound [OF ok rt]
    by (auto simp: revive_def with_runtime_def Let_def runtime_start_def start_node_def build_runtime_def RaftNodeRuntime_def
        cmds_def RaftNode_def)
qed

lemma with_runtimeE:
  assumes "with_runtime n c f = Inr x"
  obtains rt where "dict_get (rc_runtimes c) n = Some rt" "f rt = Inr x"
  using assms by (auto simp: with_runtime_def split: option.splits)

lemma cluster_act_sound:
  assumes ok: "cluster_sound C c" and new: "proposed a \<subseteq> C" and run: "cluster_act apl a c = Inr c'"
  shows "cluster_sound C c'"
proof -
  have wire: "wire_sound C (rc_transport c)" using ok by (simp add: cluster_sound_def)
  show ?thesis
  proof (cases a)
    case (Tick n now)
    obtain rt where rt: "dict_get (rc_runtimes c) n = Some rt" using run by (auto simp: Tick elim: with_runtimeE)
    obtain nd out where t: "tick now (rt_node rt) = (nd, out)" by force
    have "sound C (nd, out)" using tick_sound [OF known_sound [OF ok rt], of now] t by simp
    from put_sent_sound [OF ok wire this] show ?thesis
      using run ok rt by (cases "rt_running rt") (auto simp: Tick with_runtime_def runtime_tick_def t)
  next
    case (Deliver n now)
    obtain rt where rt: "dict_get (rc_runtimes c) n = Some rt" using run by (auto simp: Deliver elim: with_runtimeE)
    show ?thesis by (rule deliver_sound [OF ok rt run [unfolded Deliver]])
  next
    case (Propose n command now)
    obtain rt where rt: "dict_get (rc_runtimes c) n = Some rt" using run by (auto simp: Propose elim: with_runtimeE)
    obtain nd out entry where p: "propose command now (rt_node rt) = (nd, out, entry)" by (metis prod_cases3)
    have "sound C (nd, out)" using propose_sound [OF known_sound [OF ok rt] _ p] new by (simp add: Propose)
    from put_sent_sound [OF ok wire this] show ?thesis
      using run rt by (auto simp: Propose with_runtime_def runtime_propose_def p)
  next
    case (Revive n rnd now)
    obtain rt where rt: "dict_get (rc_runtimes c) n = Some rt" using run by (auto simp: Revive revive_def elim: with_runtimeE)
    show ?thesis using revive_sound [OF ok rt] run by (simp add: Revive)
  next
    case (Start n now)
    obtain rt where rt: "dict_get (rc_runtimes c) n = Some rt" using run by (auto simp: Start elim: with_runtimeE)
    then show ?thesis
      using run put_runtime_sound [OF ok wire, of "runtime_start now rt" n] known_sound [OF ok rt]
      by (simp add: Start with_runtime_def runtime_start_def start_node_def)
  next
    case (Kill n)
    obtain rt where rt: "dict_get (rc_runtimes c) n = Some rt" using run by (auto simp: Kill kill_def elim: with_runtimeE)
    then show ?thesis
      using run put_runtime_sound [OF ok, of "partition_nodes [n] (rc_transport c)" "runtime_stop rt" n] wire known_sound [OF ok rt]
      by (simp add: Kill kill_def with_runtime_def wire_sound_def runtime_stop_def)
  qed (use run ok in \<open>clarsimp simp: cluster_sound_def wire_sound_def\<close>)+
qed

lemma cluster_run_sound:
  assumes "cluster_sound C c" "\<And>a. a \<in> set acts \<Longrightarrow> proposed a \<subseteq> C" "cluster_run apl acts c = Inr c'"
  shows "cluster_sound C c'"
  using assms
proof (induction acts arbitrary: c)
  case (Cons a acts)
  obtain c1 where "cluster_act apl a c = Inr c1" "cluster_run apl acts c1 = Inr c'"
    using Cons.prems(3) by (auto simp: rbind_Inr_conv)
  then show ?case using Cons cluster_act_sound [of C c a apl c1] by auto
qed simp

section \<open>Committed entries\<close>

lemma committed_in_log:
  assumes inv: "pinv (majorities (set ids)) p" and com: "committed (majorities (set ids)) p T xs" and ne: "xs \<noteq> []"
  shows "\<exists>n \<in> set ids. prefix xs (plog p n)"
proof -
  obtain t k where tk: "valid p t k" "chosen (majorities (set ids)) p t k" "prefix xs (take k (g_llog p t))"
    using com ne by (auto simp: committed_def)
  then obtain Q where Q: "Q \<in> majorities (set ids)" "\<forall>m \<in> Q. k \<le> g_acc p t m" by (auto simp: chosen_def)
  then have "Q \<subseteq> set ids" "0 < card Q" by (auto simp: majorities_def majority_size_def)
  then obtain m where m: "m \<in> Q" "m \<in> set ids" by (auto simp: card_gt_0_iff)
  have "prefix (take k (g_llog p t)) (plog p m)"
    using inv_keyD(1) [OF pinvD(6) [OF inv] tk(1)] Q(2) m(1) raft_maj.not_dead_chosen [OF tk(2)] by blast
  then show ?thesis using m(2) tk(3) prefix_order.order_trans by blast
qed

lemma initial_sound:
  assumes "distinct ids"
  shows "cluster_sound C (RaftCluster ids sm0 rnd tmin tmax hb interval :: ('c, 's) raft_cluster)"
proof -
  let ?c = "RaftCluster ids sm0 rnd tmin tmax hb interval :: ('c, 's) raft_cluster"
  note init = RaftCluster_init [OF assms refl, of sm0 rnd tmin tmax hb interval]
  have "cmds (rt_node rt) \<subseteq> C" if "dict_get (rc_runtimes ?c) n = Some rt" for n rt
  proof -
    have "n \<in> set ids" using dict_get_Some_key [OF that] unfolding cluster_relD(1) [OF init(1)] .
    moreover have "net_init ids sm0 (net_of ?c)" by (rule init(2))
    ultimately have "storage (node_of ?c n) = InMemoryStorage" by (auto simp: net_init_def net_of_def RaftNode_def)
    then have "st_log (storage (node_of ?c n)) = []" by (simp add: InMemoryStorage_def)
    then show ?thesis using that by (simp add: cmds_def)
  qed
  moreover have "wire_sound C (rc_transport ?c)"
    by (simp add: wire_sound_def RaftCluster_def Let_def register_all_empty)
  ultimately show ?thesis unfolding cluster_sound_def by blast
qed

abbreviation proposals :: "'c action list \<Rightarrow> 'c set" where
  "proposals acts \<equiv> \<Union> (proposed ` set acts)"

text \<open>
  What the replicas of an idempotent state machine hold: the result of applying, once each and in one
  common order, commands that are in some log.
\<close>

lemma net_machines:
  assumes idem: "idempotent_machine apl sm0" and ids: "distinct ids"
    and N: "net_init ids sm0 N0" "(net_step ids apl)\<^sup>*\<^sup>* N0 N"
    and sound: "\<And>n. n \<in> set ids \<Longrightarrow> cmds (nodes N n) \<subseteq> C"
  obtains h where "\<And>n. n \<in> set ids \<Longrightarrow> state_machine (nodes N n) = fold apl (h n) sm0"
    "\<And>n. n \<in> set ids \<Longrightarrow> set (h n) \<subseteq> C"
    "\<And>n m. n \<in> set ids \<Longrightarrow> m \<in> set ids \<Longrightarrow> prefix (h n) (h m) \<or> prefix (h m) (h n)"
proof -
  obtain p where p: "simulates ids N p" "machines_ok ids apl sm0 N p"
    using idempotent_machine.net_run_machines [OF idem N(2,1) ids] by blast
  then obtain cs T where cs: "\<And>n. n \<in> set ids \<Longrightarrow> committed (majorities (set ids)) p (T n) (cs n)"
    "\<And>n. n \<in> set ids \<Longrightarrow> state_machine (nodes N n) = fold apl (map entry_command (cs n)) sm0"
    unfolding machines_ok_def by metis
  have from_log: "set (map entry_command (cs n)) \<subseteq> C" if n: "n \<in> set ids" for n
  proof (cases "cs n = []")
    case False
    then obtain m where m: "m \<in> set ids" "prefix (cs n) (plog p m)"
      using committed_in_log [OF simulatesD(1) [OF p(1)] cs(1) [OF n]] by blast
    have "plog p m = st_log (storage (nodes N m))" using simulatesD(3) [OF p(1) m(1)] by simp
    then have "set (map entry_command (cs n)) \<subseteq> cmds (nodes N m)"
      using set_mono_prefix [OF m(2)] by (auto simp: cmds_def)
    then show ?thesis using sound [OF m(1)] by blast
  qed simp
  have cmp: "prefix (cs n) (cs m) \<or> prefix (cs m) (cs n)" if "n \<in> set ids" "m \<in> set ids" for n m
    by (rule raft_maj.committed_comparable [OF simulatesD(1) [OF p(1)] cs(1) cs(1)]) fact+
  show thesis
    using that [of "\<lambda>n. map entry_command (cs n)"] cs(2) from_log cmp map_mono_prefix by metis
qed

lemma cluster_machines:
  assumes idem: "idempotent_machine apl sm0" and ids: "distinct ids"
    and run: "cluster_run apl acts (RaftCluster ids sm0 rnd tmin tmax hb interval) = Inr c"
  obtains h where "\<And>n. n \<in> set ids \<Longrightarrow> state_machine (node_of c n) = fold apl (h n) sm0"
    "\<And>n. n \<in> set ids \<Longrightarrow> set (h n) \<subseteq> proposals acts"
    "\<And>n m. n \<in> set ids \<Longrightarrow> m \<in> set ids \<Longrightarrow> prefix (h n) (h m) \<or> prefix (h m) (h n)"
proof -
  obtain N0 N where N: "net_init ids sm0 N0" "(net_step ids apl)\<^sup>*\<^sup>* N0 N" "cluster_rel ids c N"
    by (rule cluster_reachable [OF ids run])
  have sound: "cmds (nodes N n) \<subseteq> proposals acts" if n: "n \<in> set ids" for n
  proof -
    have "cluster_sound (proposals acts) c" by (rule cluster_run_sound [OF initial_sound [OF ids] _ run]) blast
    moreover obtain rt where "dict_get (rc_runtimes c) n = Some rt" "rt_node rt = nodes N n" by (rule known_runtime [OF N(3) n])
    ultimately show ?thesis unfolding cluster_sound_def by metis
  qed
  show thesis
    using net_machines [OF idem ids N(1,2) sound] cluster_relD(2) [OF N(3)] that by metis
qed

end
