(* ===== verification/Raft_Client.thy ===== *)
theory Raft_Client
  imports Raft_Driver Raft_Integrity
begin

text \<open>
  What a client of a cluster can rely on when the threads of the nodes and fault injection go on
  beside it: the cluster it leaves behind is a state of an execution to which only its own command
  and those of the others were proposed, and a proposal ends with an entry or with a time-out.
\<close>

section \<open>The other threads\<close>

text \<open>The actions of the other threads up to the client's k-th clock reading.\<close>

definition others ::
  "('c \<Rightarrow> 's \<Rightarrow> 's) \<Rightarrow> (nat \<Rightarrow> 'c action list) \<Rightarrow> nat \<Rightarrow> ('c, 's) raft_cluster \<Rightarrow> ('c, 's) raft_cluster" where
  "others apl sched k c = (case cluster_run apl (sched k) c of Inr c' \<Rightarrow> c' | Inl e \<Rightarrow> c)"

text \<open>The leader a client remembers plays no part in what the cluster does.\<close>

definition forget :: "('c, 's) raft_cluster \<Rightarrow> ('c, 's) raft_cluster" where
  "forget c = c\<lparr>rc_last_known_leader := None\<rparr>"

lemma forget_simps [simp]:
  "rc_runtimes (forget c) = rc_runtimes c" "rc_transport (forget c) = rc_transport c"
  "forget (forget c) = forget c" "forget (c\<lparr>rc_last_known_leader := l\<rparr>) = forget c"
  "forget (put_runtime n c trt) = put_runtime n (forget c) trt"
  by (simp_all add: forget_def put_runtime_def)

lemma cluster_act_forget: "cluster_act apl a (forget c) = map_sum id forget (cluster_act apl a c)"
proof -
  have rb: "map_sum id forget (rbind r (\<lambda>trt. Inr (put_runtime n c trt))) = rbind r (\<lambda>trt. Inr (put_runtime n (forget c) trt))"
    for r n by (cases r) simp_all
  show ?thesis
    by (cases a) (auto simp: with_runtime_def kill_def revive_def build_runtime_def Let_def rb split: option.splits;
      simp add: forget_def)+
qed

lemma cluster_run_forget: "cluster_run apl acts (forget c) = map_sum id forget (cluster_run apl acts c)"
proof (induction acts arbitrary: c)
  case (Cons a acts)
  show ?case by (cases "cluster_act apl a c") (simp_all add: cluster_act_forget Cons)
qed simp

definition continues :: "('c \<Rightarrow> 's \<Rightarrow> 's) \<Rightarrow> 'c set \<Rightarrow> ('c, 's) raft_cluster \<Rightarrow> ('c, 's) raft_cluster \<Rightarrow> bool" where
  "continues apl C c c' \<longleftrightarrow> (\<exists>acts. cluster_run apl acts (forget c) = Inr (forget c') \<and> proposals acts \<subseteq> C)"

lemma continues_refl [simp]: "forget c' = forget c \<Longrightarrow> continues apl C c c'"
  unfolding continues_def by (rule exI [of _ "[]"]) simp

lemma continues_trans:
  assumes "continues apl C c c1" "continues apl C c1 c2"
  shows "continues apl C c c2"
proof -
  obtain as bs where "cluster_run apl as (forget c) = Inr (forget c1)" "proposals as \<subseteq> C"
    "cluster_run apl bs (forget c1) = Inr (forget c2)" "proposals bs \<subseteq> C"
    using assms unfolding continues_def by blast
  then show ?thesis unfolding continues_def by (intro exI [of _ "as @ bs"]) (auto simp: cluster_run_append)
qed

lemma others_continues:
  assumes "proposals (sched k) \<subseteq> C"
  shows "continues apl C c (others apl sched k c)"
proof (cases "cluster_run apl (sched k) c")
  case (Inr c')
  then show ?thesis using assms unfolding continues_def others_def by (intro exI [of _ "sched k"]) (simp add: cluster_run_forget)
qed (simp add: others_def)

lemma propose_continues:
  assumes "dict_get (rc_runtimes c) n = Some rt" "command \<in> C"
  shows "continues apl C c (put_runtime n c (fst (runtime_propose send command now (rc_transport c, rt))))"
  unfolding continues_def
  by (intro exI [of _ "[Propose n command now]"]) (use assms in \<open>simp add: with_runtime_def\<close>)

lemma cluster_act_keys: "cluster_act apl a c = Inr c' \<Longrightarrow> dict_keys (rc_runtimes c') = dict_keys (rc_runtimes c)"
proof -
  have put: "dict_keys (rc_runtimes (put_runtime n c trt)) = dict_keys (rc_runtimes c)"
    if "dict_get (rc_runtimes c) n = Some rt" for n rt trt
  proof -
    have "rc_runtimes (put_runtime n c trt) = dict_set n (snd trt) (rc_runtimes c)" by (simp add: put_runtime_def)
    then show ?thesis using dict_get_Some_key [OF that] by (simp only: dict_keys_set if_True)
  qed
  show "cluster_act apl a c = Inr c' \<Longrightarrow> dict_keys (rc_runtimes c') = dict_keys (rc_runtimes c)"
    by (cases a) (auto simp: with_runtime_def kill_def revive_def Let_def rbind_Inr_conv put simp del: dict_keys_set
      split: option.splits if_splits prod.splits)
qed

lemma continues_keys: "continues apl C c c' \<Longrightarrow> dict_keys (rc_runtimes c') = dict_keys (rc_runtimes c)"
proof -
  have "cluster_run apl acts c = Inr c' \<Longrightarrow> dict_keys (rc_runtimes c') = dict_keys (rc_runtimes c)" for acts c c'
  proof (induction acts arbitrary: c)
    case (Cons a acts)
    then show ?case using cluster_act_keys by (fastforce simp: rbind_Inr_conv)
  qed simp
  then show "continues apl C c c' \<Longrightarrow> dict_keys (rc_runtimes c') = dict_keys (rc_runtimes c)"
    unfolding continues_def using forget_simps(1) by metis
qed

section \<open>Finding the leader and proposing\<close>

abbreviation sched_cmds :: "(nat \<Rightarrow> 'c action list) \<Rightarrow> 'c set" where
  "sched_cmds sched \<equiv> \<Union> (range (\<lambda>k. proposals (sched k)))"

lemma monotonic_continues:
  "monotonic clock (others apl sched) w = (now, w') \<Longrightarrow> sched_cmds sched \<subseteq> C \<Longrightarrow> continues apl C (w_cluster w) (w_cluster w')"
  using others_continues [of sched "w_reads w" C apl "w_cluster w"] by (fastforce simp: monotonic_def)

lemma find_leader_loop_continues:
  assumes C: "sched_cmds sched \<subseteq> C"
  shows "find_leader_loop clock env deadline w = Some res \<Longrightarrow> env = others apl sched \<longrightarrow> continues apl C (w_cluster w) (w_cluster (snd res))"
proof (induction rule: find_leader_loop.raw_induct [where P = "\<lambda>clock env deadline w res. env = others apl sched \<longrightarrow>
    continues apl C (w_cluster w) (w_cluster (snd res))", rotated, consumes 1, case_names loop])
  case (loop loop clock env deadline w res)
  show ?case
  proof
    assume env: "env = others apl sched"
    obtain now w1 where m: "monotonic clock env w = (now, w1)" by force
    then have c1: "continues apl C (w_cluster w) (w_cluster w1)" using monotonic_continues C env by blast
    show "continues apl C (w_cluster w) (w_cluster (snd res))"
    proof (cases "poll_leader (w_cluster w) = None \<and> \<not> deadline \<le> now")
      case True
      then have "loop clock env deadline w1 = Some res" using loop(2) m by simp
      then show ?thesis using loop(1) env continues_trans [OF c1] by blast
    next
      case False
      then show ?thesis using loop(2) m c1 by (cases "poll_leader (w_cluster w)") auto
    qed
  qed
qed

lemma find_leader_continues:
  assumes "sched_cmds sched \<subseteq> C" "find_leader clock (others apl sched) timeout w = Some (l, w')"
  shows "continues apl C (w_cluster w) (w_cluster w')"
proof -
  obtain now w1 where m: "monotonic clock (others apl sched) w = (now, w1)" by force
  then have "find_leader_loop clock (others apl sched) (now + timeout) w1 = Some (l, w')"
    using assms(2) by (simp add: find_leader_def)
  then show ?thesis
    using continues_trans [OF monotonic_continues [OF m assms(1)]] find_leader_loop_continues [OF assms(1)] by fastforce
qed

text \<open>A proposal to the leader that was found, whatever happens before it reaches the node.\<close>

lemma leader_proposal_continues:
  assumes C: "insert command (sched_cmds sched) \<subseteq> C"
    and f: "find_leader clock (others apl sched) timeout w = Some (Some n, w1)" and m: "monotonic clock (others apl sched) w1 = (now, w2)"
  obtains rt trt entry where "dict_get (rc_runtimes (w_cluster w2)) n = Some rt"
    "runtime_propose send command now (rc_transport (w_cluster w2), rt) = (trt, entry)"
    "continues apl C (w_cluster w1) (put_runtime n (w_cluster w2) trt)"
proof -
  have sub: "sched_cmds sched \<subseteq> C" "command \<in> C" using C by auto
  have c: "continues apl C (w_cluster w1) (w_cluster w2)" using monotonic_continues [OF m sub(1)] .
  have "leads (w_cluster w1) n"
    using find_leader_loop_result f by (fastforce simp: find_leader_def found_def split: prod.splits)
  then have "n \<in> set (dict_keys (rc_runtimes (w_cluster w1)))"
    by (auto simp: leads_def dest: dict_get_Some_key split: option.splits)
  then obtain rt where rt: "dict_get (rc_runtimes (w_cluster w2)) n = Some rt"
    using continues_keys [OF c] dict_get_None_iff [of "rc_runtimes (w_cluster w2)" n] by (metis option.exhaust)
  obtain trt entry where p: "runtime_propose send command now (rc_transport (w_cluster w2), rt) = (trt, entry)" by (metis surj_pair)
  then have "continues apl C (w_cluster w1) (put_runtime n (w_cluster w2) trt)"
    using continues_trans [OF c propose_continues [OF rt sub(2), of apl now]] by simp
  then show thesis by (rule that [OF rt p])
qed

lemma propose_loop_continues:
  assumes C: "insert command (sched_cmds sched) \<subseteq> C"
  shows "propose_loop clock env cmd deadline w = Some res \<Longrightarrow> env = others apl sched \<longrightarrow> cmd = command \<longrightarrow>
    continues apl C (w_cluster w) (w_cluster (snd res)) \<and> fst res \<noteq> Inl KeyError \<and> (\<forall>err. fst res = Inl err \<longrightarrow> err = TimeoutError)"
proof (induction rule: propose_loop.raw_induct [where P = "\<lambda>clock env cmd deadline w res. env = others apl sched \<longrightarrow> cmd = command \<longrightarrow>
    continues apl C (w_cluster w) (w_cluster (snd res)) \<and> fst res \<noteq> Inl KeyError \<and> (\<forall>err. fst res = Inl err \<longrightarrow> err = TimeoutError)",
    rotated, consumes 1, case_names loop])
  case (loop loop clock env cmd deadline w res)
  have sub: "sched_cmds sched \<subseteq> C" "command \<in> C" using C by auto
  show ?case
  proof (intro impI)
    assume env: "env = others apl sched" and cmd: "cmd = command"
    note step = monotonic_continues [OF _ sub(1), of clock apl]
    let ?goal = "continues apl C (w_cluster w) (w_cluster (snd res)) \<and> fst res \<noteq> Inl KeyError \<and> (\<forall>err. fst res = Inl err \<longrightarrow> err = TimeoutError)"
    obtain now w1 where m1: "monotonic clock env w = (now, w1)" by force
    obtain now2 w2 where m2: "monotonic clock env w1 = (now2, w2)" by force
    have c2: "continues apl C (w_cluster w) (w_cluster w1)" "continues apl C (w_cluster w) (w_cluster w2)"
      using step m1 m2 continues_trans env by blast+
    show ?goal
    proof (cases "now < deadline")
      case False
      then show ?thesis using loop(2) m1 c2 by auto
    next
      case early: True
      obtain l w3 where f: "find_leader clock env (max 0 (deadline - now2)) w2 = Some (l, w3)"
        using loop(2) early m1 m2 by (auto simp: bind_eq_Some_conv)
      have c3: "continues apl C (w_cluster w) (w_cluster w3)"
        using continues_trans [OF c2(2) find_leader_continues [OF sub(1)]] f env by blast
      show ?thesis
      proof (cases l)
        case None
        then show ?thesis using loop(2) early m1 m2 f c3 by auto
      next
        case (Some n)
        obtain now4 w4 where m4: "monotonic clock env w3 = (now4, w4)" by force
        obtain rt trt entry where rt: "dict_get (rc_runtimes (w_cluster w4)) n = Some rt"
          and p: "runtime_propose send command now4 (rc_transport (w_cluster w4), rt) = (trt, entry)"
          and c5: "continues apl C (w_cluster w3) (put_runtime n (w_cluster w4) trt)"
          by (rule leader_proposal_continues [OF C f [unfolded env Some] m4 [unfolded env]])
        note c5 = continues_trans [OF c3 c5]
        show ?thesis
        proof (cases entry)
          case None
          then have "loop clock env cmd deadline
              (w4\<lparr>w_cluster := (put_runtime n (w_cluster w4) trt)\<lparr>rc_last_known_leader := None\<rparr>\<rparr>) = Some res"
            using loop(2) early m1 m2 f Some m4 rt p cmd by (simp add: Let_def)
          then have "continues apl C ((put_runtime n (w_cluster w4) trt)\<lparr>rc_last_known_leader := None\<rparr>) (w_cluster (snd res)) \<and>
              fst res \<noteq> Inl KeyError \<and> (\<forall>err. fst res = Inl err \<longrightarrow> err = TimeoutError)"
            using loop(1) env cmd by fastforce
          moreover have "continues apl C (w_cluster w) ((put_runtime n (w_cluster w4) trt)\<lparr>rc_last_known_leader := None\<rparr>)"
            using continues_trans [OF c5] by simp
          ultimately show ?thesis using continues_trans by blast
        next
          case (Some e)
          then have "res = (Inr e, w4\<lparr>w_cluster := put_runtime n (w_cluster w4) trt\<rparr>)"
            using loop(2) early m1 m2 f \<open>l = Some n\<close> m4 rt p cmd by (simp add: Let_def)
          then show ?thesis using c5 by simp
        qed
      qed
    qed
  qed
qed

section \<open>What a client relies on\<close>

text \<open>
  The contract of \<open>propose\<close>. \<open>reach C\<close> relates what the client may find to what it leaves when
  only commands of \<open>C\<close> are proposed meanwhile; \<open>bg\<close> are the commands of the others.
\<close>

locale proposer =
  fixes propose_fn :: "'c \<Rightarrow> 'w \<Rightarrow> ('c log_entry result \<times> 'w) option"
    and w_ok :: "'w \<Rightarrow> bool"
    and bg :: "'c set"
    and reach :: "'c set \<Rightarrow> 'w \<Rightarrow> 'w \<Rightarrow> bool"
  assumes reach_refl: "reach C w w"
    and reach_trans: "reach C w w1 \<Longrightarrow> reach C w1 w2 \<Longrightarrow> reach C w w2"
    and answers: "w_ok w \<Longrightarrow> insert c bg \<subseteq> C \<Longrightarrow>
      \<exists>r w'. propose_fn c w = Some (r, w') \<and> w_ok w' \<and> reach C w w' \<and> (\<forall>err. r = Inl err \<longrightarrow> err = TimeoutError)"

text \<open>The client's state is its clock, the cluster and the number of its readings; every time is passed at last.\<close>

type_synonym ('c, 's) client = "(nat \<Rightarrow> rat) \<times> ('c, 's) world"

definition client_propose ::
  "('c \<Rightarrow> 's \<Rightarrow> 's) \<Rightarrow> (nat \<Rightarrow> 'c action list) \<Rightarrow> rat \<Rightarrow> 'c \<Rightarrow> ('c, 's) client
   \<Rightarrow> ('c log_entry result \<times> ('c, 's) client) option" where
  "client_propose apl sched timeout command cw =
     map_option (\<lambda>(r, w). (r, fst cw, w)) (cluster_propose (fst cw) (others apl sched) command timeout (snd cw))"

definition clock_ok :: "(nat \<Rightarrow> rat) \<Rightarrow> bool" where
  "clock_ok clock \<longleftrightarrow> (\<forall>d. \<exists>K. \<forall>k \<ge> K. d \<le> clock k)"

lemma cluster_propose_answers:
  assumes "clock_ok clock" "insert command (sched_cmds sched) \<subseteq> C"
  shows "\<exists>r w'. cluster_propose clock (others apl sched) command timeout w = Some (r, w') \<and>
    continues apl C (w_cluster w) (w_cluster w') \<and> (\<forall>err. r = Inl err \<longrightarrow> err = TimeoutError)"
proof -
  obtain now w1 where m: "monotonic clock (others apl sched) w = (now, w1)" by force
  obtain K where "\<And>k. K \<le> k \<Longrightarrow> now + timeout \<le> clock k" using assms(1) by (auto simp: clock_ok_def)
  then obtain r w' where p: "propose_loop clock (others apl sched) command (now + timeout) w1 = Some (r, w')"
    using propose_loop_ends [of K "now + timeout" clock] assms(1) unfolding clock_ok_def by (metis surj_pair)
  have "continues apl C (w_cluster w) (w_cluster w1)" using monotonic_continues [OF m] assms(2) by blast
  then show ?thesis
    using propose_loop_continues [OF assms(2) p] continues_trans p m by (fastforce simp: cluster_propose_def)
qed

interpretation cluster_client: proposer "client_propose apl sched timeout" "\<lambda>cw. clock_ok (fst cw)" "sched_cmds sched"
  "\<lambda>C cw cw'. continues apl C (w_cluster (snd cw)) (w_cluster (snd cw'))" for apl sched timeout
proof unfold_locales
  fix cw :: "('a, 'b) client" and c C
  assume "clock_ok (fst cw)" "insert c (sched_cmds sched) \<subseteq> C"
  then show "\<exists>r w'. client_propose apl sched timeout c cw = Some (r, w') \<and> clock_ok (fst w') \<and>
      continues apl C (w_cluster (snd cw)) (w_cluster (snd w')) \<and> (\<forall>err. r = Inl err \<longrightarrow> err = TimeoutError)"
    using cluster_propose_answers [of "fst cw" c sched C apl timeout "snd cw"] by (auto simp: client_propose_def)
qed (auto intro: continues_trans)

end
