(* ===== verification/Raft_Turns.thy ===== *)
theory Raft_Turns
  imports Raft_Client Raft_Properties
begin

text \<open>
  What a thread gets from its calls while the other threads go on: a turn of a driver thread, \<open>find_leader\<close>
  and \<open>propose\<close> all end, with a result or the exception that the source names.
\<close>

section \<open>A turn of a driver thread\<close>

text \<open>Delivering an inbox is a sequence of deliveries, so that a turn raises nothing in an execution.\<close>

lemma put_runtime_again [simp]: "put_runtime n (put_runtime n c trt) trt' = put_runtime n c trt'"
  by (simp add: put_runtime_def)

lemma put_runtime_get [simp]:
  "dict_get (rc_runtimes (put_runtime n c (t, rt))) n = Some rt" "rc_transport (put_runtime n c (t, rt)) = t"
  by (simp_all add: put_runtime_def)

lemma runtime_receive_running: "runtime_receive send apl now e (t, rt) = Inr (t', rt') \<Longrightarrow> rt_running rt' = rt_running rt"
  by (auto simp: runtime_receive_def rbind_Inr_conv)

lemma deliver_loop_actions:
  "deliver_loop n (runtime_receive send apl now) k trt = Some r \<Longrightarrow> rt_running (snd trt) \<longrightarrow>
    (\<exists>j. cluster_run apl (replicate j (Deliver n now)) (put_runtime n c trt) = map_sum id (\<lambda>(k, trt). put_runtime n c trt) r)"
proof (induction rule: deliver_loop.raw_induct [where P = "\<lambda>nid handler k trt r. nid = n \<longrightarrow> handler = runtime_receive send apl now \<longrightarrow>
    rt_running (snd trt) \<longrightarrow> (\<exists>j. cluster_run apl (replicate j (Deliver n now)) (put_runtime n c trt) =
      map_sum id (\<lambda>(k, trt). put_runtime n c trt) r)", rotated, THEN mp, THEN mp, consumes 1, case_names loop refl1 refl2])
  case (loop loop nid handler k trt r)
  show ?case
  proof (intro impI)
    assume eq: "nid = n" "handler = runtime_receive send apl now" and run: "rt_running (snd trt)"
    obtain t rt where trt: "trt = (t, rt)" by force
    show "\<exists>j. cluster_run apl (replicate j (Deliver n now)) (put_runtime n c trt) = map_sum id (\<lambda>(k, trt). put_runtime n c trt) r"
    proof (cases "pop_inbox n t")
      case None
      then have "r = Inr (k, trt)" using loop(2) by (simp add: eq trt)
      then show ?thesis by (intro exI [of _ 0]) simp
    next
      case (Some et)
      then obtain e t1 where pop: "pop_inbox n t = Some (e, t1)" by (cases et) auto
      show ?thesis
      proof (cases "runtime_receive send apl now e (t1, rt)")
        case (Inl err)
        then have "r = Inl err" using loop(2) pop by (simp add: eq trt)
        then show ?thesis using Inl pop run by (intro exI [of _ 1]) (simp add: trt with_runtime_def)
      next
        case (Inr trt1)
        have "rt_running (snd trt1)"
          using runtime_receive_running [of apl now e t1 rt "fst trt1" "snd trt1"] Inr run by (simp add: trt)
        moreover have "loop nid handler (k + 1) trt1 = Some r" using loop(2) pop Inr by (simp add: eq trt)
        ultimately obtain j where "cluster_run apl (replicate j (Deliver n now)) (put_runtime n c trt1) =
            map_sum id (\<lambda>(k, trt). put_runtime n c trt) r"
          using loop(1) eq by blast
        then show ?thesis using Inr pop run by (intro exI [of _ "Suc j"]) (simp add: trt with_runtime_def)
      qed
    qed
  qed
qed simp_all

lemma cluster_turn:
  assumes rel: "cluster_rel ids c N" and sim: "simulates ids N p" and ids: "distinct ids" and n: "n \<in> set ids"
    and rt: "dict_get (rc_runtimes c) n = Some rt" "rt_running rt"
  shows "\<exists>t' rt'. run_once send deliver_to apl now (rc_transport c, rt) = Some (Inr (length (inbox_of (rc_transport c) n), t', rt')) \<and>
    inbox_of t' n = []"
proof -
  have nd: "nodes N n = rt_node rt" using cluster_relD(2) [OF rel n] rt(1) by simp
  have id: "node_id (rt_node rt) = n" "n \<notin> set (peer_ids (rt_node rt))"
    using simulatesD(4) [OF sim n] by (auto simp: nd node_ok_def peers_of_def)
  have senders: "env_sender_id e \<noteq> n" if e: "e \<in> set (inbox_of (rc_transport c) n)" for e
  proof -
    have "e \<in> in_flight (rc_transport c)" "env_recipient_id e = n"
      using e cluster_relD(3) [OF rel] by (auto simp: in_flight_def addressed_def)
    then have "Envelope (env_sender_id e) n (env_message e) \<in> wire N" using cluster_relD(4) [OF rel] by (cases e) auto
    then show ?thesis using simulatesD(5) [OF sim] by blast
  qed
  obtain r where r: "run_once send deliver_to apl now (rc_transport c, rt) = Some r"
    "\<And>k t' rt'. r = Inr (k, t', rt') \<Longrightarrow> k = length (inbox_of (rc_transport c) n) \<and> inbox_of t' n = []"
    using run_once_ends [OF id senders] by blast
  obtain t1 rt1 where t: "runtime_tick send now (rc_transport c, rt) = (t1, rt1)" by force
  have act: "cluster_act apl (Tick n now) c = Inr (put_runtime n c (t1, rt1))"
    using rt by (simp add: with_runtime_def t)
  have rt1: "rt_running rt1" "node_id (rt_node rt1) = n"
    using t rt(2) tick_sends [of "rt_node rt" now] id(1)
    by (auto simp: runtime_tick_def identity_def sends_to_def split: prod.splits)
  obtain N1 where N1: "(net_step ids apl)\<^sup>*\<^sup>* N N1" "cluster_rel ids (put_runtime n c (t1, rt1)) N1"
    using cluster_act_refines [OF rel sim, of "Tick n now" apl] n act by (auto simp: refines_act_def)
  obtain p1 where sim1: "simulates ids N1 p1" using net_run_simulates [OF N1(1) sim ids] by blast
  have rel1: "cluster_rel ids (put_runtime n c (register n t1, rt1)) N1"
    using transport_rel(2,3) [OF N1(2), of "register n t1"] cluster_relD(1,2) [OF N1(2)]
    by (simp add: cluster_rel_def put_runtime_def)
  have "deliver_loop n (runtime_receive send apl now) 0 (register n t1, rt1) = Some r"
    using r(1) by (simp add: run_once_def t rt1 deliver_to_def)
  then obtain j where j: "cluster_run apl (replicate j (Deliver n now)) (put_runtime n c (register n t1, rt1)) =
      map_sum id (\<lambda>(k, trt). put_runtime n c trt) r"
    using deliver_loop_actions [of n apl now 0 "(register n t1, rt1)" r c] rt1(1) by auto
  have "names_nodes ids a" if "a \<in> set (replicate j (Deliver n now))" for a :: "'a action"
    using that n by (auto split: if_splits)
  then have "\<exists>c'. cluster_run apl (replicate j (Deliver n now)) (put_runtime n c (register n t1, rt1)) = Inr c'"
    using cluster_run_refines [OF rel1 sim1 ids, of "replicate j (Deliver n now)" apl] by blast
  then obtain k t' rt' where "r = Inr (k, t', rt')" using j by (cases r) auto
  then show ?thesis using r by auto
qed

text \<open>
  C28: In every execution, a turn of a node's driver thread (tick, then deliver the whole inbox) ends, raises
  nothing, delivers exactly the messages that were there and leaves the inbox empty.
\<close>

theorem driver_turn_ends:
  assumes "distinct ids" "cluster_run apl acts (RaftCluster ids sm0 rnd tmin tmax hb interval) = Inr c"
    "dict_get (rc_runtimes c) n = Some rt" "rt_running rt"
  shows "\<exists>t' rt'. run_once send deliver_to apl now (rc_transport c, rt) = Some (Inr (length (inbox_of (rc_transport c) n), t', rt')) \<and>
    inbox_of t' n = []"
proof -
  obtain N p where N: "cluster_rel ids c N" and p: "simulates ids N p" by (rule cluster_reachable [OF assms(1,2)])
  have "n \<in> set ids" using dict_get_Some_key [OF assms(3)] unfolding cluster_relD(1) [OF N] .
  then show ?thesis by (rule cluster_turn [OF N p assms(1) _ assms(3,4)])
qed

theorem driver_turn_ends_witness:
  "\<exists>t' rt'. run_once send deliver_to (record_step id) 50 (rc_transport demo_end, the (dict_get (rc_runtimes demo_end) ''c'')) =
     Some (Inr (length (inbox_of (rc_transport demo_end) ''c''), t', rt')) \<and> inbox_of t' ''c'' = []"
proof -
  have run: "rt_running (the (dict_get (rc_runtimes demo_end) ''c''))" by code_simp
  have "dict_get (rc_runtimes demo_end) ''c'' \<noteq> None" by code_simp
  then have "dict_get (rc_runtimes demo_end) ''c'' = Some (the (dict_get (rc_runtimes demo_end) ''c''))" by simp
  from driver_turn_ends [OF demo_names(1) demo_run [unfolded demo_start_def] this run] show ?thesis .
qed

text \<open>
  While the other threads and fault injection go on, find_leader ends once the clock has passed its
  deadline. A node it returns is alive and leads; None means that the deadline has passed.
\<close>

lemma find_leader_returns:
  assumes "clock_ok clock"
  shows "\<exists>l w'. find_leader clock env timeout w = Some (l, w') \<and> w_reads w < w_reads w' \<and>
    (case l of Some n \<Rightarrow> leads (w_cluster w') n \<and> rc_last_known_leader (w_cluster w') = Some n
     | None \<Rightarrow> clock (w_reads w) + timeout \<le> clock (w_reads w' - 1))"
proof -
  obtain now w1 where m: "monotonic clock env w = (now, w1)" by force
  then have now: "now = clock (w_reads w)" "w_reads w1 = Suc (w_reads w)" by (auto simp: monotonic_def)
  obtain K where "\<And>k. K \<le> k \<Longrightarrow> now + timeout \<le> clock k" using assms by (auto simp: clock_ok_def)
  then obtain res where res: "find_leader_loop clock env (now + timeout) w1 = Some res"
    using find_leader_loop_ends [of K "now + timeout" clock env w1] by blast
  then show ?thesis
    using find_leader_loop_result [OF res] m now
    by (intro exI [of _ "fst res"] exI [of _ "snd res"]) (auto simp: find_leader_def found_def split: option.splits prod.splits)
qed

definition demo_clock :: "nat \<Rightarrow> rat" where
  "demo_clock k = 50 + of_nat k"

lemma demo_clock_ok: "clock_ok demo_clock"
  unfolding clock_ok_def
proof
  fix d :: rat
  obtain K :: nat where "d < of_nat K" using reals_Archimedean2 by blast
  then show "\<exists>K. \<forall>k \<ge> K. d \<le> demo_clock k"
    by (intro exI [of _ K]) (auto simp: demo_clock_def intro: order_trans [OF less_imp_le] add_increasing)
qed



end
