(* ===== verification/Raft_Divergences.thy ===== *)
theory Raft_Divergences
  imports Raft_Turns
begin

text \<open>
  Two places where the node does not do what its comments say: a prevote reply that arrives after the
  node has heard from a leader, and clusters of one node.
\<close>

section \<open>Late prevote replies\<close>

text \<open>What decides whether a prevote reply counts.\<close>

definition prevote_view :: "('c, 's) raft_node \<Rightarrow> string set \<times> int \<times> string list \<times> node_state \<times> int" where
  "prevote_view nd = (prevotes_received nd, prevote_target_term nd, peer_ids nd, state nd, current_term nd)"

lemma prevote_view_simps [simp]:
  "prevote_view (nd\<lparr>commit_index := k\<rparr>) = prevote_view nd" "prevote_view (nd\<lparr>last_applied := k\<rparr>) = prevote_view nd"
  "prevote_view (nd\<lparr>state_machine := s\<rparr>) = prevote_view nd"
  by (simp_all add: prevote_view_def current_term_def)

lemma append_loop_term: "append_loop idx es st = Inr st' \<Longrightarrow> st_current_term st' = st_current_term st"
proof (induction idx es st rule: append_loop.induct)
  case (2 idx entry rest st)
  then show ?case by (auto simp: Let_def truncate_from_def append_log_def split: if_splits)
qed simp

lemma apply_committed_view: "apply_committed apl nd = Inr nd' \<Longrightarrow> prevote_view nd' = prevote_view nd"
proof (induction apl nd rule: apply_committed.induct)
  case (1 apl nd)
  show ?case
  proof (cases "last_applied nd < commit_index nd")
    case True
    then obtain entry where "get_entry (storage nd) (last_applied nd + 1) = Some entry"
      using 1(2) by (cases "get_entry (storage nd) (last_applied nd + 1)") (simp_all add: apply_committed.simps [of apl nd])
    then show ?thesis using 1 True by (simp add: apply_committed.simps [of apl nd])
  qed (use 1(2) in \<open>simp add: apply_committed.simps [of apl nd]\<close>)
qed

lemma accept_entries_view:
  assumes "accept_entries apl args ct nd = Inr (nd', reply)"
  shows "prevote_view nd' = prevote_view nd"
proof -
  obtain st where st: "append_loop (aea_prev_log_index args + 1) (aea_entries args) (storage nd) = Inr st"
      "prevote_view nd' = prevote_view (nd\<lparr>storage := st\<rparr>)"
    using assms by (auto simp: accept_entries_def rbind_Inr_conv Let_def dest: apply_committed_view split: if_splits)
  then show ?thesis using append_loop_term [OF st(1)] by (simp add: prevote_view_def current_term_def get_current_term_def)
qed

text \<open>A node that hears from the leader of its own term follows it, and keeps the prevotes it has collected.\<close>

lemma append_entries_view:
  assumes "handle_append_entries apl args now nd = Inr (nd', reply)" "aea_term args = current_term nd"
  shows "prevote_view nd' = prevote_view (nd\<lparr>state := FOLLOWER\<rparr>)"
proof -
  have dec: "append_decision apl args (current_term nd) (follow (aea_leader_id args) now nd) = Inr (nd', reply)"
    using assms by (simp add: handle_append_entries_eq catch_up_def Let_def)
  have fol: "prevote_view (follow l now nd) = prevote_view (nd\<lparr>state := FOLLOWER\<rparr>)" for l
    by (simp add: prevote_view_def follow_def reset_election_deadline_def current_term_def)
  show ?thesis
    using dec accept_entries_view [of apl args "current_term nd" "follow (aea_leader_id args) now nd" nd' reply] fol
    by (auto simp: append_decision_def Let_def split: if_splits)
qed

text \<open>
  C39: A node that asked for prevotes and then heard from the leader of its term still counts a late grant
  for that round: with a majority of grants it starts an election and moves to the next term, although
  it follows a live leader.
\<close>

theorem late_prevote_starts_election:
  assumes "prevote_target_term nd = current_term nd + 1" "aea_term args = current_term nd"
    "handle_append_entries apl args now nd = Inr (nd1, reply1)"
    "pvr_term reply \<le> current_term nd" "pvr_vote_granted reply"
    "majority_of nd \<le> int (card (insert (pvr_voter_id reply) (prevotes_received nd)))"
  shows "current_term (fst (handle_prevote_reply reply now' nd1)) = current_term nd + 1"
proof -
  have v: "prevotes_received nd1 = prevotes_received nd" "prevote_target_term nd1 = prevote_target_term nd"
    "peer_ids nd1 = peer_ids nd" "state nd1 = FOLLOWER" "current_term nd1 = current_term nd"
    using append_entries_view [OF assms(3,2)] by (simp_all add: prevote_view_def current_term_def)
  have lead: "current_term (fst (maybe_become_leader_from_votes now' nd')) = current_term nd'" for nd' :: "('a, 'b) raft_node"
    by (simp add: maybe_become_leader_from_votes_def become_leader_def broadcast_append_entries_def Let_def current_term_def)
  have cand: "current_term (fst (become_candidate now' nd')) = current_term nd' + 1" for nd' :: "('a, 'b) raft_node"
    using lead by (simp add: become_candidate_def Let_def case_prod_beta reset_election_deadline_def current_term_def)
  show ?thesis
    using assms(1,4-6) v cand [of "nd1\<lparr>prevotes_received := insert (pvr_voter_id reply) (prevotes_received nd1)\<rparr>"]
    by (simp add: handle_prevote_reply_def maybe_win_prevote_def majority_of_def current_term_def)
qed

definition demo_waiting :: "(string, (string, string) recording_machine) raft_node" where
  "demo_waiting = fst (start_prevote 20 (node_of demo_end ''b''))"

theorem late_prevote_starts_election_witness:
  "\<exists>nd1 reply1. handle_append_entries (record_step id) (AppendEntriesArgs 1 ''a'' 1 1 [] 1) 21 demo_waiting = Inr (nd1, reply1) \<and>
     current_term (fst (handle_prevote_reply (PreVoteReply 1 True ''c'') 22 nd1)) = 2"
proof -
  let ?h = "handle_append_entries (record_step id) (AppendEntriesArgs 1 ''a'' 1 1 [] 1) 21 demo_waiting"
  have "isl ?h = False" by code_simp
  then obtain nd1 reply1 where h: "?h = Inr (nd1, reply1)" by (cases ?h) auto
  have "current_term demo_waiting = 1" "prevote_target_term demo_waiting = 2" "majority_of demo_waiting = 2"
    "card (insert ''c'' (prevotes_received demo_waiting)) = 2" by code_simp+
  then show ?thesis using late_prevote_starts_election [OF _ _ h, of "PreVoteReply 1 True ''c''" 22] h by auto
qed

section \<open>A cluster of one node\<close>

definition settled_view :: "('c, 's) raft_node \<Rightarrow> int \<times> 's" where
  "settled_view nd = (commit_index nd, state_machine nd)"

lemma settled_view_simps [simp]:
  "settled_view (nd\<lparr>storage := st\<rparr>) = settled_view nd" "settled_view (nd\<lparr>state := r\<rparr>) = settled_view nd"
  "settled_view (nd\<lparr>leader_id := l\<rparr>) = settled_view nd" "settled_view (nd\<lparr>votes_received := v\<rparr>) = settled_view nd"
  "settled_view (nd\<lparr>prevotes_received := v\<rparr>) = settled_view nd" "settled_view (nd\<lparr>prevote_target_term := t\<rparr>) = settled_view nd"
  "settled_view (nd\<lparr>next_index := d\<rparr>) = settled_view nd" "settled_view (nd\<lparr>match_index := d\<rparr>) = settled_view nd"
  "settled_view (nd\<lparr>next_heartbeat_deadline := x\<rparr>) = settled_view nd" "settled_view (reset_election_deadline now nd) = settled_view nd"
  by (simp_all add: settled_view_def reset_election_deadline_def)

lemma tick_settled:
  fixes nd :: "('c, 's) raft_node"
  shows "settled_view (fst (tick now nd)) = settled_view nd"
proof -
  have lead: "settled_view (fst (maybe_become_leader_from_votes now nd)) = settled_view nd" for nd :: "('c, 's) raft_node"
    by (simp add: maybe_become_leader_from_votes_def become_leader_def broadcast_append_entries_def Let_def)
  have cand: "settled_view (fst (become_candidate now nd)) = settled_view nd" for nd :: "('c, 's) raft_node"
    by (simp add: become_candidate_def Let_def case_prod_beta lead)
  have "settled_view (fst (start_prevote now nd)) = settled_view nd"
    by (simp add: start_prevote_def maybe_win_prevote_def Let_def case_prod_beta cand)
  then show ?thesis by (simp add: tick_def broadcast_append_entries_def Let_def)
qed

definition alone :: "string \<Rightarrow> 's \<Rightarrow> ('c, 's) raft_cluster \<Rightarrow> bool" where
  "alone n sm0 c \<longleftrightarrow> (\<exists>rt. rc_runtimes c = [(n, rt)] \<and> peer_ids (rt_node rt) = [] \<and> settled_view (rt_node rt) = (0, sm0)) \<and>
     (\<forall>m. inbox_of (rc_transport c) m = [])"

lemma alone_put:
  assumes "alone n sm0 c" "peer_ids (rt_node rt) = []" "settled_view (rt_node rt) = (0, sm0)" "\<And>m. inbox_of t m = []"
  shows "alone n sm0 (put_runtime n c (t, rt))"
  using assms by (auto simp: alone_def put_runtime_def)

lemma alone_act:
  assumes al: "alone n sm0 c" and run: "cluster_act apl a c = Inr c'"
  shows "alone n sm0 c'"
proof -
  obtain rt where rt: "rc_runtimes c = [(n, rt)]" "peer_ids (rt_node rt) = []" "settled_view (rt_node rt) = (0, sm0)"
    and inbox: "\<And>m. inbox_of (rc_transport c) m = []"
    using al by (auto simp: alone_def)
  have get: "dict_get (rc_runtimes c) m = (if m = n then Some rt else None)" for m by (simp add: rt(1))
  note put = alone_put [OF al]
  have res: thesis if "with_runtime m c f = Inr c'" "m = n \<Longrightarrow> f rt = Inr c' \<Longrightarrow> thesis" for m f thesis
    using that by (auto simp: with_runtime_def get split: if_splits)
  show ?thesis
  proof (cases a)
    case (Start m now)
    show ?thesis
      by (rule res [OF run [unfolded Start cluster_act.simps]])
        (use rt inbox in \<open>auto simp: runtime_start_def start_node_def intro!: put\<close>)
  next
    case (Tick m now)
    obtain nd out where t: "tick now (rt_node rt) = (nd, out)" by force
    have "peer_ids nd = []" "out = []"
      using tick_sends [of "rt_node rt" now] rt(2) by (simp_all add: t sends_to_def identity_def)
    moreover have "settled_view nd = (0, sm0)" using tick_settled [of now "rt_node rt"] rt(3) by (simp add: t)
    ultimately have next_c: "alone n sm0 (put_runtime n c (runtime_tick send now (rc_transport c, rt)))"
      using inbox by (simp add: runtime_tick_def t send_all_def put)
    show ?thesis
      by (rule res [OF run [unfolded Tick cluster_act.simps]]) (use al next_c in \<open>simp split: if_splits\<close>)
  next
    case (Deliver m now)
    have pop: "pop_inbox m (rc_transport c) = None" by (simp add: pop_inbox_def inbox)
    show ?thesis
      by (rule res [OF run [unfolded Deliver cluster_act.simps]]) (use al pop in \<open>simp split: if_splits\<close>)
  next
    case (Propose m command now)
    have next_c: "alone n sm0 (put_runtime n c (fst (runtime_propose send command now (rc_transport c, rt))))"
      using rt inbox by (simp add: runtime_propose_def propose_def broadcast_append_entries_def Let_def send_all_def put)
    show ?thesis by (rule res [OF run [unfolded Propose cluster_act.simps]]) (use next_c in simp)
  next
    case (Kill m)
    show ?thesis
      by (rule res [OF run [unfolded Kill cluster_act.simps kill_def]])
        (use rt inbox in \<open>auto simp: runtime_stop_def intro!: put\<close>)
  next
    case (Revive m rnd now)
    let ?rt = "runtime_start now (build_runtime n (dict_keys (rc_runtimes c)) (storage (rt_node rt)) (state_machine (rt_node rt)) rnd c)"
    have fresh: "peer_ids (rt_node ?rt) = []" "settled_view (rt_node ?rt) = (0, sm0)"
      using rt by (simp_all add: runtime_start_def start_node_def build_runtime_def RaftNodeRuntime_def RaftNode_def
          peers_of_def settled_view_def reset_election_deadline_def)
    show ?thesis
      by (rule res [OF run [unfolded Revive cluster_act.simps revive_def]]) (use inbox fresh in \<open>auto simp: Let_def intro!: put\<close>)
  qed (use run al in \<open>auto simp: alone_def\<close>)
qed

text \<open>
  C40: A cluster of one node never commits anything: the commit index is only advanced when a reply of a
  peer arrives, so what a lone leader accepts stays in its log and never reaches its state machine.
\<close>

theorem single_node_never_commits:
  fixes c :: "('c, 's) raft_cluster"
  assumes "cluster_run apl acts (RaftCluster [n] sm0 rnd tmin tmax hb interval) = Inr c"
  shows "commit_index (node_of c n) = 0 \<and> state_machine (node_of c n) = sm0"
proof -
  have "alone n sm0 (RaftCluster [n] sm0 rnd tmin tmax hb interval :: ('c, 's) raft_cluster)"
    by (simp add: alone_def RaftCluster_def Let_def build_runtime_def RaftNodeRuntime_def RaftNode_def peers_of_def settled_view_def)
  then have "alone n sm0 c"
    using assms
  proof (induction acts arbitrary: c rule: rev_induct)
    case (snoc a acts)
    then show ?case using alone_act by (fastforce simp: cluster_run_append rbind_Inr_conv)
  qed simp
  then show ?thesis by (auto simp: alone_def settled_view_def)
qed

definition lone_actions :: "string action list" where
  "lone_actions = [Start ''a'' 0, Tick ''a'' 5, Propose ''a'' ''debit'' 6, Tick ''a'' 7, Tick ''a'' 8]"

theorem single_node_never_commits_witness:
  "\<exists>c. cluster_run (record_step id) lone_actions (RaftCluster [''a''] RecordingStateMachine demo_random 3 6 1 1) = Inr c \<and>
     is_leader (node_of c ''a'') \<and> node_log (node_of c ''a'') \<noteq> [] \<and> commit_index (node_of c ''a'') = 0"
proof -
  let ?c0 = "RaftCluster [''a''] RecordingStateMachine demo_random 3 6 1 1 :: (string, (string, string) recording_machine) raft_cluster"
  have "case cluster_run (record_step id) lone_actions ?c0 of Inl e \<Rightarrow> False
    | Inr c \<Rightarrow> is_leader (node_of c ''a'') \<and> node_log (node_of c ''a'') \<noteq> []" by code_simp
  then obtain c where c: "cluster_run (record_step id) lone_actions ?c0 = Inr c" "is_leader (node_of c ''a'')" "node_log (node_of c ''a'') \<noteq> []"
    by (cases "cluster_run (record_step id) lone_actions ?c0") auto
  then show ?thesis using single_node_never_commits [OF c(1)] by blast
qed

end
