(* ===== verification/Raft_Majority.thy ===== *)
theory Raft_Majority
  imports Raft_Turns
begin

text \<open>
  Runs of a cluster in which only a majority of the nodes takes part: what its nodes see, the steps they can take at a clock that
  never runs backwards, a fresh start after which all of them run with empty inboxes, and a question that one of them asks all
  others. The network between them is cut and joined as needed, which is how messages get lost in raft/transport.py.
\<close>

section \<open>What a majority sees and does\<close>

definition reachable_state :: "string list \<Rightarrow> ('c, 's) raft_cluster \<Rightarrow> bool" where
  "reachable_state ids c \<longleftrightarrow> distinct ids \<and> (\<exists>N p. cluster_rel ids c N \<and> simulates ids N p)"

text \<open>The actions that a majority \<open>Q\<close> takes: its nodes are revived, tick, receive and propose only the given command.\<close>

fun quorum_action :: "string set \<Rightarrow> 'c \<Rightarrow> 'c action \<Rightarrow> bool" where
  "quorum_action Q command (Tick n now) \<longleftrightarrow> n \<in> Q"
| "quorum_action Q command (Deliver n now) \<longleftrightarrow> n \<in> Q"
| "quorum_action Q command (Propose n c now) \<longleftrightarrow> n \<in> Q \<and> c = command"
| "quorum_action Q command (Revive n rnd now) \<longleftrightarrow> n \<in> Q"
| "quorum_action Q command (Partition ns) \<longleftrightarrow> set ns \<subseteq> Q"
| "quorum_action Q command (Rejoin ns) \<longleftrightarrow> set ns \<subseteq> Q"
| "quorum_action Q command _ \<longleftrightarrow> False"

text \<open>The clock that the actions read never runs backwards: they lie between the times \<open>t\<close> and \<open>t'\<close>, in this order.\<close>

fun action_time :: "'c action \<Rightarrow> rat option" where
  "action_time (Start n now) = Some now"
| "action_time (Tick n now) = Some now"
| "action_time (Deliver n now) = Some now"
| "action_time (Propose n c now) = Some now"
| "action_time (Revive n rnd now) = Some now"
| "action_time _ = None"

fun timed :: "rat \<Rightarrow> 'c action list \<Rightarrow> rat \<Rightarrow> bool" where
  "timed t [] t' \<longleftrightarrow> t \<le> t'"
| "timed t (a # acts) t' \<longleftrightarrow> (case action_time a of None \<Rightarrow> timed t acts t' | Some now \<Rightarrow> t \<le> now \<and> timed now acts t')"

lemma timed_append: "timed t acts t1 \<Longrightarrow> timed t1 acts' t2 \<Longrightarrow> timed t (acts @ acts') t2"
proof (induction acts arbitrary: t)
  case Nil
  then show ?case by (induction acts' arbitrary: t t1) (auto split: option.splits)
qed (auto split: option.splits)

text \<open>The majority can lead the cluster from one state to another.\<close>

fun can :: "('c \<Rightarrow> 's \<Rightarrow> 's) \<Rightarrow> string set \<Rightarrow> 'c \<Rightarrow> rat \<times> ('c, 's) raft_cluster \<Rightarrow> rat \<times> ('c, 's) raft_cluster \<Rightarrow> bool" where
  "can apl Q command (t, c) (t', c') \<longleftrightarrow>
     (\<exists>acts. cluster_run apl acts c = Inr c' \<and> list_all (quorum_action Q command) acts \<and> timed t acts t')"

declare can.simps [simp del]

lemma can_refl: "can apl Q command s s"
  by (cases s) (auto simp: can.simps intro!: exI [of _ "[]"])

lemma can_act: "cluster_act apl a c = Inr c' \<Longrightarrow> quorum_action Q command a \<Longrightarrow> timed t [a] t' \<Longrightarrow> can apl Q command (t, c) (t', c')"
  unfolding can.simps by (rule exI [of _ "[a]"]) simp

lemma can_trans:
  assumes "can apl Q command s s1" "can apl Q command s1 s2"
  shows "can apl Q command s s2"
proof -
  obtain t c t1 c1 t2 c2 where [simp]: "s = (t, c)" "s1 = (t1, c1)" "s2 = (t2, c2)" by (cases s, cases s1, cases s2)
  obtain as bs where "cluster_run apl as c = Inr c1" "cluster_run apl bs c1 = Inr c2" "timed t as t1" "timed t1 bs t2"
    "list_all (quorum_action Q command) as" "list_all (quorum_action Q command) bs"
    using assms by (auto simp: can.simps)
  then show ?thesis by (auto simp: can.simps cluster_run_append timed_append intro!: exI [of _ "as @ bs"])
qed

lemma act_possible:
  assumes "reachable_state ids c" "Q \<subseteq> set ids" "quorum_action Q command a" "timed T [a] T'"
  obtains c' where "cluster_act apl a c = Inr c'" "reachable_state ids c'" "can apl Q command (T, c) (T', c')"
proof -
  obtain N p where s: "distinct ids" "cluster_rel ids c N" "simulates ids N p" using assms(1) by (auto simp: reachable_state_def)
  have "names_nodes ids a" using assms(2,3) by (cases a) auto
  then obtain c' N' where c': "cluster_act apl a c = Inr c'" "(net_step ids apl)\<^sup>*\<^sup>* N N'" "cluster_rel ids c' N'"
    using cluster_act_refines [OF s(2,3), of a apl] by (auto simp: refines_act_def)
  moreover obtain p' where "simulates ids N' p'" using net_run_simulates [OF c'(2) s(3,1)] by blast
  ultimately have "reachable_state ids c'" using s(1) by (auto simp: reachable_state_def)
  then show thesis using that c'(1) can_act [OF c'(1) assms(3,4)] by blast
qed

text \<open>The running nodes of \<open>Q\<close>, their inboxes, and which of them are cut off.\<close>

definition quorum_view ::
  "string set \<Rightarrow> ('c, 's) raft_cluster \<Rightarrow> (string \<Rightarrow> ('c, 's) raft_node) \<Rightarrow> (string \<Rightarrow> 'c envelope list) \<Rightarrow> string set \<Rightarrow> bool" where
  "quorum_view Q c N B X \<longleftrightarrow> partitioned (rc_transport c) \<inter> Q = X \<and>
     (\<forall>n \<in> Q. \<exists>rt. dict_get (rc_runtimes c) n = Some rt \<and> rt_running rt \<and> rt_node rt = N n \<and> inbox_of (rc_transport c) n = B n)"

definition live ::
  "string list \<Rightarrow> string set \<Rightarrow> ('c, 's) raft_cluster \<Rightarrow> (string \<Rightarrow> ('c, 's) raft_node) \<Rightarrow> (string \<Rightarrow> 'c envelope list) \<Rightarrow> string set \<Rightarrow> bool" where
  "live ids Q c N B X \<longleftrightarrow> reachable_state ids c \<and> Q \<subseteq> set ids \<and> quorum_view Q c N B X"

lemma live_runtime:
  assumes "live ids Q c N B X" "n \<in> Q"
  obtains rt where "dict_get (rc_runtimes c) n = Some rt" "rt_running rt" "rt_node rt = N n" "inbox_of (rc_transport c) n = B n"
  using assms unfolding live_def quorum_view_def by blast

text \<open>Only the nodes of \<open>Q\<close> matter.\<close>

lemma live_cong:
  assumes "live ids Q c N B X" "\<And>n. n \<in> Q \<Longrightarrow> N' n = N n" "\<And>n. n \<in> Q \<Longrightarrow> B' n = B n"
  shows "live ids Q c N' B' X"
  using assms unfolding live_def quorum_view_def by fastforce

lemma live_inv:
  assumes "live ids Q c N B X"
  obtains p where "pinv (majorities (set ids)) p" "\<forall>n \<in> Q. pn p n = abs_node (N n) \<and> node_ok ids n (N n)"
proof -
  obtain M p where s: "cluster_rel ids c M" "simulates ids M p" and Q: "Q \<subseteq> set ids"
    using assms by (auto simp: live_def reachable_state_def)
  have "nodes M n = N n" if n: "n \<in> Q" for n
    using cluster_relD(2) [OF s(1) subsetD [OF Q n]] n by (auto elim!: live_runtime [OF assms])
  then show thesis
    using that [of p] simulatesD(1,3,4) [OF s(2)] Q by (metis subsetD)
qed

lemma live_ok:
  assumes "live ids Q c N B X" "n \<in> Q"
  shows "node_ok ids n (N n)"
proof -
  obtain p where "pinv (majorities (set ids)) p" "\<forall>n \<in> Q. pn p n = abs_node (N n) \<and> node_ok ids n (N n)"
    by (rule live_inv [OF assms(1)])
  then show ?thesis using assms(2) by blast
qed

text \<open>What a node's outbox adds to the inbox of another.\<close>

definition mail :: "string set \<Rightarrow> string \<Rightarrow> 'c outbox \<Rightarrow> string \<Rightarrow> 'c envelope list" where
  "mail X n out d = (if n \<in> X \<or> d \<in> X then [] else map (\<lambda>(_, m). Envelope n d m) (filter (\<lambda>(r, _). r = d) out))"

lemma send_all_mail:
  "inbox_of (send_all send n out t) d = inbox_of t d @ mail (partitioned t) n out d"
  "partitioned (send_all send n out t) = partitioned t"
proof (induction out arbitrary: t)
  case (Cons x out)
  {
    case 1
    then show ?case using Cons by (cases x) (auto simp: send_all_def mail_def)
  next
    case 2
    then show ?case using Cons by (cases x) (auto simp: send_all_def)
  }
qed (simp_all add: send_all_def mail_def)

lemma mail_cut: "n \<in> Q \<Longrightarrow> d \<in> Q \<Longrightarrow> mail P n out d = mail (P \<inter> Q) n out d"
  by (simp add: mail_def)

lemma mail_nothing [simp]: "mail X n [] d = []"
  by (simp add: mail_def)

text \<open>A method call of a node of \<open>Q\<close> that takes \<open>es\<close> as what is left in its inbox.\<close>

lemma live_put:
  assumes v: "quorum_view Q c N B X" and n: "n \<in> Q" and rt: "rt_running rt" "rt_node rt = nd" and id: "node_id nd = n"
    and t: "partitioned t = partitioned (rc_transport c)" "\<And>d. inbox_of t d = (if d = n then es else inbox_of (rc_transport c) d)"
  shows "quorum_view Q (put_runtime n c (send_all send (node_id nd) out t, rt)) (N(n := nd)) (\<lambda>d. (B(n := es)) d @ mail X n out d) X"
proof -
  have X: "X = partitioned t \<inter> Q" using v t(1) by (auto simp: quorum_view_def)
  have "\<exists>rt'. dict_get (dict_set n rt (rc_runtimes c)) d = Some rt' \<and> rt_running rt' \<and> rt_node rt' = (N(n := nd)) d \<and>
      inbox_of (send_all send n out t) d = (B(n := es)) d @ mail X n out d" if d: "d \<in> Q" for d
  proof (cases "d = n")
    case True
    then show ?thesis using rt t(2) by (simp add: send_all_mail X mail_cut [OF n n, of "partitioned t"] del: mail_nothing)
  next
    case False
    moreover obtain rt' where "dict_get (rc_runtimes c) d = Some rt'" "rt_running rt'" "rt_node rt' = N d" "inbox_of (rc_transport c) d = B d"
      using v d by (auto simp: quorum_view_def)
    ultimately show ?thesis using t(2) by (simp add: send_all_mail X mail_cut [OF n d, of "partitioned t"])
  qed
  then show ?thesis using X id by (simp add: quorum_view_def put_runtime_def send_all_mail)
qed

lemma deliver_step:
  assumes live: "live ids Q c N B X" and n: "n \<in> Q" and box: "B n = e # es" and T: "T \<le> now" and run: "receive apl e now (N n) = Inr (nd, out)"
  obtains c' where "can apl Q command (T, c) (now, c')" "live ids Q c' (N(n := nd)) (\<lambda>d. (B(n := es)) d @ mail X n out d) X"
proof -
  obtain rt where rt: "dict_get (rc_runtimes c) n = Some rt" "rt_running rt" "rt_node rt = N n" "inbox_of (rc_transport c) n = B n"
    by (rule live_runtime [OF live n])
  let ?t = "(rc_transport c)\<lparr>inboxes := dict_set n es (inboxes (rc_transport c))\<rparr>"
  have id: "node_id nd = n" using receive_sends [OF run] node_okD(1) [OF live_ok [OF live n]] by (simp add: identity_def)
  obtain c' where c': "cluster_act apl (Deliver n now) c = Inr c'" "reachable_state ids c'" "can apl Q command (T, c) (now, c')"
    using act_possible [of ids c Q command "Deliver n now" T now apl] live n T by (auto simp: live_def)
  have eq: "c' = put_runtime n c (send_all send (node_id nd) out ?t, rt\<lparr>rt_node := nd\<rparr>)"
    using c'(1) rt run box by (simp add: with_runtime_def pop_inbox_def runtime_receive_def)
  have "quorum_view Q c' (N(n := nd)) (\<lambda>d. (B(n := es)) d @ mail X n out d) X"
    unfolding eq using live rt(2) id by (intro live_put [OF _ n]) (auto simp: live_def)
  then show thesis using that c'(2,3) live by (simp add: live_def)
qed

lemma tick_step:
  assumes live: "live ids Q c N B X" and n: "n \<in> Q" and T: "T \<le> now" and run: "tick now (N n) = (nd, out)"
  obtains c' where "can apl Q command (T, c) (now, c')" "live ids Q c' (N(n := nd)) (\<lambda>d. B d @ mail X n out d) X"
proof -
  obtain rt where rt: "dict_get (rc_runtimes c) n = Some rt" "rt_running rt" "rt_node rt = N n" "inbox_of (rc_transport c) n = B n"
    by (rule live_runtime [OF live n])
  have id: "node_id nd = n" using tick_sends [of "N n" now] run node_okD(1) [OF live_ok [OF live n]] by (simp add: identity_def sends_to_def)
  obtain c' where c': "cluster_act apl (Tick n now) c = Inr c'" "reachable_state ids c'" "can apl Q command (T, c) (now, c')"
    using act_possible [of ids c Q command "Tick n now" T now apl] live n T by (auto simp: live_def)
  have eq: "c' = put_runtime n c (send_all send (node_id nd) out (rc_transport c), rt\<lparr>rt_node := nd\<rparr>)"
    using c'(1) rt run by (simp add: with_runtime_def runtime_tick_def)
  have "quorum_view Q c' (N(n := nd)) (\<lambda>d. (B(n := B n)) d @ mail X n out d) X"
    unfolding eq using live rt(2,4) id by (intro live_put [OF _ n]) (auto simp: live_def)
  then show thesis using that c'(2,3) live by (simp add: live_def)
qed

lemma propose_step:
  assumes live: "live ids Q c N B X" and n: "n \<in> Q" and T: "T \<le> now" and run: "propose command now (N n) = (nd, out, entry)"
  obtains c' where "can apl Q command (T, c) (now, c')" "live ids Q c' (N(n := nd)) (\<lambda>d. B d @ mail X n out d) X"
proof -
  obtain rt where rt: "dict_get (rc_runtimes c) n = Some rt" "rt_running rt" "rt_node rt = N n" "inbox_of (rc_transport c) n = B n"
    by (rule live_runtime [OF live n])
  have id: "node_id nd = n"
    using run node_okD(1) [OF live_ok [OF live n]] by (auto simp: propose_def Let_def broadcast_append_entries_def split: if_splits)
  obtain c' where c': "cluster_act apl (Propose n command now) c = Inr c'" "reachable_state ids c'" "can apl Q command (T, c) (now, c')"
    using act_possible [of ids c Q command "Propose n command now" T now apl] live n T by (auto simp: live_def)
  have eq: "c' = put_runtime n c (send_all send (node_id nd) out (rc_transport c), rt\<lparr>rt_node := nd\<rparr>)"
    using c'(1) rt run by (simp add: with_runtime_def runtime_propose_def)
  have "quorum_view Q c' (N(n := nd)) (\<lambda>d. (B(n := B n)) d @ mail X n out d) X"
    unfolding eq using live rt(2,4) id by (intro live_put [OF _ n]) (auto simp: live_def)
  then show thesis using that c'(2,3) live by (simp add: live_def)
qed

text \<open>The network between the nodes of \<open>Q\<close> is cut and joined as needed.\<close>

lemma cut_to:
  assumes live: "live ids Q c N B X" and Y: "Y \<subseteq> Q"
  obtains c' where "can apl Q command (T, c) (T, c')" "live ids Q c' N B Y"
proof -
  have fin: "finite Q" using live finite_subset by (auto simp: live_def)
  obtain ns ms where ns: "set ns = Q" and ms: "set ms = Y" using finite_list fin finite_subset [OF Y fin] by metis
  obtain c1 where c1: "cluster_act apl (Rejoin ns) c = Inr c1" "reachable_state ids c1" "can apl Q command (T, c) (T, c1)"
    using act_possible [of ids c Q command "Rejoin ns" T T apl] live ns by (auto simp: live_def)
  obtain c2 where c2: "cluster_act apl (Partition ms) c1 = Inr c2" "reachable_state ids c2" "can apl Q command (T, c1) (T, c2)"
    using act_possible [of ids c1 Q command "Partition ms" T T apl] live ms Y c1(2) by (auto simp: live_def)
  have "quorum_view Q c2 N B Y"
    using live c1(1) c2(1) ns ms Y by (auto simp: live_def quorum_view_def)
  then show thesis using that can_trans [OF c1(3) c2(3)] c2(2) live by (simp add: live_def)
qed

section \<open>A fresh start\<close>

definition fresh :: "('c, 's) raft_node \<Rightarrow> bool" where
  "fresh nd \<longleftrightarrow> state nd = FOLLOWER \<and> leader_id nd = None \<and> last_applied nd = commit_index nd"

definition revived :: "('c, 's) raft_cluster \<Rightarrow> string \<Rightarrow> bool" where
  "revived c n \<longleftrightarrow> (\<exists>rt. dict_get (rc_runtimes c) n = Some rt \<and> rt_running rt \<and> fresh (rt_node rt))"

lemma revive_all:
  assumes "reachable_state ids c" "Q \<subseteq> set ids" "set ns \<subseteq> Q"
  shows "\<exists>c'. can apl Q command (T, c) (T, c') \<and> reachable_state ids c' \<and> partitioned (rc_transport c') = partitioned (rc_transport c) - set ns \<and>
    (\<forall>d. inbox_of (rc_transport c') d = inbox_of (rc_transport c) d) \<and> (\<forall>n. n \<in> set ns \<or> revived c n \<longrightarrow> revived c' n)"
  using assms
proof (induction ns arbitrary: c)
  case Nil
  then show ?case using can_refl [of apl Q command "(T, c)"] by auto
next
  case (Cons n ns)
  obtain c1 where c1: "cluster_act apl (Revive n (\<lambda>k lo hi. lo) T) c = Inr c1" "reachable_state ids c1" "can apl Q command (T, c) (T, c1)"
    using act_possible [OF Cons.prems(1,2), of command "Revive n (\<lambda>k lo hi. lo) T" T T apl] Cons.prems(3) by auto
  obtain rt where rt: "dict_get (rc_runtimes c) n = Some rt" using c1(1) by (auto simp: revive_def elim: with_runtimeE)
  have "partitioned (rc_transport c1) = partitioned (rc_transport c) - {n}" "\<And>d. inbox_of (rc_transport c1) d = inbox_of (rc_transport c) d"
    "\<And>m. m = n \<or> revived c m \<Longrightarrow> revived c1 m"
    using c1(1) rt
    by (auto simp: revive_def with_runtime_def Let_def put_runtime_def revived_def fresh_def runtime_start_def build_runtime_def
        RaftNodeRuntime_def start_node_def reset_election_deadline_def RaftNode_def)
  moreover obtain c' where "can apl Q command (T, c1) (T, c')" "reachable_state ids c'" "partitioned (rc_transport c') = partitioned (rc_transport c1) - set ns"
    "\<And>d. inbox_of (rc_transport c') d = inbox_of (rc_transport c1) d" "\<And>m. m \<in> set ns \<or> revived c1 m \<Longrightarrow> revived c' m"
    using Cons.IH [OF c1(2) Cons.prems(2)] Cons.prems(3) unfolding list.set insert_subset by blast
  ultimately show ?case using can_trans [OF c1(3)] by (intro exI [of _ c']) (auto simp: Diff_eq)
qed

lemma revive_quorum:
  assumes "reachable_state ids c" "Q \<subseteq> set ids"
  obtains c' N where "can apl Q command (T, c) (T, c')" "live ids Q c' N (inbox_of (rc_transport c)) {}" "\<And>n. n \<in> Q \<Longrightarrow> fresh (N n)"
proof -
  obtain ns where ns: "set ns = Q" using finite_list [OF finite_subset [OF assms(2)]] by auto
  obtain c' where c': "can apl Q command (T, c) (T, c')" "reachable_state ids c'" "partitioned (rc_transport c') = partitioned (rc_transport c) - Q"
    "\<And>d. inbox_of (rc_transport c') d = inbox_of (rc_transport c) d" "\<And>n. n \<in> Q \<Longrightarrow> revived c' n"
    using revive_all [OF assms, of ns apl command T] ns by blast
  have "live ids Q c' (node_of c') (inbox_of (rc_transport c)) {}"
    using c' assms(2) by (fastforce simp: live_def quorum_view_def revived_def)
  moreover have "fresh (node_of c' n)" if "n \<in> Q" for n using c'(5) [OF that] by (auto simp: revived_def)
  ultimately show thesis using that c'(1) by blast
qed

lemma receive_possible:
  assumes live: "live ids Q c N B X" and n: "n \<in> Q" and box: "B n = e # es"
  obtains nd out where "receive apl e now (N n) = Inr (nd, out)"
proof -
  obtain rt where rt: "dict_get (rc_runtimes c) n = Some rt" "rt_running rt" "rt_node rt = N n" "inbox_of (rc_transport c) n = B n"
    by (rule live_runtime [OF live n])
  obtain c' where "cluster_act apl (Deliver n now) c = Inr c'"
    using act_possible [of ids c Q undefined "Deliver n now" now now apl] live n by (auto simp: live_def)
  then show thesis
    using that rt box by (auto simp: with_runtime_def pop_inbox_def runtime_receive_def rbind_Inr_conv)
qed

text \<open>While all nodes of \<open>Q\<close> are cut off they can work off what is left in their inboxes.\<close>

lemma drain_one:
  assumes "live ids Q c N B Q" "n \<in> Q"
  shows "\<exists>c' N'. can apl Q command (T, c) (T, c') \<and> live ids Q c' N' (B(n := [])) Q"
  using assms
proof (induction "B n" arbitrary: c N B)
  case Nil
  then have "B(n := []) = B" by auto
  then show ?case using Nil.prems can_refl [of apl Q command "(T, c)"] by auto
next
  case (Cons e es)
  obtain nd out where r: "receive apl e T (N n) = Inr (nd, out)" by (rule receive_possible [OF Cons.prems Cons.hyps(2) [symmetric]])
  obtain c1 where c1: "can apl Q command (T, c) (T, c1)" "live ids Q c1 (N(n := nd)) (\<lambda>d. (B(n := es)) d @ mail Q n out d) Q"
    by (rule deliver_step [OF Cons.prems Cons.hyps(2) [symmetric] order_refl r])
  have "mail Q n out d = []" for d using Cons.prems(2) by (simp add: mail_def)
  then have "live ids Q c1 (N(n := nd)) (B(n := es)) Q" by (intro live_cong [OF c1(2)]) simp_all
  from Cons.hyps(1) [OF _ this Cons.prems(2)] show ?case using can_trans [OF c1(1)] by fastforce
qed

lemma drain_all:
  assumes "live ids Q c N B Q" "set ns \<subseteq> Q"
  shows "\<exists>c' N'. can apl Q command (T, c) (T, c') \<and> live ids Q c' N' (\<lambda>d. if d \<in> set ns then [] else B d) Q"
  using assms
proof (induction ns arbitrary: c N B)
  case Nil
  then show ?case using can_refl [of apl Q command "(T, c)"] by auto
next
  case (Cons n ns)
  obtain c1 N1 where c1: "can apl Q command (T, c) (T, c1)" "live ids Q c1 N1 (B(n := [])) Q" using drain_one [OF Cons.prems(1), of n apl command T] Cons.prems(2) by auto
  obtain c2 N2 where c2: "can apl Q command (T, c1) (T, c2)" "live ids Q c2 N2 (\<lambda>d. if d \<in> set ns then [] else (B(n := [])) d) Q"
    using Cons.IH [OF c1(2)] Cons.prems(2) unfolding list.set insert_subset by blast
  have "live ids Q c2 N2 (\<lambda>d. if d \<in> set (n # ns) then [] else B d) Q" by (rule live_cong [OF c2(2)]) auto
  then show ?case using can_trans [OF c1(1) c2(1)] by blast
qed

lemma fresh_start:
  assumes "reachable_state ids c" "Q \<subseteq> set ids"
  obtains c' N where "can apl Q command (T, c) (T, c')" "live ids Q c' N (\<lambda>d. []) {}" "\<forall>n \<in> Q. fresh (N n)"
proof -
  obtain ns where ns: "set ns = Q" using finite_list [OF finite_subset [OF assms(2)]] by auto
  obtain c1 N1 where c1: "can apl Q command (T, c) (T, c1)" "live ids Q c1 N1 (inbox_of (rc_transport c)) {}" by (rule revive_quorum [OF assms])
  obtain c2 where c2: "can apl Q command (T, c1) (T, c2)" "live ids Q c2 N1 (inbox_of (rc_transport c)) Q" by (rule cut_to [OF c1(2) order_refl])
  obtain c3 N3 where c3: "can apl Q command (T, c2) (T, c3)" "live ids Q c3 N3 (\<lambda>d. if d \<in> set ns then [] else inbox_of (rc_transport c) d) Q"
    using drain_all [OF c2(2), of ns apl command T] ns by auto
  have rs: "reachable_state ids c3" using c3(2) by (simp add: live_def)
  obtain c4 N4 where c4: "can apl Q command (T, c3) (T, c4)" "live ids Q c4 N4 (inbox_of (rc_transport c3)) {}" "\<And>n. n \<in> Q \<Longrightarrow> fresh (N4 n)"
    using revive_quorum [OF rs assms(2), of apl command T] by blast
  have "inbox_of (rc_transport c3) n = []" if "n \<in> Q" for n using c3(2) that ns by (auto elim: live_runtime)
  then have "live ids Q c4 N4 (\<lambda>d. []) {}" by (intro live_cong [OF c4(2)]) auto
  then show thesis using that c4(3) can_trans [OF can_trans [OF can_trans [OF c1(1) c2(1)] c3(1)] c4(1)] by blast
qed

section \<open>Questions to all and their answers\<close>

lemma mail_one [simp]: "mail X n [(d, m)] d' = (if d' = d \<and> n \<notin> X \<and> d \<notin> X then [Envelope n d m] else [])"
  by (simp add: mail_def)

lemma mail_broadcast:
  assumes "distinct ps"
  shows "mail X n (map (\<lambda>p. (p, m)) ps) d = (if d \<in> set ps \<and> n \<notin> X \<and> d \<notin> X then [Envelope n d m] else [])"
proof -
  have "filter (\<lambda>(r, _). r = d) (map (\<lambda>p. (p, m)) ps) = (if d \<in> set ps then [(d, m)] else [])"
    using assms by (induction ps) auto
  then show ?thesis by (simp add: mail_def)
qed

text \<open>Each of the nodes \<open>Fs\<close> has one message, which it answers to \<open>L\<close>.\<close>

lemma scatter:
  assumes "live ids Q c N B {}" "L \<in> Q" "set Fs \<subseteq> Q - {L}" "distinct Fs"
    "\<And>F. F \<in> set Fs \<Longrightarrow> B F = [e F] \<and> receive apl (e F) now (N F) = Inr (N' F, [(L, r F)])"
  shows "\<exists>c'. can apl Q command (now, c) (now, c') \<and> live ids Q c' (\<lambda>n. if n \<in> set Fs then N' n else N n)
    (\<lambda>d. if d = L then B L @ map (\<lambda>F. Envelope F L (r F)) Fs else if d \<in> set Fs then [] else B d) {}"
  using assms
proof (induction Fs arbitrary: c N B)
  case Nil
  have "live ids Q c N (\<lambda>d. if d = L then B L @ map (\<lambda>F. Envelope F L (r F)) [] else if d \<in> set [] then [] else B d) {}"
    by (rule live_cong [OF Nil.prems(1)]) auto
  then show ?case using can_refl [of apl Q command "(now, c)"] by auto
next
  case (Cons F Fs)
  have F: "F \<in> Q" "F \<noteq> L" "B F = [e F]" "receive apl (e F) now (N F) = Inr (N' F, [(L, r F)])" "F \<notin> set Fs"
    using Cons.prems by auto
  let ?B = "\<lambda>d. if d = L then B L @ [Envelope F L (r F)] else if d = F then [] else B d"
  obtain c1 where c1: "can apl Q command (now, c) (now, c1)" "live ids Q c1 (N(F := N' F)) (\<lambda>d. (B(F := [])) d @ mail {} F [(L, r F)] d) {}"
    by (rule deliver_step [OF Cons.prems(1) F(1,3) order_refl F(4)])
  have l1: "live ids Q c1 (N(F := N' F)) ?B {}" by (rule live_cong [OF c1(2)]) (use F(2) in auto)
  have rest: "set Fs \<subseteq> Q - {L}" "distinct Fs"
    "\<And>G. G \<in> set Fs \<Longrightarrow> ?B G = [e G] \<and> receive apl (e G) now ((N(F := N' F)) G) = Inr (N' G, [(L, r G)])"
    using Cons.prems(3-5) F(5) by auto
  obtain c2 where c2: "can apl Q command (now, c1) (now, c2)"
    "live ids Q c2 (\<lambda>n. if n \<in> set Fs then N' n else (N(F := N' F)) n)
      (\<lambda>d. if d = L then ?B L @ map (\<lambda>F. Envelope F L (r F)) Fs else if d \<in> set Fs then [] else ?B d) {}"
    using Cons.IH [OF l1 Cons.prems(2) rest] by blast
  have "live ids Q c2 (\<lambda>n. if n \<in> set (F # Fs) then N' n else N n)
      (\<lambda>d. if d = L then B L @ map (\<lambda>F. Envelope F L (r F)) (F # Fs) else if d \<in> set (F # Fs) then [] else B d) {}"
    by (rule live_cong [OF c2(2)]) auto
  then show ?case using can_trans [OF c1(1) c2(1)] by blast
qed

text \<open>A node that takes in messages without sending any.\<close>

fun absorbs :: "('c \<Rightarrow> 's \<Rightarrow> 's) \<Rightarrow> rat \<Rightarrow> 'c envelope list \<Rightarrow> ('c, 's) raft_node \<Rightarrow> ('c, 's) raft_node \<Rightarrow> bool" where
  "absorbs apl now [] nd nd' \<longleftrightarrow> nd' = nd"
| "absorbs apl now (e # es) nd nd' \<longleftrightarrow> (\<exists>nd1. receive apl e now nd = Inr (nd1, []) \<and> absorbs apl now es nd1 nd')"

lemma gather:
  assumes "live ids Q c N B X" "L \<in> Q" "B L = es @ rest" "absorbs apl now es (N L) nd"
  shows "\<exists>c'. can apl Q command (now, c) (now, c') \<and> live ids Q c' (N(L := nd)) (B(L := rest)) X"
  using assms
proof (induction es arbitrary: c N B)
  case Nil
  have "live ids Q c (N(L := nd)) (B(L := rest)) X" by (rule live_cong [OF Nil.prems(1)]) (use Nil in auto)
  then show ?case using can_refl [of apl Q command "(now, c)"] by blast
next
  case (Cons e es)
  obtain nd1 where nd1: "receive apl e now (N L) = Inr (nd1, [])" "absorbs apl now es nd1 nd" using Cons.prems(4) by auto
  have box: "B L = e # (es @ rest)" using Cons.prems(3) by simp
  obtain c1 where c1: "can apl Q command (now, c) (now, c1)" "live ids Q c1 (N(L := nd1)) (\<lambda>d. (B(L := es @ rest)) d @ mail X L [] d) X"
    by (rule deliver_step [OF Cons.prems(1,2) box order_refl nd1(1)])
  have l1: "live ids Q c1 (N(L := nd1)) (B(L := es @ rest)) X" by (rule live_cong [OF c1(2)]) auto
  obtain c2 where c2: "can apl Q command (now, c1) (now, c2)" "live ids Q c2 ((N(L := nd1))(L := nd)) ((B(L := es @ rest))(L := rest)) X"
    using Cons.IH [OF l1 Cons.prems(2)] nd1(2) by fastforce
  have "live ids Q c2 (N(L := nd)) (B(L := rest)) X" by (rule live_cong [OF c2(2)]) auto
  then show ?case using can_trans [OF c1(1) c2(1)] by blast
qed

text \<open>Everybody answers, and \<open>L\<close> takes in all answers but the last.\<close>

lemma ask_all:
  assumes live: "live ids Q c N B {}" and L: "L \<in> Q" "B L = []" and Fs: "set (F # Fs) = Q - {L}" "distinct (F # Fs)"
    and ask: "\<And>G. G \<in> Q - {L} \<Longrightarrow> B G = [e G] \<and> receive apl (e G) now (N G) = Inr (N' G, [(L, r G)])"
    and most: "absorbs apl now (map (\<lambda>G. Envelope G L (r G)) Fs) (N L) nd" and Y: "Y \<subseteq> Q"
  obtains c' where "can apl Q command (now, c) (now, c')"
    "live ids Q c' (\<lambda>n. if n = L then nd else N' n) (\<lambda>d. if d = L then [Envelope F L (r F)] else []) Y"
proof -
  have Fs': "set (Fs @ [F]) \<subseteq> Q - {L}" "distinct (Fs @ [F])" "set (Fs @ [F]) = Q - {L}" using Fs by auto
  obtain c1 where c1: "can apl Q command (now, c) (now, c1)" "live ids Q c1 (\<lambda>n. if n \<in> set (Fs @ [F]) then N' n else N n)
      (\<lambda>d. if d = L then B L @ map (\<lambda>F. Envelope F L (r F)) (Fs @ [F]) else if d \<in> set (Fs @ [F]) then [] else B d) {}"
    using scatter [OF live L(1) Fs'(1,2), of e apl now N' r command] ask Fs'(3) by blast
  obtain c2 where c2: "can apl Q command (now, c1) (now, c2)" "live ids Q c2 (\<lambda>n. if n \<in> set (Fs @ [F]) then N' n else N n)
      (\<lambda>d. if d = L then B L @ map (\<lambda>F. Envelope F L (r F)) (Fs @ [F]) else if d \<in> set (Fs @ [F]) then [] else B d) Y"
    by (rule cut_to [OF c1(2) Y])
  have "L \<notin> set (Fs @ [F])" using Fs'(1) by blast
  then obtain c3 where c3: "can apl Q command (now, c2) (now, c3)" "live ids Q c3 ((\<lambda>n. if n \<in> set (Fs @ [F]) then N' n else N n)(L := nd))
      ((\<lambda>d. if d = L then B L @ map (\<lambda>F. Envelope F L (r F)) (Fs @ [F]) else if d \<in> set (Fs @ [F]) then [] else B d)(L := [Envelope F L (r F)])) Y"
    using gather [OF c2(2) L(1), of "map (\<lambda>G. Envelope G L (r G)) Fs" "[Envelope F L (r F)]" apl now nd command] most L(2) by auto
  have "live ids Q c3 (\<lambda>n. if n = L then nd else N' n) (\<lambda>d. if d = L then [Envelope F L (r F)] else []) Y"
    by (rule live_cong [OF c3(2)]) (use Fs'(3) in auto)
  then show thesis using that can_trans [OF can_trans [OF c1(1) c2(1)] c3(1)] by blast
qed

end
