(* ===== verification/Raft_Elections.thy ===== *)
theory Raft_Elections
  imports Raft_Majority
begin

text \<open>
  A majority can elect the node with the most recent log among its members: the node learns the latest term, asks for prevotes
  and for votes (raft/node.py), leads, and appends a command.
\<close>

section \<open>An election\<close>

definition canvass :: "rat \<Rightarrow> ('c, 's) raft_node \<Rightarrow> ('c, 's) raft_node" where
  "canvass now nd = reset_election_deadline now (nd\<lparr>state := FOLLOWER, leader_id := None,
     prevote_target_term := current_term nd + 1, prevotes_received := {node_id nd}\<rparr>)"

lemma canvass_sel [simp]:
  "storage (canvass now nd) = storage nd" "current_term (canvass now nd) = current_term nd" "node_id (canvass now nd) = node_id nd"
  "peer_ids (canvass now nd) = peer_ids nd" "state (canvass now nd) = FOLLOWER" "leader_id (canvass now nd) = None"
  "prevote_target_term (canvass now nd) = current_term nd + 1" "prevotes_received (canvass now nd) = {node_id nd}"
  "last_applied (canvass now nd) = last_applied nd" "commit_index (canvass now nd) = commit_index nd"
  by (simp_all add: canvass_def current_term_def)

lemma majority_of_peers: "peer_ids nd = peer_ids nd' \<Longrightarrow> majority_of nd = majority_of nd'"
  by (simp add: majority_of_def)

lemma tick_prevote:
  assumes "state nd \<noteq> LEADER" "2 \<le> majority_of nd" "election_deadline nd \<le> now"
  shows "tick now nd = (canvass now nd,
    map (\<lambda>peer. (peer, MPreVoteArgs (PreVoteArgs (current_term nd + 1) (node_id nd) (last_index (storage nd)) (last_term (storage nd))))) (peer_ids nd))"
proof -
  have "maybe_win_prevote now (canvass now nd) = (canvass now nd, [])" for now
    using assms(2) majority_of_peers [of "canvass now nd" nd] by (simp add: maybe_win_prevote_def)
  then show ?thesis
    using assms(1,3) by (simp add: tick_def start_prevote_def Let_def canvass_def current_term_def)
qed

lemma prevote_granted:
  assumes "leader_id nd = None" "current_term nd < pva_term args" "log_up_to_date nd (pva_last_log_index args) (pva_last_log_term args)"
  shows "receive apl (Envelope s n (MPreVoteArgs args)) now nd = Inr (nd, [(s, MPreVoteReply (PreVoteReply (current_term nd) True (node_id nd)))])"
  using assms by (simp add: receive_def handle_prevote_def current_term_def)

lemma prevote_counted:
  assumes "state nd = FOLLOWER" "prevote_target_term nd = current_term nd + 1" "t \<le> current_term nd"
  shows "receive apl (Envelope s n (MPreVoteReply (PreVoteReply t True v))) now nd =
    Inr (maybe_win_prevote now (nd\<lparr>prevotes_received := insert v (prevotes_received nd)\<rparr>))"
  using assms by (simp add: receive_def handle_prevote_reply_def current_term_def)

lemma absorb_prevotes:
  assumes "state nd = FOLLOWER" "prevote_target_term nd = current_term nd + 1" "\<And>F. F \<in> set Fs \<Longrightarrow> t F \<le> current_term nd"
    "finite (prevotes_received nd)" "int (card (prevotes_received nd \<union> set Fs)) < majority_of nd"
  shows "absorbs apl now (map (\<lambda>F. Envelope F L (MPreVoteReply (PreVoteReply (t F) True F))) Fs) nd
    (nd\<lparr>prevotes_received := prevotes_received nd \<union> set Fs\<rparr>)"
  using assms
proof (induction Fs arbitrary: nd)
  case (Cons F Fs)
  let ?nd = "nd\<lparr>prevotes_received := insert F (prevotes_received nd)\<rparr>"
  have "card (insert F (prevotes_received nd)) \<le> card (prevotes_received nd \<union> set (F # Fs))"
    using Cons.prems(4) by (intro card_mono) auto
  moreover have m: "majority_of ?nd = majority_of nd" by (simp add: majority_of_def)
  ultimately have "maybe_win_prevote now ?nd = (?nd, [])" using Cons.prems(5) by (simp add: maybe_win_prevote_def)
  moreover have "absorbs apl now (map (\<lambda>F. Envelope F L (MPreVoteReply (PreVoteReply (t F) True F))) Fs) ?nd
      (?nd\<lparr>prevotes_received := prevotes_received ?nd \<union> set Fs\<rparr>)"
    using Cons.prems m by (intro Cons.IH) (auto simp: current_term_def)
  ultimately show ?case
    using prevote_counted [of nd "t F" apl F L F now] Cons.prems by (simp add: Un_commute)
qed simp

definition standing :: "rat \<Rightarrow> ('c, 's) raft_node \<Rightarrow> ('c, 's) raft_node" where
  "standing now nd = reset_election_deadline now
     (nd\<lparr>storage := set_voted_for (Some (node_id nd)) (set_current_term (current_term nd + 1) (storage nd)),
       state := CANDIDATE, leader_id := None, votes_received := {node_id nd}\<rparr>)"

lemma standing_sel [simp]:
  "st_log (storage (standing now nd)) = st_log (storage nd)" "current_term (standing now nd) = current_term nd + 1"
  "node_id (standing now nd) = node_id nd" "peer_ids (standing now nd) = peer_ids nd" "state (standing now nd) = CANDIDATE"
  "votes_received (standing now nd) = {node_id nd}" "last_index (storage (standing now nd)) = last_index (storage nd)"
  "last_term (storage (standing now nd)) = last_term (storage nd)"
  "last_applied (standing now nd) = last_applied nd" "commit_index (standing now nd) = commit_index nd"
  by (simp_all add: standing_def current_term_def get_current_term_def set_voted_for_def set_current_term_def last_index_def last_term_def)

lemma become_candidate_eq:
  assumes "2 \<le> majority_of nd"
  shows "become_candidate now nd = (standing now nd,
    map (\<lambda>peer. (peer, MRequestVoteArgs (RequestVoteArgs (current_term nd + 1) (node_id nd) (last_index (storage nd)) (last_term (storage nd))))) (peer_ids nd))"
proof -
  have "maybe_become_leader_from_votes now (standing now nd) = (standing now nd, [])"
    using assms majority_of_peers [of "standing now nd" nd] by (simp add: maybe_become_leader_from_votes_def)
  moreover have "broadcast_request_vote (standing now nd) =
      map (\<lambda>peer. (peer, MRequestVoteArgs (RequestVoteArgs (current_term nd + 1) (node_id nd) (last_index (storage nd)) (last_term (storage nd))))) (peer_ids nd)"
    by (simp add: broadcast_request_vote_def)
  ultimately show ?thesis
    by (simp add: become_candidate_def Let_def standing_def current_term_def)
qed

text \<open>The node of \<open>Q\<close> that is to be elected: no other has a later term or a later log.\<close>

definition best :: "string set \<Rightarrow> (string \<Rightarrow> ('c, 's) raft_node) \<Rightarrow> string \<Rightarrow> bool" where
  "best Q N L \<longleftrightarrow> L \<in> Q \<and> (\<forall>F \<in> Q. current_term (N F) \<le> current_term (N L) \<and>
     log_up_to_date (N F) (last_index (storage (N L))) (last_term (storage (N L))))"

lemma live_quorum:
  assumes "live ids Q c N B X" "n \<in> Q" "card Q = majority_size (card (set ids))"
  shows "majority_of (N n) = int (card Q)" "distinct (peer_ids (N n))" "set (peer_ids (N n)) = set ids - {n}" "node_id (N n) = n"
    "Q \<subseteq> set ids" "finite Q"
  using majority_of_node [OF live_ok [OF assms(1,2)]] node_okD [OF live_ok [OF assms(1,2)]] assms finite_subset [of Q "set ids"]
  by (auto simp: live_def)

lemma other_members:
  assumes "finite Q" "L \<in> Q" "2 \<le> card Q"
  obtains F Fs where "set (F # Fs) = Q - {L}" "distinct (F # Fs)" "card (insert L (set Fs)) = card Q - 1"
proof -
  obtain xs where xs: "set xs = Q - {L}" "distinct xs" using finite_distinct_list [of "Q - {L}"] assms(1) by auto
  have "length xs = card Q - 1" using distinct_card [OF xs(2)] xs(1) assms(1,2) by simp
  then obtain F Fs where F: "xs = F # Fs" using assms(3) by (cases xs) auto
  have "L \<notin> set Fs" "length Fs = card Q - 2" using xs F \<open>length xs = card Q - 1\<close> by auto
  then have "card (insert L (set Fs)) = card Q - 1" using xs(2) F distinct_card [of Fs] assms(3) by simp
  then show thesis using that xs F by blast
qed

lemma win_prevote:
  assumes live: "live ids Q c N (\<lambda>d. []) {}" and Q: "card Q = majority_size (card (set ids))" "2 \<le> card Q"
    and fresh: "\<forall>n \<in> Q. fresh (N n)" and best: "best Q N L"
  obtains c' now nd where "can apl Q command (T, c) (now, c')" "current_term nd = current_term (N L)" "storage nd = storage (N L)"
    "last_applied nd = commit_index nd"
    "live ids Q c' (N(L := standing now nd)) (\<lambda>d. if d = L then [] else [Envelope L d (MRequestVoteArgs
       (RequestVoteArgs (current_term (N L) + 1) L (last_index (storage (N L))) (last_term (storage (N L)))))]) {}"
proof -
  have L: "L \<in> Q" using best by (simp add: best_def)
  note q = live_quorum [OF live L Q(1)]
  let ?now = "max T (election_deadline (N L))" and ?t = "current_term (N L)"
  let ?nd = "canvass ?now (N L)" and ?args = "PreVoteArgs (?t + 1) L (last_index (storage (N L))) (last_term (storage (N L)))"
  let ?reply = "\<lambda>F. MPreVoteReply (PreVoteReply (current_term (N F)) True F)"
  obtain F Fs where Fs: "set (F # Fs) = Q - {L}" "distinct (F # Fs)" "card (insert L (set Fs)) = card Q - 1"
    by (rule other_members [OF q(6) L Q(2)])
  have t: "tick ?now (N L) = (?nd, map (\<lambda>peer. (peer, MPreVoteArgs ?args)) (peer_ids (N L)))"
    using tick_prevote [of "N L" ?now] fresh L q(1,4) Q(2) by (simp add: fresh_def)
  obtain c1 where c1: "can apl Q command (T, c) (?now, c1)"
    "live ids Q c1 (N(L := ?nd)) (\<lambda>d. [] @ mail {} L (map (\<lambda>peer. (peer, MPreVoteArgs ?args)) (peer_ids (N L))) d) {}"
    by (rule tick_step [OF live L max.cobounded1 t])
  let ?B = "\<lambda>d. if d = L then [] else [Envelope L d (MPreVoteArgs ?args)]"
  have l1: "live ids Q c1 (N(L := ?nd)) ?B {}"
    by (rule live_cong [OF c1(2)]) (use q(2,3,5) in \<open>auto simp: mail_broadcast\<close>)
  have ask: "?B G = [Envelope L G (MPreVoteArgs ?args)] \<and>
      receive apl (Envelope L G (MPreVoteArgs ?args)) ?now ((N(L := ?nd)) G) = Inr (N G, [(L, ?reply G)])" if G: "G \<in> Q - {L}" for G
    using prevote_granted [of "N G" ?args apl L G ?now] fresh best G live_quorum(4) [OF live _ Q(1), of G]
    by (auto simp: best_def fresh_def)
  let ?nd1 = "?nd\<lparr>prevotes_received := prevotes_received ?nd \<union> set Fs\<rparr>"
  have "absorbs apl ?now (map (\<lambda>G. Envelope G L (?reply G)) Fs) ?nd ?nd1"
    using best Fs(1,3) q(1,4) Q(2) majority_of_peers [of ?nd "N L"]
    by (intro absorb_prevotes) (auto simp: best_def)
  then have abs: "absorbs apl ?now (map (\<lambda>G. Envelope G L (?reply G)) Fs) ((N(L := ?nd)) L) ?nd1" by simp
  have none: "?B L = []" by simp
  obtain c2 where c2: "can apl Q command (?now, c1) (?now, c2)"
    "live ids Q c2 (\<lambda>n. if n = L then ?nd1 else N n) (\<lambda>d. if d = L then [Envelope F L (?reply F)] else []) {}"
    by (rule ask_all [OF l1 L none Fs(1,2) ask abs empty_subsetI])
  let ?nd2 = "?nd1\<lparr>prevotes_received := insert F (prevotes_received ?nd1)\<rparr>"
  have F: "F \<in> Q" "current_term (N F) \<le> ?t" using Fs(1) best by (auto simp: best_def)
  have all: "insert F (insert L (set Fs)) = Q" using Fs(1) L by auto
  have m: "majority_of ?nd2 = int (card Q)" using q(1) majority_of_peers [of ?nd2 "N L"] by simp
  have "int (card (prevotes_received ?nd2)) = int (card Q)" using all q(4) by simp
  then have win: "maybe_win_prevote ?now ?nd2 = (standing ?now ?nd2, map (\<lambda>peer. (peer, MRequestVoteArgs
      (RequestVoteArgs (?t + 1) L (last_index (storage (N L))) (last_term (storage (N L)))))) (peer_ids (N L)))"
    using become_candidate_eq [of ?nd2 ?now] m Q(2) q(4) by (simp add: maybe_win_prevote_def current_term_def)
  have "receive apl (Envelope F L (?reply F)) ?now ?nd1 = Inr (maybe_win_prevote ?now ?nd2)"
    using F(2) by (intro prevote_counted) (auto simp: current_term_def)
  then obtain c3 where c3: "can apl Q command (?now, c2) (?now, c3)"
    "live ids Q c3 ((\<lambda>n. if n = L then ?nd1 else N n)(L := standing ?now ?nd2)) (\<lambda>d. ((\<lambda>d. if d = L then [Envelope F L (?reply F)] else [])(L := [])) d @
      mail {} L (map (\<lambda>peer. (peer, MRequestVoteArgs (RequestVoteArgs (?t + 1) L (last_index (storage (N L))) (last_term (storage (N L)))))) (peer_ids (N L))) d) {}"
    using deliver_step [OF c2(2) L, of "Envelope F L (?reply F)" "[]" ?now ?now apl] win by auto
  have "live ids Q c3 (N(L := standing ?now ?nd2)) (\<lambda>d. if d = L then [] else [Envelope L d (MRequestVoteArgs
       (RequestVoteArgs (?t + 1) L (last_index (storage (N L))) (last_term (storage (N L)))))]) {}"
    by (rule live_cong [OF c3(2)]) (use q(2,3,5) in \<open>auto simp: mail_broadcast\<close>)
  then show thesis
    using that [of ?now c3 ?nd2] can_trans [OF can_trans [OF c1(1) c2(1)] c3(1)] fresh L by (simp add: current_term_def fresh_def)
qed

lemma log_up_to_date_log: "st_log (storage nd') = st_log (storage nd) \<Longrightarrow> log_up_to_date nd' = log_up_to_date nd"
  by (simp add: log_up_to_date_def last_term_log last_index_def fun_eq_iff)

definition voter :: "rat \<Rightarrow> int \<Rightarrow> string \<Rightarrow> ('c, 's) raft_node \<Rightarrow> ('c, 's) raft_node" where
  "voter now t cand nd = (let nd = become_follower t now nd
     in reset_election_deadline now (nd\<lparr>storage := set_voted_for (Some cand) (storage nd)\<rparr>))"

lemma voter_sel [simp]:
  "st_log (storage (voter now t cand nd)) = st_log (storage nd)" "current_term (voter now t cand nd) = t"
  "state (voter now t cand nd) = FOLLOWER"
  by (simp_all add: voter_def Let_def become_follower_def current_term_def get_current_term_def set_voted_for_def set_current_term_def)

lemma vote_granted:
  assumes "current_term nd < t" "log_up_to_date nd lli llt"
  shows "receive apl (Envelope s n (MRequestVoteArgs (RequestVoteArgs t cand lli llt))) now nd =
    Inr (voter now t cand nd, [(s, MRequestVoteReply (RequestVoteReply t True (node_id nd)))])"
proof -
  have "log_up_to_date (become_follower t now nd) = log_up_to_date nd"
    by (rule log_up_to_date_log) (simp add: become_follower_def set_voted_for_def set_current_term_def)
  moreover have "get_voted_for (storage (become_follower t now nd)) = None"
    by (simp add: become_follower_def get_voted_for_def set_voted_for_def)
  ultimately show ?thesis
    using assms by (simp add: receive_def handle_request_vote_def current_term_def voter_def Let_def become_follower_def)
qed

lemma vote_counted:
  assumes "state nd = CANDIDATE" "current_term nd = t"
  shows "receive apl (Envelope s n (MRequestVoteReply (RequestVoteReply t True v))) now nd =
    Inr (maybe_become_leader_from_votes now (nd\<lparr>votes_received := insert v (votes_received nd)\<rparr>))"
  using assms by (simp add: receive_def handle_request_vote_reply_def current_term_def)

lemma absorb_votes:
  assumes "state nd = CANDIDATE" "current_term nd = t" "finite (votes_received nd)"
    "int (card (votes_received nd \<union> set Fs)) < majority_of nd"
  shows "absorbs apl now (map (\<lambda>F. Envelope F L (MRequestVoteReply (RequestVoteReply t True F))) Fs) nd
    (nd\<lparr>votes_received := votes_received nd \<union> set Fs\<rparr>)"
  using assms
proof (induction Fs arbitrary: nd)
  case (Cons F Fs)
  let ?nd = "nd\<lparr>votes_received := insert F (votes_received nd)\<rparr>"
  have "card (insert F (votes_received nd)) \<le> card (votes_received nd \<union> set (F # Fs))"
    using Cons.prems(3) by (intro card_mono) auto
  moreover have m: "majority_of ?nd = majority_of nd" by (simp add: majority_of_def)
  ultimately have "maybe_become_leader_from_votes now ?nd = (?nd, [])" using Cons.prems(4) by (simp add: maybe_become_leader_from_votes_def)
  moreover have "absorbs apl now (map (\<lambda>F. Envelope F L (MRequestVoteReply (RequestVoteReply t True F))) Fs) ?nd
      (?nd\<lparr>votes_received := votes_received ?nd \<union> set Fs\<rparr>)"
    using Cons.prems m by (intro Cons.IH) (auto simp: current_term_def)
  ultimately show ?case
    using vote_counted [of nd t apl F L F now] Cons.prems by (simp add: Un_commute)
qed simp

lemma mail_none: "d \<notin> fst ` set out \<Longrightarrow> mail X n out d = []"
  by (force simp: mail_def filter_empty_conv)

lemma broadcast_lost:
  assumes "broadcast_append_entries now nd = (nd', out)" "L \<notin> set (peer_ids nd)" "d \<in> Q"
  shows "mail (Q - {L}) L out d = []"
proof (cases "d = L")
  case True
  have "fst ` set out \<subseteq> set (peer_ids nd)"
    using broadcast_append_entries_sends [of nd "identity nd" now] assms(1) by (simp add: sends_to_def identity_def)
  then show ?thesis using assms(2) True by (intro mail_none) auto
qed (use assms(3) in \<open>simp add: mail_def\<close>)

text \<open>A leader in term \<open>t\<close> with the log \<open>xs\<close>, all of which the nodes of \<open>D\<close> have acknowledged.\<close>

definition leading :: "int \<Rightarrow> 'c log_entry list \<Rightarrow> string set \<Rightarrow> ('c, 's) raft_node \<Rightarrow> bool" where
  "leading t xs D nd \<longleftrightarrow> state nd = LEADER \<and> current_term nd = t \<and> st_log (storage nd) = xs \<and> next_heartbeat_deadline nd \<noteq> None \<and>
     last_applied nd = commit_index nd \<and>
     (\<forall>F \<in> set (peer_ids nd). dict_get (match_index nd) F = Some (if F \<in> D then int (length xs) else 0) \<and> dict_get (next_index nd) F \<noteq> None)"

lemma win_election:
  assumes live: "live ids Q c N (\<lambda>d. if d = L then [] else [Envelope L d (MRequestVoteArgs (RequestVoteArgs t L lli llt))]) {}"
    and Q: "card Q = majority_size (card (set ids))" "2 \<le> card Q" and L: "L \<in> Q" "state (N L) = CANDIDATE" "current_term (N L) = t" "votes_received (N L) = {L}"
      "last_applied (N L) = commit_index (N L)"
    and voters: "\<forall>F \<in> Q - {L}. current_term (N F) < t \<and> log_up_to_date (N F) lli llt"
  obtains c' N' where "can apl Q command (T, c) (T, c')" "live ids Q c' N' (\<lambda>d. []) (Q - {L})" "leading t (st_log (storage (N L))) {} (N' L)"
    "\<forall>F \<in> Q - {L}. current_term (N' F) = t"
proof -
  note q = live_quorum [OF live L(1) Q(1)]
  let ?reply = "\<lambda>F. MRequestVoteReply (RequestVoteReply t True F)"
  let ?args = "\<lambda>d. Envelope L d (MRequestVoteArgs (RequestVoteArgs t L lli llt))"
  obtain F Fs where Fs: "set (F # Fs) = Q - {L}" "distinct (F # Fs)" "card (insert L (set Fs)) = card Q - 1"
    by (rule other_members [OF q(6) L(1) Q(2)])
  have ask: "(if G = L then [] else [?args G]) = [?args G] \<and> receive apl (?args G) T (N G) = Inr (voter T t L (N G), [(L, ?reply G)])"
    if G: "G \<in> Q - {L}" for G
    using vote_granted [of "N G" t lli llt apl L G L T] voters G live_quorum(4) [OF live _ Q(1), of G] by auto
  let ?nd = "(N L)\<lparr>votes_received := votes_received (N L) \<union> set Fs\<rparr>"
  have abs: "absorbs apl T (map (\<lambda>G. Envelope G L (?reply G)) Fs) (N L) ?nd"
    using L Fs(3) q(1) Q(2) by (intro absorb_votes) auto
  have none: "(if L = L then [] else [?args L]) = []" by simp
  obtain c1 where c1: "can apl Q command (T, c) (T, c1)"
    "live ids Q c1 (\<lambda>n. if n = L then ?nd else voter T t L (N n)) (\<lambda>d. if d = L then [Envelope F L (?reply F)] else []) (Q - {L})"
    by (rule ask_all [OF live L(1) none Fs(1,2) ask abs Diff_subset])
  let ?nd1 = "?nd\<lparr>votes_received := insert F (votes_received ?nd)\<rparr>"
  have "insert F (insert L (set Fs)) = Q" using Fs(1) L(1) by auto
  then have "int (card (votes_received ?nd1)) = int (card Q)" using L(4) by simp
  moreover have "majority_of ?nd1 = int (card Q)" using q(1) majority_of_peers [of ?nd1 "N L"] by simp
  ultimately have "maybe_become_leader_from_votes T ?nd1 = become_leader T ?nd1"
    using L(2) by (simp add: maybe_become_leader_from_votes_def)
  moreover obtain nd2 out where nd2: "become_leader T ?nd1 = (nd2, out)" by force
  ultimately have win: "receive apl (Envelope F L (?reply F)) T ?nd = Inr (nd2, out)"
    using vote_counted [of ?nd t apl F L F T] L(2,3) by (simp add: current_term_def)
  have win': "receive apl (Envelope F L (?reply F)) T (if L = L then ?nd else voter T t L (N L)) = Inr (nd2, out)" using win by simp
  have box: "(if L = L then [Envelope F L (?reply F)] else []) = Envelope F L (?reply F) # []" by simp
  obtain c2 where c2: "can apl Q command (T, c1) (T, c2)" "live ids Q c2 ((\<lambda>n. if n = L then ?nd else voter T t L (N n))(L := nd2))
      (\<lambda>d. ((\<lambda>d. if d = L then [Envelope F L (?reply F)] else [])(L := [])) d @ mail (Q - {L}) L out d) (Q - {L})"
    by (rule deliver_step [OF c1(2) L(1) box order_refl win'])
  let ?N = "\<lambda>n. if n = L then nd2 else voter T t L (N n)"
  obtain nd' where nd': "broadcast_append_entries T nd' = (nd2, out)" "peer_ids nd' = peer_ids (N L)"
    using nd2 unfolding become_leader_def Let_def by fastforce
  then have "mail (Q - {L}) L out d = []" if "d \<in> Q" for d
    using broadcast_lost [OF nd'(1) _ that] q(3) by simp
  then have "live ids Q c2 ?N (\<lambda>d. []) (Q - {L})" by (intro live_cong [OF c2(2)]) auto
  moreover have "leading t (st_log (storage (N L))) {} nd2"
    using nd2 L(3,5) by (auto simp: leading_def become_leader_def broadcast_append_entries_def Let_def current_term_def dict_get_map_pair)
  ultimately show thesis using that [of c2 ?N] can_trans [OF c1(1) c2(1)] by simp
qed

text \<open>The leader appends the command; its messages are lost, since the others are cut off.\<close>

lemma lead_with:
  assumes live: "live ids Q c N (\<lambda>d. []) (Q - {L})" and L: "L \<in> Q" and lead: "leading t xs {} (N L)"
  obtains c' nd where "can apl Q command (T, c) (T, c')" "live ids Q c' (N(L := nd)) (\<lambda>d. []) (Q - {L})"
    "leading t (xs @ [LogEntry t (int (length xs) + 1) command]) {} nd"
proof -
  let ?e = "LogEntry t (int (length xs) + 1) command"
  let ?nd = "(N L)\<lparr>storage := append_log [?e] (storage (N L))\<rparr>"
  obtain nd out where b: "broadcast_append_entries T ?nd = (nd, out)" by force
  have p: "propose command T (N L) = (nd, out, Some ?e)"
    using lead b by (simp add: propose_def leading_def last_index_def Let_def current_term_def)
  obtain c1 where c1: "can apl Q command (T, c) (T, c1)" "live ids Q c1 (N(L := nd)) (\<lambda>d. [] @ mail (Q - {L}) L out d) (Q - {L})"
    by (rule propose_step [OF live L order_refl p])
  have "L \<notin> set (peer_ids ?nd)" using node_okD(4) [OF live_ok [OF live L]] by simp
  then have "mail (Q - {L}) L out d = []" if "d \<in> Q" for d using broadcast_lost [OF b _ that] by blast
  then have "live ids Q c1 (N(L := nd)) (\<lambda>d. []) (Q - {L})" by (intro live_cong [OF c1(2)]) auto
  moreover have "leading t (xs @ [?e]) {} nd"
    using b lead by (auto simp: leading_def broadcast_append_entries_def Let_def current_term_def append_log_def get_current_term_def)
  ultimately show thesis using that c1(1) by blast
qed

section \<open>Choosing the node that is to lead\<close>

lemma ex_greatest:
  fixes f :: "'a \<Rightarrow> int"
  assumes "finite Q" "Q \<noteq> {}"
  obtains M where "M \<in> Q" "\<forall>F \<in> Q. f F \<le> f M"
proof -
  have "Max (f ` Q) \<in> f ` Q" using assms by (intro Max_in) auto
  then obtain M where "M \<in> Q" "f M = Max (f ` Q)" by auto
  then show thesis using that [of M] assms(1) by simp
qed

lemma longest_log:
  assumes "finite Q" "Q \<noteq> {}"
  obtains L where "L \<in> Q" "\<forall>F \<in> Q. log_up_to_date (N F) (last_index (storage (N L))) (last_term (storage (N L)))"
proof -
  obtain M where M: "M \<in> Q" "\<forall>F \<in> Q. last_term (storage (N F)) \<le> last_term (storage (N M))"
    by (rule ex_greatest [OF assms, of "\<lambda>F. last_term (storage (N F))"])
  let ?R = "{F \<in> Q. last_term (storage (N F)) = last_term (storage (N M))}"
  have R: "finite ?R" "?R \<noteq> {}" using assms(1) M(1) by auto
  obtain L where L: "L \<in> ?R" "\<forall>F \<in> ?R. last_index (storage (N F)) \<le> last_index (storage (N L))"
    by (rule ex_greatest [OF R, of "\<lambda>F. last_index (storage (N F))"])
  have "log_up_to_date (N F) (last_index (storage (N L))) (last_term (storage (N L)))" if "F \<in> Q" for F
    using M(2) L that by (auto simp: log_up_to_date_def Let_def)
  then show thesis using that L(1) by blast
qed

text \<open>A node that hears of a later term joins it and keeps its log.\<close>

lemma prevote_refused:
  assumes "leader_id nd = None" "pva_term args \<le> current_term nd"
  shows "receive apl (Envelope s n (MPreVoteArgs args)) now nd = Inr (nd, [(s, MPreVoteReply (PreVoteReply (current_term nd) False (node_id nd)))])"
  using assms by (simp add: receive_def handle_prevote_def current_term_def)

lemma prevote_outdated:
  assumes "current_term nd < t"
  shows "receive apl (Envelope s n (MPreVoteReply (PreVoteReply t g v))) now nd = Inr (become_follower t now nd, [])"
  using assms by (simp add: receive_def handle_prevote_reply_def current_term_def)

lemma stepped_down_sel [simp]:
  "st_log (storage (become_follower t now nd)) = st_log (storage nd)" "current_term (become_follower t now nd) = t"
  "fresh (become_follower t now nd) \<longleftrightarrow> last_applied nd = commit_index nd"
  by (simp_all add: become_follower_def current_term_def fresh_def)

lemma learn_term:
  assumes live: "live ids Q c N (\<lambda>d. []) {}" and Q: "card Q = majority_size (card (set ids))" "2 \<le> card Q"
    and LM: "L \<in> Q" "M \<in> Q" "fresh (N L)" "fresh (N M)" and t: "current_term (N L) < current_term (N M)"
  obtains T' c' nd where "can apl Q command (T, c) (T', c')" "live ids Q c' (N(L := nd)) (\<lambda>d. []) {}"
    "fresh nd" "st_log (storage nd) = st_log (storage (N L))" "current_term nd = current_term (N M)"
proof -
  note q = live_quorum [OF live LM(1) Q(1)]
  let ?now = "max T (election_deadline (N L))" and ?X = "Q - {L, M}"
  let ?nd = "canvass ?now (N L)"
  let ?args = "PreVoteArgs (current_term (N L) + 1) L (last_index (storage (N L))) (last_term (storage (N L)))"
  let ?reply = "PreVoteReply (current_term (N M)) False M"
  have LM': "L \<noteq> M" using t by auto
  have idM: "node_id (N M) = M" by (rule live_quorum(4) [OF live LM(2) Q(1)])
  obtain c1 where c1: "can apl Q command (T, c) (T, c1)" "live ids Q c1 N (\<lambda>d. []) ?X" by (rule cut_to [OF live, of ?X]) auto
  have "tick ?now (N L) = (?nd, map (\<lambda>peer. (peer, MPreVoteArgs ?args)) (peer_ids (N L)))"
    using tick_prevote [of "N L" ?now] LM(3) q(1,4) Q(2) by (simp add: fresh_def)
  from tick_step [OF c1(2) LM(1) max.cobounded1 this, of apl command]
  obtain c2 where c2: "can apl Q command (T, c1) (?now, c2)"
    "live ids Q c2 (N(L := ?nd)) (\<lambda>d. [] @ mail ?X L (map (\<lambda>peer. (peer, MPreVoteArgs ?args)) (peer_ids (N L))) d) ?X" .
  let ?B = "\<lambda>d. if d = M then [Envelope L M (MPreVoteArgs ?args)] else []"
  have l2: "live ids Q c2 (N(L := ?nd)) ?B ?X"
    by (rule live_cong [OF c2(2)]) (use q(2,3,5) LM LM' in \<open>auto simp: mail_broadcast\<close>)
  have ask: "receive apl (Envelope L M (MPreVoteArgs ?args)) ?now ((N(L := ?nd)) M) = Inr (N M, [(L, MPreVoteReply ?reply)])"
    using prevote_refused [of "N M" ?args apl L M ?now] LM(4) LM' t idM by (simp add: fresh_def)
  have box: "?B M = Envelope L M (MPreVoteArgs ?args) # []" by simp
  obtain c3 where c3: "can apl Q command (?now, c2) (?now, c3)"
    "live ids Q c3 ((N(L := ?nd))(M := N M)) (\<lambda>d. (?B(M := [])) d @ mail ?X M [(L, MPreVoteReply ?reply)] d) ?X"
    by (rule deliver_step [OF l2 LM(2) box order_refl ask])
  let ?C = "\<lambda>d. if d = L then [Envelope M L (MPreVoteReply ?reply)] else []"
  have l3: "live ids Q c3 (N(L := ?nd)) ?C ?X" by (rule live_cong [OF c3(2)]) (use LM LM' in auto)
  have learn: "receive apl (Envelope M L (MPreVoteReply ?reply)) ?now ((N(L := ?nd)) L) =
      Inr (become_follower (current_term (N M)) ?now ?nd, [])"
    using t by (simp add: prevote_outdated)
  have box': "?C L = Envelope M L (MPreVoteReply ?reply) # []" by simp
  obtain c4 where c4: "can apl Q command (?now, c3) (?now, c4)"
    "live ids Q c4 ((N(L := ?nd))(L := become_follower (current_term (N M)) ?now ?nd)) (\<lambda>d. (?C(L := [])) d @ mail ?X L [] d) ?X"
    by (rule deliver_step [OF l3 LM(1) box' order_refl learn])
  obtain c5 where c5: "can apl Q command (?now, c4) (?now, c5)"
    "live ids Q c5 ((N(L := ?nd))(L := become_follower (current_term (N M)) ?now ?nd)) (\<lambda>d. (?C(L := [])) d @ mail ?X L [] d) {}"
    by (rule cut_to [OF c4(2) empty_subsetI])
  have "live ids Q c5 (N(L := become_follower (current_term (N M)) ?now ?nd)) (\<lambda>d. []) {}"
    by (rule live_cong [OF c5(2)]) auto
  moreover have "last_applied (N L) = commit_index (N L)" using LM(3) by (simp add: fresh_def)
  ultimately show thesis
    using that [of ?now c5] can_trans [OF can_trans [OF can_trans [OF can_trans [OF c1(1) c2(1)] c3(1)] c4(1)] c5(1)] by simp
qed

lemma prepare_leader:
  assumes live: "live ids Q c N (\<lambda>d. []) {}" and Q: "card Q = majority_size (card (set ids))" "2 \<le> card Q"
    and fresh: "\<forall>n \<in> Q. fresh (N n)"
  obtains T' c' N' L where "can apl Q command (T, c) (T', c')" "live ids Q c' N' (\<lambda>d. []) {}" "\<forall>n \<in> Q. fresh (N' n)" "best Q N' L"
proof -
  have fin: "finite Q" "Q \<noteq> {}" using Q(2) card_ge_0_finite [of Q] by auto
  obtain L where L: "L \<in> Q" "\<forall>F \<in> Q. log_up_to_date (N F) (last_index (storage (N L))) (last_term (storage (N L)))"
    by (rule longest_log [OF fin])
  obtain M where M: "M \<in> Q" "\<forall>F \<in> Q. current_term (N F) \<le> current_term (N M)"
    by (rule ex_greatest [OF fin, of "\<lambda>F. current_term (N F)"])
  show thesis
  proof (cases "current_term (N L) < current_term (N M)")
    case True
    obtain T' c' nd where c': "can apl Q command (T, c) (T', c')" "live ids Q c' (N(L := nd)) (\<lambda>d. []) {}"
      "fresh nd" "st_log (storage nd) = st_log (storage (N L))" "current_term nd = current_term (N M)"
      by (rule learn_term [OF live Q L(1) M(1) bspec [OF fresh L(1)] bspec [OF fresh M(1)] True])
    have same: "last_index (storage nd) = last_index (storage (N L))" "last_term (storage nd) = last_term (storage (N L))"
      "log_up_to_date nd = log_up_to_date (N L)"
      using c'(4) log_up_to_date_log [OF c'(4)] by (simp_all add: last_index_def last_term_def)
    have "best Q (N(L := nd)) L" using L M same c'(5) by (auto simp: best_def)
    then show thesis using that [OF c'(1,2)] c'(3) fresh by simp
  next
    case False
    have "current_term (N F) \<le> current_term (N L)" if "F \<in> Q" for F using M(2) that False by fastforce
    then have "best Q N L" using L by (simp add: best_def)
    then show thesis using that [OF can_refl live] fresh by blast
  qed
qed

end
