(* ===== verification/Raft_Recovery.thy ===== *)
theory Raft_Recovery
  imports Raft_Elections
begin

text \<open>
  The elected node brings the logs of the other members up to date, whatever they hold: every refusal moves its position back, so
  that each of them accepts at last, and when all have accepted it commits. No state of a cluster is a dead end.
\<close>

section \<open>Replication\<close>

definition append_message :: "('c, 's) raft_node \<Rightarrow> string \<Rightarrow> 'c message" where
  "append_message nd peer = (let next_idx = dict_get_default (next_index nd) peer (last_index (storage nd) + 1)
     in MAppendEntriesArgs (AppendEntriesArgs (current_term nd) (node_id nd) (next_idx - 1) (term_at (storage nd) (next_idx - 1))
          (entries_from (storage nd) next_idx) (commit_index nd)))"

lemma send_append_message: "send_append_entries_to peer nd = [(peer, append_message nd peer)]"
  by (simp add: send_append_entries_to_def append_message_def Let_def)

lemma broadcast_append_messages:
  "broadcast_append_entries now nd = (nd\<lparr>next_heartbeat_deadline := Some (now + heartbeat_interval nd)\<rparr>,
     map (\<lambda>peer. (peer, append_message (nd\<lparr>next_heartbeat_deadline := Some (now + heartbeat_interval nd)\<rparr>) peer)) (peer_ids nd))"
proof -
  have "concat (map (\<lambda>peer. [(peer, f peer)]) ps) = map (\<lambda>peer. (peer, f peer)) ps" for f :: "string \<Rightarrow> 'a message" and ps
    by (induction ps) auto
  then show ?thesis by (simp add: broadcast_append_entries_def Let_def send_append_message)
qed

lemma mail_messages:
  assumes "distinct ps"
  shows "mail X n (map (\<lambda>p. (p, m p)) ps) d = (if d \<in> set ps \<and> n \<notin> X \<and> d \<notin> X then [Envelope n d (m d)] else [])"
proof -
  have "filter (\<lambda>(r, _). r = d) (map (\<lambda>p. (p, m p)) ps) = (if d \<in> set ps then [(d, m d)] else [])"
    using assms by (induction ps) auto
  then show ?thesis by (simp add: mail_def)
qed

text \<open>Two logs that have an entry of the same term agree below it.\<close>

lemma logs_meet:
  assumes live: "live ids Q c N B X" "n \<in> Q" "m \<in> Q"
    and b: "a \<le> b" "b < length (st_log (storage (N n)))" and a: "a < length (st_log (storage (N m)))"
    and same: "entry_term (st_log (storage (N m)) ! a) = entry_term (st_log (storage (N n)) ! b)"
  shows "st_log (storage (N n)) ! a = st_log (storage (N m)) ! a"
proof -
  obtain p where p: "pinv (majorities (set ids)) p" "\<forall>n \<in> Q. pn p n = abs_node (N n) \<and> node_ok ids n (N n)"
    by (rule live_inv [OF live(1)])
  have wf: "wf_log p (st_log (storage (N k)))" if "k \<in> Q" for k
    using inv_logD(1) [OF pinvD(3) [OF p(1)], of k] p(2) that by simp
  let ?G = "g_llog p (entry_term (st_log (storage (N n)) ! b))"
  have "take (Suc b) (st_log (storage (N n))) = take (Suc b) ?G" "take (Suc a) (st_log (storage (N m))) = take (Suc a) ?G"
    using wf_logD(3) [OF wf [OF live(2)] b(2)] wf_logD(3) [OF wf [OF live(3)] a] same by simp_all
  then show ?thesis using b(1) by (metis lessI less_Suc_eq_le nth_take)
qed

lemma live_terms:
  assumes "live ids Q c N B X" "n \<in> Q" "e \<in> set (st_log (storage (N n)))"
  shows "1 \<le> entry_term e"
proof -
  obtain p where p: "pinv (majorities (set ids)) p" "\<forall>n \<in> Q. pn p n = abs_node (N n) \<and> node_ok ids n (N n)"
    by (rule live_inv [OF assms(1)])
  show ?thesis using node_log_terms [OF p(1), of e n] p(2) assms(2) assms(3) by simp
qed

lemma live_commit:
  assumes "live ids Q c N B X" "n \<in> Q"
  shows "commit_index (N n) \<le> last_index (storage (N n))"
proof -
  obtain p where p: "pinv (majorities (set ids)) p" "\<forall>n \<in> Q. pn p n = abs_node (N n) \<and> node_ok ids n (N n)"
    by (rule live_inv [OF assms(1)])
  show ?thesis using inv_commitD(1) [OF pinvD(7) [OF p(1)], of n] p(2) assms(2) by (simp add: last_index_def)
qed

lemma last_index_of_term_found:
  "0 < last_index_of_term_loop st t i \<Longrightarrow> term_at st (last_index_of_term_loop st t i) = t \<and> last_index_of_term_loop st t i \<le> i"
proof (induction st t i rule: last_index_of_term_loop.induct)
  case (1 st t i)
  then show ?case by (auto simp: last_index_of_term_loop.simps [of st t i] Let_def split: if_splits)
qed

text \<open>What a follower of the same term answers.\<close>

definition answers :: "('c, 's) raft_node \<Rightarrow> int \<Rightarrow> int \<Rightarrow> nat \<Rightarrow> append_entries_reply \<Rightarrow> bool" where
  "answers nd prev pt k r \<longleftrightarrow> aer_term r = current_term nd \<and>
     (if aer_success r then aer_match_index r = prev + int k
      else 0 < prev \<and> (if aer_conflict_term r = -1 then aer_conflict_index r = last_index (storage nd) + 1 \<and> term_at (storage nd) prev = -1
        else term_at (storage nd) prev = aer_conflict_term r \<and> aer_conflict_term r \<noteq> pt \<and> aer_conflict_index r \<le> prev))"

lemma follower_answers:
  assumes run: "receive apl (Envelope s n (MAppendEntriesArgs args)) now nd = Inr (nd', out)" and t: "aea_term args = current_term nd"
  obtains r where "out = [(s, MAppendEntriesReply r)]" "current_term nd' = current_term nd"
    "answers nd (aea_prev_log_index args) (aea_prev_log_term args) (length (aea_entries args)) r"
proof -
  let ?nd = "follow (aea_leader_id args) now nd" and ?prev = "aea_prev_log_index args"
  have up: "catch_up (aea_term args) now nd = nd" using t by (simp add: catch_up_def)
  have ct: "append_decision apl args (current_term nd) ?nd = handle_append_entries apl args now nd"
    unfolding handle_append_entries_eq up using t by (simp add: Let_def)
  obtain r where r: "append_decision apl args (current_term nd) ?nd = Inr (nd', r)" "out = [(s, MAppendEntriesReply r)]"
    using run by (auto simp: receive_def rbind_Inr_conv ct)
  have loop: "append_loop i es st = Inr st' \<Longrightarrow> get_current_term st' = get_current_term st" for i es and st st' :: "'a storage"
    by (induction i es st rule: append_loop.induct)
      (auto simp: Let_def rbind_Inr_conv truncate_from_def get_current_term_def append_log_def split: if_splits)
  show thesis
  proof (cases "accept_entries apl args (current_term nd) ?nd = Inr (nd', r)")
    case True
    then obtain st where st: "append_loop (?prev + 1) (aea_entries args) (storage nd) = Inr st" "storage nd' = st"
      "r = AppendEntriesReply (current_term nd) True (node_id nd') (?prev + int (length (aea_entries args))) 0 (- 1)"
      by (auto simp: accept_entries_def rbind_Inr_conv Let_def dest!: apply_committed_storage split: if_splits)
    have "current_term nd' = current_term nd" using loop [OF st(1)] st(2) by (simp add: current_term_def)
    then show thesis using that [OF r(2)] st(3) by (simp add: answers_def)
  next
    case False
    then show thesis
      using r first_index_of_term_bounds [of ?prev "storage nd" "term_at (storage nd) ?prev"]
      by (intro that [of r]) (auto simp: append_decision_def Let_def answers_def first_index_of_term_def split: if_splits)
  qed
qed

text \<open>What a leader makes of the answers.\<close>

definition retry_index :: "('c, 's) raft_node \<Rightarrow> append_entries_reply \<Rightarrow> int" where
  "retry_index nd r = (if aer_conflict_term r \<noteq> -1 then
     (let i = last_index_of_term nd (aer_conflict_term r) in if i > 0 then i + 1 else aer_conflict_index r)
   else max 1 (aer_conflict_index r))"

lemma nack_received:
  assumes "state nd = LEADER" "aer_term r = current_term nd" "\<not> aer_success r"
  shows "receive apl (Envelope s n (MAppendEntriesReply r)) now nd =
    (let nd = nd\<lparr>next_index := dict_set s (retry_index nd r) (next_index nd)\<rparr> in Inr (nd, send_append_entries_to s nd))"
  using assms by (simp add: receive_def handle_append_entries_reply_def current_term_def retry_index_def Let_def)

lemma term_at_None:
  assumes "term_at st i = -1" "0 < i" "\<And>e. e \<in> set (st_log st) \<Longrightarrow> 1 \<le> entry_term e"
  shows "last_index st < i"
proof (rule ccontr)
  assume "\<not> last_index st < i"
  then have "nat (i - 1) < length (st_log st)" "term_at st i = entry_term (st_log st ! nat (i - 1))"
    using assms(2) by (auto simp: last_index_def term_at_def)
  then show False using assms(1,3) nth_mem [of "nat (i - 1)" "st_log st"] by fastforce
qed

text \<open>Every refusal moves the leader's position back.\<close>

lemma nack_moves_back:
  assumes live: "live ids Q c N B X" "L \<in> Q" "F \<in> Q" and prev: "0 < prev" "prev \<le> last_index (storage (N L))"
    and r: "answers (N F) prev (term_at (storage (N L)) prev) k r" "\<not> aer_success r"
  shows "retry_index (N L) r \<le> prev"
proof (cases "aer_conflict_term r = -1")
  case True
  then have "last_index (storage (N F)) < prev"
    using r prev(1) live_terms [OF live(1,3)] by (intro term_at_None) (auto simp: answers_def)
  then show ?thesis using True r prev(1) by (simp add: answers_def retry_index_def)
next
  case False
  let ?i = "last_index_of_term (N L) (aer_conflict_term r)" and ?xs = "st_log (storage (N L))" and ?ys = "st_log (storage (N F))"
  have f: "term_at (storage (N F)) prev = aer_conflict_term r" "term_at (storage (N F)) prev \<noteq> term_at (storage (N L)) prev"
    "aer_conflict_index r \<le> prev" using False r by (auto simp: answers_def)
  have "?i < prev" if i: "0 < ?i"
  proof (rule ccontr)
    assume le: "\<not> ?i < prev"
    have found: "term_at (storage (N L)) ?i = aer_conflict_term r" "?i \<le> last_index (storage (N L))"
      using last_index_of_term_found [of "storage (N L)" "aer_conflict_term r" "last_index (storage (N L))"] i
      by (auto simp: last_index_of_term_def)
    let ?a = "nat (prev - 1)" and ?b = "nat (?i - 1)"
    have a: "?a < length ?ys" "entry_term (?ys ! ?a) = aer_conflict_term r"
      using f(1) prev(1) False by (auto simp: term_at_def split: if_splits)
    have b: "?a \<le> ?b" "?b < length ?xs" "entry_term (?xs ! ?b) = aer_conflict_term r"
      using found le i by (auto simp: term_at_def last_index_def)
    have "?xs ! ?a = ?ys ! ?a" using logs_meet [OF live b(1,2) a(1)] a(2) b(3) by simp
    then have "term_at (storage (N L)) prev = aer_conflict_term r"
      using a(2) prev by (simp add: term_at_def last_index_def)
    then show False using f by simp
  qed
  then show ?thesis using False f(3) by (auto simp: retry_index_def Let_def)
qed

lemma apply_committed_keeps:
  "apply_committed apl nd = Inr nd' \<Longrightarrow> last_applied nd \<le> commit_index nd \<Longrightarrow> \<exists>s. nd' = nd\<lparr>last_applied := commit_index nd, state_machine := s\<rparr>"
proof (induction apl nd rule: apply_committed.induct)
  case (1 apl nd)
  show ?case
  proof (cases "last_applied nd < commit_index nd")
    case True
    let ?nd = "nd\<lparr>last_applied := last_applied nd + 1\<rparr>"
    obtain e where e: "get_entry (storage ?nd) (last_applied ?nd) = Some e"
      "apply_committed apl (?nd\<lparr>state_machine := apl (entry_command e) (state_machine ?nd)\<rparr>) = Inr nd'"
      using 1(2) True by (auto simp: apply_committed.simps [of apl nd] Let_def split: option.splits)
    show ?thesis using 1(1) [OF True refl e(1) e(2)] True by auto
  next
    case False
    then have "nd' = nd\<lparr>last_applied := commit_index nd, state_machine := state_machine nd\<rparr>"
      using 1(2,3) by (simp add: apply_committed.simps [of apl nd])
    then show ?thesis by blast
  qed
qed

lemma advance_commit_keeps:
  assumes "advance_commit_index apl nd = Inr nd'" "last_applied nd = commit_index nd"
  obtains k s where "nd' = nd\<lparr>commit_index := k, last_applied := k, state_machine := s\<rparr>"
proof -
  have "\<exists>k s. nd' = nd\<lparr>commit_index := k, last_applied := k, state_machine := s\<rparr>"
  proof (cases "nd' = nd")
    case True
    then have "nd' = nd\<lparr>commit_index := commit_index nd, last_applied := commit_index nd, state_machine := state_machine nd\<rparr>"
      using assms(2) by simp
    then show ?thesis by blast
  next
    case False
    then obtain k where "commit_index nd < k" "apply_committed apl (nd\<lparr>commit_index := k\<rparr>) = Inr nd'"
      using assms(1) by (auto simp: advance_commit_index_def Let_def split: if_splits)
    then show ?thesis using apply_committed_keeps [of apl "nd\<lparr>commit_index := k\<rparr>" nd'] assms(2) by auto
  qed
  then show thesis using that by blast
qed

lemma nth_of_many:
  fixes xs :: "int list"
  assumes "k < length (filter (\<lambda>x. v \<le> x) xs)"
  shows "v \<le> rev (sort xs) ! k"
proof (rule ccontr)
  let ?ys = "rev (sort xs)"
  assume low: "\<not> v \<le> ?ys ! k"
  have "?ys ! j < v" if "k \<le> j" "j < length ?ys" for j
    using sorted_rev_nth_mono [of ?ys k j] that low by simp
  then have "\<not> v \<le> x" if "x \<in> set (drop k ?ys)" for x
    using that unfolding in_set_conv_nth by (auto simp: not_le)
  then have "filter (\<lambda>x. v \<le> x) (drop k ?ys) = []" unfolding filter_empty_conv by blast
  then have "length (filter (\<lambda>x. v \<le> x) (take k ?ys @ drop k ?ys)) \<le> k"
    using length_filter_le [of "\<lambda>x. v \<le> x" "take k ?ys"] unfolding filter_append by simp
  then have "length (filter (\<lambda>x. v \<le> x) ?ys) \<le> k" by (metis append_take_drop_id)
  moreover have "length (filter (\<lambda>x. v \<le> x) ?ys) = length (filter (\<lambda>x. v \<le> x) xs)"
    by (metis mset_filter mset_rev mset_sort size_mset)
  ultimately show False using assms by simp
qed

text \<open>Once all of \<open>Q\<close> has the leader's log, the leader commits it.\<close>

lemma commit_reached:
  assumes lead: "leading t xs (Q - {L}) nd" and keys: "dict_keys (match_index nd) = peer_ids nd" "distinct (peer_ids nd)"
    and Q: "finite Q" "L \<in> Q" "Q - {L} \<subseteq> set (peer_ids nd)" "majority_of nd = int (card Q)"
    and xs: "xs \<noteq> []" "entry_term (last xs) = t"
    and ok: "0 \<le> last_applied nd" "last_applied nd \<le> commit_index nd" "commit_index nd \<le> last_index (storage nd)"
    and run: "advance_commit_index apl nd = Inr nd'"
  shows "commit_index nd' = int (length xs)"
proof -
  let ?n = "int (length xs)" and ?vs = "last_index (storage nd) # dict_values (match_index nd)" and ?k = "card Q - 1"
  have st: "last_index (storage nd) = ?n" "current_term nd = t" "st_log (storage nd) = xs" using lead by (auto simp: leading_def last_index_def)
  have vals: "dict_values (match_index nd) = map (\<lambda>F. if F \<in> Q - {L} then ?n else 0) (peer_ids nd)"
    using dict_values_by_key [of "match_index nd"] keys lead by (auto simp: leading_def)
  have card: "card (Q - {L}) = ?k" "1 \<le> card Q" using Q(1,2) card_gt_0_iff [of Q] by auto
  have "length (filter (\<lambda>x. ?n \<le> x) (dict_values (match_index nd))) = length (filter (\<lambda>F. F \<in> Q - {L}) (peer_ids nd))"
    using xs(1) by (simp add: vals filter_map comp_def del: Diff_iff)
  also have "\<dots> = ?k" using keys(2) card(1) Int_absorb2 [OF Q(3)] by (simp add: distinct_length_filter Int_commute del: Diff_iff)
  finally have "?k < length (filter (\<lambda>x. ?n \<le> x) ?vs)" by (simp add: st(1))
  note low = nth_of_many [OF this] and len = less_le_trans [OF this length_filter_le]
  have "x \<le> ?n" if "x \<in> set (rev (sort ?vs))" for x using that unfolding set_rev set_sort by (auto simp: st(1) vals split: if_splits)
  moreover have "rev (sort ?vs) ! ?k \<in> set (rev (sort ?vs))" using len by (intro nth_mem) simp
  ultimately have "rev (sort ?vs) ! ?k \<le> ?n" by blast
  then have c: "rev (sort ?vs) ! ?k = ?n" using low by simp
  have k: "nat (majority_of nd - 1) = ?k" using Q(4) card(2) by simp
  have eq: "advance_commit_index apl nd =
      (if ?n > commit_index nd \<and> term_at (storage nd) ?n = current_term nd then apply_committed apl (nd\<lparr>commit_index := ?n\<rparr>) else Inr nd)"
    using len c unfolding advance_commit_index_def Let_def k by simp
  have last: "term_at (storage nd) ?n = current_term nd"
    using xs st by (simp add: log_term_at_def last_conv_nth)
  show ?thesis
  proof (cases "commit_index nd < ?n")
    case True
    then show ?thesis using run ok last by (auto simp: eq apply_committed_eq st(1))
  next
    case False
    then show ?thesis using run ok(3) eq st(1) by auto
  qed
qed

lemma ack_received:
  assumes run: "receive apl (Envelope F L (MAppendEntriesReply r)) now nd = Inr (nd', out)"
    and lead: "leading t xs D nd" "xs \<noteq> []" and F: "F \<in> set (peer_ids nd)" "F \<notin> D"
    and r: "aer_term r = t" "aer_success r" "aer_match_index r = int (length xs)"
  obtains nd1 where "out = []" "advance_commit_index apl nd1 = Inr nd'" "leading t xs (insert F D) nd1"
    "dict_keys (match_index nd) = peer_ids nd \<Longrightarrow> dict_keys (match_index nd1) = peer_ids nd1"
    "peer_ids nd1 = peer_ids nd" "commit_index nd1 = commit_index nd" "last_applied nd1 = last_applied nd" "storage nd1 = storage nd"
proof -
  let ?d = "dict_set F (int (length xs)) (match_index nd)"
  let ?nd = "nd\<lparr>match_index := ?d, next_index := dict_set F (int (length xs) + 1) (next_index nd)\<rparr>"
  have m: "dict_get (match_index nd) F = Some 0" using lead(1) F by (simp add: leading_def)
  have eq: "rbind (advance_commit_index apl ?nd) (\<lambda>nd. Inr (nd, [])) = Inr (nd', out)"
    using run lead r m by (simp add: receive_def handle_append_entries_reply_def leading_def current_term_def dict_get_default_def Let_def)
  have "leading t xs (insert F D) ?nd" using lead(1) F by (auto simp: leading_def current_term_def)
  moreover have "dict_keys ?d = peer_ids nd" if "dict_keys (match_index nd) = peer_ids nd"
    using that F(1) by (simp add: dict_keys_set)
  ultimately show thesis using eq by (intro that [of ?nd]) (auto simp: rbind_Inr_conv)
qed

lemma leading_keeps: "leading t xs D nd \<Longrightarrow> leading t xs D (nd\<lparr>commit_index := k, last_applied := k, state_machine := s\<rparr>)"
  by (simp add: leading_def current_term_def)

text \<open>
  The leader probes one follower at a time, with the others cut off. First the leader's message for \<open>F\<close> has arrived, then
  the answer of \<open>F\<close> has.
\<close>

definition probing ::
  "string list \<Rightarrow> string set \<Rightarrow> string \<Rightarrow> string \<Rightarrow> int \<Rightarrow> 'c log_entry list \<Rightarrow> string set \<Rightarrow> (string \<Rightarrow> 'c envelope list)
   \<Rightarrow> ('c, 's) raft_cluster \<Rightarrow> (string \<Rightarrow> ('c, 's) raft_node) \<Rightarrow> bool" where
  "probing ids Q L F t xs D B c N \<longleftrightarrow> live ids Q c N B (Q - {L, F}) \<and> card Q = majority_size (card (set ids)) \<and>
     L \<in> Q \<and> F \<in> Q \<and> F \<noteq> L \<and> F \<notin> D \<and> xs \<noteq> [] \<and> entry_term (last xs) = t \<and>
     leading t xs D (N L) \<and> (\<forall>G \<in> Q - {L}. current_term (N G) = t)"

abbreviation letter :: "string \<Rightarrow> string \<Rightarrow> 'c message \<Rightarrow> string \<Rightarrow> 'c envelope list" where
  "letter s d m \<equiv> (\<lambda>n. if n = d then [Envelope s d m] else [])"

text \<open>What the leader knows then: \<open>k\<close> is the position it tries next for \<open>F\<close>.\<close>

lemma probingD:
  assumes "probing ids Q L F t xs D B c N"
  shows "live ids Q c N B (Q - {L, F})" "L \<in> Q" "F \<in> Q" "F \<noteq> L" "F \<notin> D" "xs \<noteq> []" "entry_term (last xs) = t"
    "leading t xs D (N L)" "current_term (N F) = t" "F \<in> set (peer_ids (N L))" "state (N L) = LEADER" "current_term (N L) = t"
    "st_log (storage (N L)) = xs" "last_index (storage (N L)) = int (length xs)" "node_id (N L) = L"
    "\<exists>k. dict_get (next_index (N L)) F = Some k \<and> 1 \<le> k \<and> k \<le> int (length xs) + 1"
proof -
  have p: "live ids Q c N B (Q - {L, F})" "L \<in> Q" "F \<in> Q" "F \<noteq> L" "leading t xs D (N L)" "card Q = majority_size (card (set ids))"
    using assms by (auto simp: probing_def)
  note q = live_quorum [OF p(1,2,6)]
  show led: "state (N L) = LEADER" "current_term (N L) = t" "st_log (storage (N L)) = xs" "last_index (storage (N L)) = int (length xs)"
    using p(5) by (auto simp: leading_def last_index_def)
  show F: "F \<in> set (peer_ids (N L))" using p(3,4) q(3,5) by auto
  obtain k where k: "dict_get (next_index (N L)) F = Some k" using p(5) F by (auto simp: leading_def)
  then show "\<exists>k. dict_get (next_index (N L)) F = Some k \<and> 1 \<le> k \<and> k \<le> int (length xs) + 1"
    using node_okD(10) [OF live_ok [OF p(1,2)] led(1) k] led(4) by auto
  show "node_id (N L) = L" by (rule q(4))
qed (use assms in \<open>auto simp: probing_def\<close>)

lemma probing_step:
  assumes "probing ids Q L F t xs D B c N" "live ids Q c' N' B' (Q - {L, F})" "leading t xs D (N' L)" "current_term (N' F) = t"
    "\<forall>G \<in> Q - {L, F}. N' G = N G"
  shows "probing ids Q L F t xs D B' c' N'"
proof -
  have "current_term (N' G) = t" if "G \<in> Q - {L}" for G
    using assms(1,4,5) that by (cases "G = F") (auto simp: probing_def)
  then show ?thesis using assms by (simp add: probing_def)
qed

lemma probe_answered:
  assumes pr: "probing ids Q L F t xs D (letter L F (append_message (N L) F)) c N" and k: "dict_get (next_index (N L)) F = Some k"
  obtains c' nd r where "can apl Q command (T, c) (T, c')"
    "probing ids Q L F t xs D (letter F L (MAppendEntriesReply r)) c' (N(F := nd))"
    "aer_term r = t" "aer_success r \<longrightarrow> aer_match_index r = int (length xs)" "\<not> aer_success r \<longrightarrow> retry_index (N L) r < k"
proof -
  note p = probingD [OF pr]
  have kb: "1 \<le> k" "k \<le> int (length xs) + 1" using p(16) k by auto
  let ?args = "AppendEntriesArgs t L (k - 1) (term_at (storage (N L)) (k - 1)) (entries_from (storage (N L)) k) (commit_index (N L))"
  have msg: "append_message (N L) F = MAppendEntriesArgs ?args" using k p(12,15) by (simp add: append_message_def dict_get_default_def)
  have box: "letter L F (append_message (N L) F) F = Envelope L F (MAppendEntriesArgs ?args) # []" by (simp add: msg)
  obtain nd out where run: "receive apl (Envelope L F (MAppendEntriesArgs ?args)) T (N F) = Inr (nd, out)"
    by (rule receive_possible [OF p(1,3) box])
  have "aea_term ?args = current_term (N F)" using p(9) by simp
  from follower_answers [OF run this]
  obtain r where r: "out = [(L, MAppendEntriesReply r)]" "current_term nd = t"
    "answers (N F) (k - 1) (term_at (storage (N L)) (k - 1)) (length (entries_from (storage (N L)) k)) r"
    using p(9) by auto
  obtain c1 where c1: "can apl Q command (T, c) (T, c1)"
    "live ids Q c1 (N(F := nd)) (\<lambda>d. ((letter L F (append_message (N L) F))(F := [])) d @ mail (Q - {L, F}) F [(L, MAppendEntriesReply r)] d) (Q - {L, F})"
    by (rule deliver_step [OF p(1,3) box order_refl run [unfolded r(1)]])
  have "live ids Q c1 (N(F := nd)) (letter F L (MAppendEntriesReply r)) (Q - {L, F})"
    by (rule live_cong [OF c1(2)]) (use p(2,4) in auto)
  then have "probing ids Q L F t xs D (letter F L (MAppendEntriesReply r)) c1 (N(F := nd))"
    by (rule probing_step [OF pr]) (use p(4,8) r(2) in auto)
  moreover have "aer_match_index r = int (length xs)" if "aer_success r"
    using r(3) that kb p(13) by (simp add: answers_def entries_from_log nat_diff_distrib of_nat_diff)
  moreover have "retry_index (N L) r < k" if "\<not> aer_success r"
    using nack_moves_back [OF p(1,2,3) _ _ r(3) that] that r(3) kb p(14) by (simp add: answers_def)
  moreover have "aer_term r = t" using r(3) p(9) by (simp add: answers_def)
  ultimately show thesis using that c1(1) by blast
qed

text \<open>An acceptance brings \<open>F\<close> into the set of those that have the leader's log, and the last one lets the leader commit it.\<close>

definition caught_up ::
  "string set \<Rightarrow> string \<Rightarrow> int \<Rightarrow> 'c log_entry list \<Rightarrow> string set \<Rightarrow> (string \<Rightarrow> ('c, 's) raft_node) \<Rightarrow> bool" where
  "caught_up Q L t xs D N \<longleftrightarrow> leading t xs D (N L) \<and> (\<forall>F \<in> Q - {L}. current_term (N F) = t) \<and>
     (D = Q - {L} \<longrightarrow> commit_index (N L) = int (length xs))"

lemma probe_accepted:
  assumes pr: "probing ids Q L F t xs D (letter F L (MAppendEntriesReply r)) c N"
    and r: "aer_term r = t" "aer_success r" "aer_match_index r = int (length xs)"
  obtains c' N' where "can apl Q command (T, c) (T, c')" "live ids Q c' N' (\<lambda>d. []) (Q - {L, F})" "caught_up Q L t xs (insert F D) N'"
proof -
  note p = probingD [OF pr]
  have Q: "card Q = majority_size (card (set ids))" "\<forall>G \<in> Q - {L}. current_term (N G) = t" using pr by (auto simp: probing_def)
  note q = live_quorum [OF p(1,2) Q(1)] and okL = live_ok [OF p(1,2)]
  have box: "letter F L (MAppendEntriesReply r) L = Envelope F L (MAppendEntriesReply r) # []" by simp
  obtain nd out where got: "receive apl (Envelope F L (MAppendEntriesReply r)) T (N L) = Inr (nd, out)"
    by (rule receive_possible [OF p(1,2) box])
  from ack_received [OF got p(8,6,10,5) r]
  obtain nd1 where nd1: "out = []" "advance_commit_index apl nd1 = Inr nd" "leading t xs (insert F D) nd1"
    "dict_keys (match_index (N L)) = peer_ids (N L) \<Longrightarrow> dict_keys (match_index nd1) = peer_ids nd1"
    "peer_ids nd1 = peer_ids (N L)" "commit_index nd1 = commit_index (N L)" "last_applied nd1 = last_applied (N L)"
    "storage nd1 = storage (N L)" by metis
  obtain c1 where c1: "can apl Q command (T, c) (T, c1)"
    "live ids Q c1 (N(L := nd)) (\<lambda>d. ((letter F L (MAppendEntriesReply r))(L := [])) d @ mail (Q - {L, F}) L [] d) (Q - {L, F})"
    by (rule deliver_step [OF p(1,2) box order_refl got [unfolded nd1(1)]])
  have l1: "live ids Q c1 (N(L := nd)) (\<lambda>d. []) (Q - {L, F})" by (rule live_cong [OF c1(2)]) auto
  have "leading t xs (insert F D) nd" using advance_commit_keeps [OF nd1(2)] leading_keeps [OF nd1(3)] nd1(3) unfolding leading_def by metis
  moreover have "commit_index nd = int (length xs)" if D: "insert F D = Q - {L}"
  proof -
    have "commit_index nd1 \<le> last_index (storage nd1)" using live_commit [OF p(1,2)] nd1(6,8) by simp
    then show ?thesis
      using commit_reached [of t xs Q L nd1 apl nd] nd1 D q p(2,6,7,11) node_okD(3,5,6,9) [OF okL] majority_of_peers [of nd1 "N L"]
      by auto
  qed
  ultimately have "caught_up Q L t xs (insert F D) (N(L := nd))" using Q(2) by (auto simp: caught_up_def)
  then show thesis using that c1(1) l1 by blast
qed

lemma probe_refused:
  assumes pr: "probing ids Q L F t xs D (letter F L (MAppendEntriesReply r)) c N" and r: "aer_term r = t" "\<not> aer_success r"
  obtains c' nd where "can apl Q command (T, c) (T, c')" "probing ids Q L F t xs D (letter L F (append_message nd F)) c' (N(L := nd))"
    "dict_get (next_index nd) F = Some (retry_index (N L) r)"
proof -
  note p = probingD [OF pr]
  let ?nd = "(N L)\<lparr>next_index := dict_set F (retry_index (N L) r) (next_index (N L))\<rparr>"
  have got: "receive apl (Envelope F L (MAppendEntriesReply r)) T (N L) = Inr (?nd, [(F, append_message ?nd F)])"
    using nack_received [of "N L" r apl F L T] p(11,12) r by (simp add: send_append_message Let_def)
  have box: "letter F L (MAppendEntriesReply r) L = Envelope F L (MAppendEntriesReply r) # []" by simp
  obtain c1 where c1: "can apl Q command (T, c) (T, c1)"
    "live ids Q c1 (N(L := ?nd)) (\<lambda>d. ((letter F L (MAppendEntriesReply r))(L := [])) d @ mail (Q - {L, F}) L [(F, append_message ?nd F)] d) (Q - {L, F})"
    by (rule deliver_step [OF p(1,2) box order_refl got])
  have "live ids Q c1 (N(L := ?nd)) (letter L F (append_message ?nd F)) (Q - {L, F})"
    by (rule live_cong [OF c1(2)]) (use p(3,4) in auto)
  then have "probing ids Q L F t xs D (letter L F (append_message ?nd F)) c1 (N(L := ?nd))"
    by (rule probing_step [OF pr]) (use p(4,8,9) in \<open>auto simp: leading_def current_term_def\<close>)
  then show thesis using that c1(1) by simp
qed

lemma probe:
  assumes "probing ids Q L F t xs D (letter L F (append_message (N L) F)) c N"
  shows "\<exists>c' N'. can apl Q command (T, c) (T, c') \<and> live ids Q c' N' (\<lambda>d. []) (Q - {L, F}) \<and> caught_up Q L t xs (insert F D) N'"
  using assms
proof (induction "nat (the (dict_get (next_index (N L)) F))" arbitrary: c N rule: less_induct)
  case less
  obtain k where k: "dict_get (next_index (N L)) F = Some k" "1 \<le> k" using probingD(16) [OF less.prems] by auto
  obtain c1 nd r where a: "can apl Q command (T, c) (T, c1)"
    "probing ids Q L F t xs D (letter F L (MAppendEntriesReply r)) c1 (N(F := nd))"
    "aer_term r = t" "aer_success r \<longrightarrow> aer_match_index r = int (length xs)" "\<not> aer_success r \<longrightarrow> retry_index (N L) r < k"
    by (rule probe_answered [OF less.prems k(1)])
  have FL: "F \<noteq> L" by (rule probingD(4) [OF less.prems])
  show ?case
  proof (cases "aer_success r")
    case True
    obtain c' N' where "can apl Q command (T, c1) (T, c')" "live ids Q c' N' (\<lambda>d. []) (Q - {L, F})" "caught_up Q L t xs (insert F D) N'"
      by (rule probe_accepted [OF a(2,3) True mp [OF a(4) True]])
    then show ?thesis using can_trans [OF a(1)] by blast
  next
    case False
    obtain c2 nd2 where b: "can apl Q command (T, c1) (T, c2)"
      "probing ids Q L F t xs D (letter L F (append_message nd2 F)) c2 ((N(F := nd))(L := nd2))"
      "dict_get (next_index nd2) F = Some (retry_index ((N(F := nd)) L) r)"
      by (rule probe_refused [OF a(2,3) False])
    let ?N = "(N(F := nd))(L := nd2)"
    have "nat (the (dict_get (next_index (?N L)) F)) < nat (the (dict_get (next_index (N L)) F))"
      using a(5) False b(3) k FL by simp
    moreover have "probing ids Q L F t xs D (letter L F (append_message (?N L) F)) c2 ?N"
      using b(2) unfolding fun_upd_same .
    ultimately show ?thesis using less.hyps can_trans [OF can_trans [OF a(1) b(1)]] by blast
  qed
qed

text \<open>A heartbeat sends the leader's entries to \<open>F\<close>, and probing starts.\<close>

lemma heartbeat_to:
  assumes live: "live ids Q c N (\<lambda>d. []) (Q - {L, F})" and Q: "card Q = majority_size (card (set ids))"
    and L: "L \<in> Q" "F \<in> Q - {L}" and lead: "leading t xs D (N L)"
  obtains T' c' nd where "can apl Q command (T, c) (T', c')" "live ids Q c' (N(L := nd)) (letter L F (append_message nd F)) (Q - {L, F})"
    "leading t xs D nd"
proof -
  note q = live_quorum [OF live L(1) Q]
  obtain d where d: "next_heartbeat_deadline (N L) = Some d" using lead by (auto simp: leading_def)
  let ?now = "max T d"
  let ?nd = "(N L)\<lparr>next_heartbeat_deadline := Some (?now + heartbeat_interval (N L))\<rparr>"
  have run: "tick ?now (N L) = (?nd, map (\<lambda>peer. (peer, append_message ?nd peer)) (peer_ids (N L)))"
    using lead d by (simp add: tick_def leading_def broadcast_append_messages)
  obtain c1 where c1: "can apl Q command (T, c) (?now, c1)"
    "live ids Q c1 (N(L := ?nd)) (\<lambda>d. [] @ mail (Q - {L, F}) L (map (\<lambda>peer. (peer, append_message ?nd peer)) (peer_ids (N L))) d) (Q - {L, F})"
    by (rule tick_step [OF live L(1) max.cobounded1 run])
  have "live ids Q c1 (N(L := ?nd)) (letter L F (append_message ?nd F)) (Q - {L, F})"
    by (rule live_cong [OF c1(2)]) (use q(2,3,5) L in \<open>auto simp: mail_messages\<close>)
  moreover have "leading t xs D ?nd" using lead by (simp add: leading_def current_term_def)
  ultimately show thesis using that c1(1) by blast
qed

lemma catch_up_one:
  assumes live: "live ids Q c N (\<lambda>d. []) X" and Q: "card Q = majority_size (card (set ids))" and L: "L \<in> Q" "F \<in> Q - {L}" "F \<notin> D"
    and xs: "xs \<noteq> []" "entry_term (last xs) = t" and up: "caught_up Q L t xs D N"
  obtains T' c' N' where "can apl Q command (T, c) (T', c')" "live ids Q c' N' (\<lambda>d. []) (Q - {L, F})" "caught_up Q L t xs (insert F D) N'"
proof -
  have X: "Q - {L, F} \<subseteq> Q" by blast
  obtain c1 where c1: "can apl Q command (T, c) (T, c1)" "live ids Q c1 N (\<lambda>d. []) (Q - {L, F})" by (rule cut_to [OF live X])
  have lead: "leading t xs D (N L)" "\<forall>G \<in> Q - {L}. current_term (N G) = t" using up by (simp_all add: caught_up_def)
  obtain T' c2 nd where c2: "can apl Q command (T, c1) (T', c2)"
    "live ids Q c2 (N(L := nd)) (letter L F (append_message nd F)) (Q - {L, F})" "leading t xs D nd"
    by (rule heartbeat_to [OF c1(2) Q L(1,2) lead(1)])
  have "probing ids Q L F t xs D (letter L F (append_message ((N(L := nd)) L) F)) c2 (N(L := nd))"
    using c2(2,3) Q L xs lead(2) unfolding fun_upd_same by (auto simp: probing_def)
  from probe [OF this, of apl command T'] show thesis
    using that can_trans [OF can_trans [OF c1(1) c2(1)]] by blast
qed

lemma catch_up_all:
  assumes "live ids Q c N (\<lambda>d. []) X" "card Q = majority_size (card (set ids))" "L \<in> Q" "set Fs = Q - {L} - D" "distinct Fs"
    "xs \<noteq> []" "entry_term (last xs) = t" "caught_up Q L t xs D N" "D \<subseteq> Q - {L}"
  shows "\<exists>T' c' N' X'. can apl Q command (T, c) (T', c') \<and> live ids Q c' N' (\<lambda>d. []) X' \<and> caught_up Q L t xs (Q - {L}) N'"
  using assms
proof (induction Fs arbitrary: T c N X D)
  case Nil
  then have "D = Q - {L}" by auto
  then show ?case using Nil.prems(1,8) can_refl [of apl Q command "(T, c)"] by blast
next
  case (Cons F Fs)
  have F: "F \<in> Q - {L}" "F \<notin> D" using Cons.prems(4) by auto
  obtain T1 c1 N1 where one: "can apl Q command (T, c) (T1, c1)" "live ids Q c1 N1 (\<lambda>d. []) (Q - {L, F})" "caught_up Q L t xs (insert F D) N1"
    by (rule catch_up_one [OF Cons.prems(1-3) F Cons.prems(6-8)])
  have "set Fs = Q - {L} - insert F D" "insert F D \<subseteq> Q - {L}" using Cons.prems(4,5,9) F by auto
  then have "\<exists>T' c' N' X'. can apl Q command (T1, c1) (T', c') \<and> live ids Q c' N' (\<lambda>d. []) X' \<and> caught_up Q L t xs (Q - {L}) N'"
    using Cons.prems(2,3,5-7) one(2,3) by (intro Cons.IH [of c1 N1 _ "insert F D"]) auto
  then show ?case using can_trans [OF one(1)] by blast
qed

section \<open>No state is a dead end\<close>

lemma quorum_commits:
  assumes c: "reachable_state ids c" and Q: "Q \<subseteq> set ids" "card Q = majority_size (card (set ids))" "2 \<le> card Q"
  obtains T' c' N L t xs where "can apl Q command (T, c) (T', c')" "live ids Q c' N (\<lambda>d. []) {}" "L \<in> Q"
    "leading t (xs @ [LogEntry t (int (length xs) + 1) command]) (Q - {L}) (N L)" "commit_index (N L) = int (length xs) + 1"
proof -
  obtain c1 N1 where c1: "can apl Q command (T, c) (T, c1)" "live ids Q c1 N1 (\<lambda>d. []) {}" "\<forall>n \<in> Q. fresh (N1 n)"
    by (rule fresh_start [OF c Q(1)])
  obtain T2 c2 N2 L where c2: "can apl Q command (T, c1) (T2, c2)" "live ids Q c2 N2 (\<lambda>d. []) {}" "\<forall>n \<in> Q. fresh (N2 n)" "best Q N2 L"
    by (rule prepare_leader [OF c1(2) Q(2,3) c1(3)])
  have L: "L \<in> Q" using c2(4) by (simp add: best_def)
  let ?t = "current_term (N2 L) + 1" and ?lli = "last_index (storage (N2 L))" and ?llt = "last_term (storage (N2 L))"
  obtain T3 c3 nd where c3: "can apl Q command (T2, c2) (T3, c3)" "current_term nd = current_term (N2 L)" "storage nd = storage (N2 L)"
    "last_applied nd = commit_index nd"
    "live ids Q c3 (N2(L := standing T3 nd)) (\<lambda>d. if d = L then [] else [Envelope L d (MRequestVoteArgs (RequestVoteArgs ?t L ?lli ?llt))]) {}"
    by (rule win_prevote [OF c2(2) Q(2,3) c2(3,4)])
  let ?N = "N2(L := standing T3 nd)"
  have id: "node_id nd = L" using live_quorum(4) [OF c3(5) L Q(2)] by simp
  have cand: "state (?N L) = CANDIDATE" "current_term (?N L) = ?t" "votes_received (?N L) = {L}" "last_applied (?N L) = commit_index (?N L)"
    using c3(2,4) id by simp_all
  have voters: "\<forall>F \<in> Q - {L}. current_term (?N F) < ?t \<and> log_up_to_date (?N F) ?lli ?llt" using c2(4) by (auto simp: best_def zle_add1_eq_le)
  obtain c4 N4 where c4: "can apl Q command (T3, c3) (T3, c4)" "live ids Q c4 N4 (\<lambda>d. []) (Q - {L})"
    "leading ?t (st_log (storage (?N L))) {} (N4 L)" "\<forall>F \<in> Q - {L}. current_term (N4 F) = ?t"
    by (rule win_election [OF c3(5) Q(2,3) L cand voters])
  let ?xs = "st_log (storage (?N L))" and ?e = "LogEntry ?t (int (length (st_log (storage (?N L)))) + 1) command"
  obtain c5 nd5 where c5: "can apl Q command (T3, c4) (T3, c5)" "live ids Q c5 (N4(L := nd5)) (\<lambda>d. []) (Q - {L})" "leading ?t (?xs @ [?e]) {} nd5"
    by (rule lead_with [OF c4(2) L c4(3)])
  have "Q - {L} \<noteq> {}" using Q(3) card_mono [of "{L}" Q] by auto
  then have "caught_up Q L ?t (?xs @ [?e]) {} (N4(L := nd5))" using c4(4) c5(3) by (auto simp: caught_up_def)
  moreover obtain Fs where Fs: "set Fs = Q - {L} - {}" "distinct Fs" using finite_distinct_list [of "Q - {L} - {}"] finite_subset [OF Q(1)] by auto
  ultimately obtain T6 c6 N6 X6 where c6: "can apl Q command (T3, c5) (T6, c6)" "live ids Q c6 N6 (\<lambda>d. []) X6" "caught_up Q L ?t (?xs @ [?e]) (Q - {L}) N6"
    using catch_up_all [OF c5(2) Q(2) L Fs, of "?xs @ [?e]" ?t apl command T3] by auto
  obtain c7 where c7: "can apl Q command (T6, c6) (T6, c7)" "live ids Q c7 N6 (\<lambda>d. []) {}" by (rule cut_to [OF c6(2) empty_subsetI])
  note run = can_trans [OF can_trans [OF can_trans [OF can_trans [OF can_trans [OF can_trans [OF c1(1) c2(1)] c3(1)] c4(1)] c5(1)] c6(1)] c7(1)]
  show thesis using that [OF run c7(2) L, of ?t ?xs] c6(3) by (auto simp: caught_up_def)
qed

lemma quorum_action_mono: "Q \<subseteq> Q' \<Longrightarrow> quorum_action Q command a \<Longrightarrow> quorum_action Q' command a"
  by (cases a) auto

lemma outside_unchanged:
  assumes "cluster_run apl acts c = Inr c'" "list_all (quorum_action Q command) acts" "n \<notin> Q"
  shows "dict_get (rc_runtimes c') n = dict_get (rc_runtimes c) n"
  using assms
proof (induction acts arbitrary: c)
  case (Cons a acts)
  obtain c1 where c1: "cluster_act apl a c = Inr c1" "cluster_run apl acts c1 = Inr c'" using Cons.prems(1) by (auto simp: rbind_Inr_conv)
  have "dict_get (rc_runtimes c1) n = dict_get (rc_runtimes c) n"
    using c1(1) Cons.prems(2,3)
    by (cases a) (auto simp: revive_def put_runtime_def rbind_Inr_conv Let_def split: if_splits option.splits elim!: with_runtimeE)
  then show ?case using Cons.IH [OF c1(2)] Cons.prems(2,3) by simp
qed simp



end
