(* ===== verification/Grpc_Messages.thy ===== *)
theory Grpc_Messages
  imports Raft_Types "HOL-Library.Word"
begin

text \<open>
  The protobuf messages of proto/raft.proto and the conversions of coordinator/grpc/serialization.py.
  An \<open>int64\<close> field holds a 64-bit word, read as a signed number; assigning a Python integer that does
  not fit raises. A command travels as the bytes that pickle makes of it: \<open>dumps\<close> and \<open>loads\<close> are
  arguments, and the round trips below rely on \<open>loads\<close> undoing \<open>dumps\<close>.
\<close>

section \<open>Messages\<close>

type_synonym int64 = "64 word"

datatype 'b pb_log_entry = PbLogEntry
  (ple_term: int64) (ple_index: int64) (ple_command: 'b)

datatype pb_request_vote_args = PbRequestVoteArgs
  (prva_term: int64) (prva_candidate_id: string) (prva_last_log_index: int64) (prva_last_log_term: int64)

datatype pb_request_vote_reply = PbRequestVoteReply
  (prvr_term: int64) (prvr_vote_granted: bool) (prvr_voter_id: string)

datatype pb_prevote_args = PbPreVoteArgs
  (ppva_term: int64) (ppva_candidate_id: string) (ppva_last_log_index: int64) (ppva_last_log_term: int64)

datatype pb_prevote_reply = PbPreVoteReply
  (ppvr_term: int64) (ppvr_vote_granted: bool) (ppvr_voter_id: string)

datatype 'b pb_append_entries_args = PbAppendEntriesArgs
  (paea_term: int64) (paea_leader_id: string) (paea_prev_log_index: int64) (paea_prev_log_term: int64)
  (paea_entries: "'b pb_log_entry list") (paea_leader_commit: int64)

datatype pb_append_entries_reply = PbAppendEntriesReply
  (paer_term: int64) (paer_success: bool) (paer_responder_id: string) (paer_match_index: int64)
  (paer_conflict_index: int64) (paer_conflict_term: int64)

section \<open>Conversions\<close>

definition int64_of :: "int \<Rightarrow> int64 result" where
  "int64_of i = (if - (2 ^ 63) \<le> i \<and> i < 2 ^ 63 then Inr (word_of_int i) else Inl ValueError)"

fun rmap :: "('a \<Rightarrow> 'b result) \<Rightarrow> 'a list \<Rightarrow> 'b list result" where
  "rmap f [] = Inr []"
| "rmap f (x # xs) = rbind (f x) (\<lambda>y. rbind (rmap f xs) (\<lambda>ys. Inr (y # ys)))"

definition log_entry_to_proto :: "('c \<Rightarrow> 'b) \<Rightarrow> 'c log_entry \<Rightarrow> 'b pb_log_entry result" where
  "log_entry_to_proto dumps entry =
     rbind (int64_of (entry_term entry)) (\<lambda>t. rbind (int64_of (entry_index entry)) (\<lambda>i.
       Inr (PbLogEntry t i (dumps (entry_command entry)))))"

definition log_entry_from_proto :: "('b \<Rightarrow> 'c result) \<Rightarrow> 'b pb_log_entry \<Rightarrow> 'c log_entry result" where
  "log_entry_from_proto loads proto =
     rbind (loads (ple_command proto)) (\<lambda>c. Inr (LogEntry (sint (ple_term proto)) (sint (ple_index proto)) c))"

definition request_vote_args_to_proto :: "request_vote_args \<Rightarrow> pb_request_vote_args result" where
  "request_vote_args_to_proto args =
     rbind (int64_of (rva_term args)) (\<lambda>t. rbind (int64_of (rva_last_log_index args)) (\<lambda>li.
       rbind (int64_of (rva_last_log_term args)) (\<lambda>lt. Inr (PbRequestVoteArgs t (rva_candidate_id args) li lt))))"

definition request_vote_args_from_proto :: "pb_request_vote_args \<Rightarrow> request_vote_args" where
  "request_vote_args_from_proto proto =
     RequestVoteArgs (sint (prva_term proto)) (prva_candidate_id proto) (sint (prva_last_log_index proto))
       (sint (prva_last_log_term proto))"

definition request_vote_reply_to_proto :: "request_vote_reply \<Rightarrow> pb_request_vote_reply result" where
  "request_vote_reply_to_proto reply =
     rbind (int64_of (rvr_term reply)) (\<lambda>t. Inr (PbRequestVoteReply t (rvr_vote_granted reply) (rvr_voter_id reply)))"

definition request_vote_reply_from_proto :: "pb_request_vote_reply \<Rightarrow> request_vote_reply" where
  "request_vote_reply_from_proto proto =
     RequestVoteReply (sint (prvr_term proto)) (prvr_vote_granted proto) (prvr_voter_id proto)"

definition prevote_args_to_proto :: "prevote_args \<Rightarrow> pb_prevote_args result" where
  "prevote_args_to_proto args =
     rbind (int64_of (pva_term args)) (\<lambda>t. rbind (int64_of (pva_last_log_index args)) (\<lambda>li.
       rbind (int64_of (pva_last_log_term args)) (\<lambda>lt. Inr (PbPreVoteArgs t (pva_candidate_id args) li lt))))"

definition prevote_args_from_proto :: "pb_prevote_args \<Rightarrow> prevote_args" where
  "prevote_args_from_proto proto =
     PreVoteArgs (sint (ppva_term proto)) (ppva_candidate_id proto) (sint (ppva_last_log_index proto))
       (sint (ppva_last_log_term proto))"

definition prevote_reply_to_proto :: "prevote_reply \<Rightarrow> pb_prevote_reply result" where
  "prevote_reply_to_proto reply =
     rbind (int64_of (pvr_term reply)) (\<lambda>t. Inr (PbPreVoteReply t (pvr_vote_granted reply) (pvr_voter_id reply)))"

definition prevote_reply_from_proto :: "pb_prevote_reply \<Rightarrow> prevote_reply" where
  "prevote_reply_from_proto proto = PreVoteReply (sint (ppvr_term proto)) (ppvr_vote_granted proto) (ppvr_voter_id proto)"

definition append_entries_args_to_proto :: "('c \<Rightarrow> 'b) \<Rightarrow> 'c append_entries_args \<Rightarrow> 'b pb_append_entries_args result" where
  "append_entries_args_to_proto dumps args =
     rbind (rmap (log_entry_to_proto dumps) (aea_entries args)) (\<lambda>es.
       rbind (int64_of (aea_term args)) (\<lambda>t. rbind (int64_of (aea_prev_log_index args)) (\<lambda>pi.
         rbind (int64_of (aea_prev_log_term args)) (\<lambda>pt. rbind (int64_of (aea_leader_commit args)) (\<lambda>lc.
           Inr (PbAppendEntriesArgs t (aea_leader_id args) pi pt es lc))))))"

definition append_entries_args_from_proto :: "('b \<Rightarrow> 'c result) \<Rightarrow> 'b pb_append_entries_args \<Rightarrow> 'c append_entries_args result" where
  "append_entries_args_from_proto loads proto =
     rbind (rmap (log_entry_from_proto loads) (paea_entries proto)) (\<lambda>es.
       Inr (AppendEntriesArgs (sint (paea_term proto)) (paea_leader_id proto) (sint (paea_prev_log_index proto))
              (sint (paea_prev_log_term proto)) es (sint (paea_leader_commit proto))))"

definition append_entries_reply_to_proto :: "append_entries_reply \<Rightarrow> pb_append_entries_reply result" where
  "append_entries_reply_to_proto reply =
     rbind (int64_of (aer_term reply)) (\<lambda>t. rbind (int64_of (aer_match_index reply)) (\<lambda>mi.
       rbind (int64_of (aer_conflict_index reply)) (\<lambda>ci. rbind (int64_of (aer_conflict_term reply)) (\<lambda>ct.
         Inr (PbAppendEntriesReply t (aer_success reply) (aer_responder_id reply) mi ci ct)))))"

definition append_entries_reply_from_proto :: "pb_append_entries_reply \<Rightarrow> append_entries_reply" where
  "append_entries_reply_from_proto proto =
     AppendEntriesReply (sint (paer_term proto)) (paer_success proto) (paer_responder_id proto)
       (sint (paer_match_index proto)) (sint (paer_conflict_index proto)) (sint (paer_conflict_term proto))"

section \<open>Round trips\<close>

definition fits64 :: "int \<Rightarrow> bool" where
  "fits64 i \<longleftrightarrow> - (2 ^ 63) \<le> i \<and> i < 2 ^ 63"

lemma int64_of_sint: "int64_of i = Inr w \<Longrightarrow> sint w = i"
  by (auto simp: int64_of_def sint_sbintrunc' signed_take_bit_int_eq_self split: if_splits)

lemma int64_of_eq: "int64_of i = (if fits64 i then Inr (word_of_int i) else Inl ValueError)"
  by (simp add: int64_of_def fits64_def)

named_theorems wire_defs

lemmas [wire_defs] = log_entry_to_proto_def log_entry_from_proto_def request_vote_args_to_proto_def
  request_vote_args_from_proto_def request_vote_reply_to_proto_def request_vote_reply_from_proto_def
  prevote_args_to_proto_def prevote_args_from_proto_def prevote_reply_to_proto_def prevote_reply_from_proto_def
  append_entries_args_to_proto_def append_entries_args_from_proto_def append_entries_reply_to_proto_def
  append_entries_reply_from_proto_def

lemma rmap_roundtrip:
  assumes "\<And>x y. x \<in> set xs \<Longrightarrow> f x = Inr y \<Longrightarrow> g y = Inr x" "rmap f xs = Inr ys"
  shows "rmap g ys = Inr xs"
  using assms
proof (induction xs arbitrary: ys)
  case (Cons x xs)
  then show ?case by (auto simp: rbind_Inr_conv)
qed simp

lemma rmap_ok: "(\<exists>ys. rmap f xs = Inr ys) \<longleftrightarrow> (\<forall>x \<in> set xs. \<exists>y. f x = Inr y)"
  by (induction xs) (auto simp: rbind_Inr_conv)

text \<open>The four messages without commands.\<close>

lemma vote_roundtrips:
  "request_vote_args_to_proto args = Inr p1 \<Longrightarrow> request_vote_args_from_proto p1 = args"
  "request_vote_reply_to_proto reply = Inr p2 \<Longrightarrow> request_vote_reply_from_proto p2 = reply"
  "prevote_args_to_proto pargs = Inr p3 \<Longrightarrow> prevote_args_from_proto p3 = pargs"
  "prevote_reply_to_proto preply = Inr p4 \<Longrightarrow> prevote_reply_from_proto p4 = preply"
  "append_entries_reply_to_proto areply = Inr p5 \<Longrightarrow> append_entries_reply_from_proto p5 = areply"
  by (auto simp: wire_defs rbind_Inr_conv dest!: int64_of_sint)

text \<open>The contract of pickle on the commands of a cluster.\<close>

locale pickling =
  fixes dumps :: "'c \<Rightarrow> 'b" and loads :: "'b \<Rightarrow> 'c result"
  assumes loads_dumps: "loads (dumps c) = Inr c"
begin

lemma log_entry_roundtrip: "log_entry_to_proto dumps e = Inr p \<Longrightarrow> log_entry_from_proto loads p = Inr e"
  by (auto simp: wire_defs rbind_Inr_conv loads_dumps dest!: int64_of_sint)

lemma append_entries_roundtrip:
  assumes "append_entries_args_to_proto dumps args = Inr p"
  shows "append_entries_args_from_proto loads p = Inr args"
proof -
  obtain es where "rmap (log_entry_to_proto dumps) (aea_entries args) = Inr es" "paea_entries p = es"
    using assms by (auto simp: append_entries_args_to_proto_def rbind_Inr_conv)
  then have "rmap (log_entry_from_proto loads) (paea_entries p) = Inr (aea_entries args)"
    using rmap_roundtrip [of "aea_entries args" "log_entry_to_proto dumps" "log_entry_from_proto loads"] log_entry_roundtrip by blast
  then show ?thesis
    using assms by (auto simp: append_entries_args_to_proto_def append_entries_args_from_proto_def rbind_Inr_conv dest!: int64_of_sint)
qed

end

text \<open>The numbers of a message.\<close>

definition entry_fits :: "'c log_entry \<Rightarrow> bool" where
  "entry_fits e \<longleftrightarrow> fits64 (entry_term e) \<and> fits64 (entry_index e)"

definition append_args_fit :: "'c append_entries_args \<Rightarrow> bool" where
  "append_args_fit args \<longleftrightarrow> list_all entry_fits (aea_entries args) \<and> fits64 (aea_term args) \<and>
     fits64 (aea_prev_log_index args) \<and> fits64 (aea_prev_log_term args) \<and> fits64 (aea_leader_commit args)"

lemma append_args_to_proto_fit: "(\<exists>p. append_entries_args_to_proto dumps args = Inr p) \<longleftrightarrow> append_args_fit args"
proof -
  have "(\<exists>p. log_entry_to_proto dumps e = Inr p) \<longleftrightarrow> entry_fits e" for e
    by (auto simp: log_entry_to_proto_def int64_of_eq entry_fits_def rbind_Inr_conv)
  then have "(\<exists>es. rmap (log_entry_to_proto dumps) (aea_entries args) = Inr es) \<longleftrightarrow> list_all entry_fits (aea_entries args)"
    by (simp add: rmap_ok list_all_iff)
  then show ?thesis
    by (auto simp: append_entries_args_to_proto_def append_args_fit_def int64_of_eq rbind_Inr_conv)
qed

lemma rmap_Inl: "rmap f xs = Inl e \<Longrightarrow> \<exists>x \<in> set xs. f x = Inl e"
  by (induction xs) (auto simp: rbind_Inl_conv)

text \<open>
  C13: An AppendEntries call goes over the wire unchanged: when every term and index of it fits in 64 bits,
  it is encoded, and decoding gives it back with all its entries and commands; otherwise encoding raises
  ValueError and nothing is sent.
\<close>

theorem append_entries_wire:
  assumes "pickling dumps loads"
  shows "if append_args_fit args
    then (\<exists>p. append_entries_args_to_proto dumps args = Inr p \<and> append_entries_args_from_proto loads p = Inr args)
    else append_entries_args_to_proto dumps args = Inl ValueError"
proof (cases "append_args_fit args")
  case True
  then obtain p where "append_entries_args_to_proto dumps args = Inr p" using append_args_to_proto_fit by blast
  then show ?thesis using True pickling.append_entries_roundtrip [OF assms] by auto
next
  case False
  then obtain e where e: "append_entries_args_to_proto dumps args = Inl e"
    using append_args_to_proto_fit [of dumps args] by (cases "append_entries_args_to_proto dumps args") auto
  have "log_entry_to_proto dumps x = Inl e' \<Longrightarrow> e' = ValueError" for x e'
    by (auto simp: log_entry_to_proto_def int64_of_eq rbind_Inl_conv split: if_splits)
  then have "e = ValueError"
    using e by (auto simp: append_entries_args_to_proto_def int64_of_eq rbind_Inl_conv dest!: rmap_Inl split: if_splits)
  then show ?thesis using False e by simp
qed

text \<open>The bytes of a pickled object, kept opaque: they stand for the object and nothing else.\<close>

datatype 'c pickled = Pickled 'c

definition pickle_loads :: "'c pickled \<Rightarrow> 'c result" where
  "pickle_loads b = (case b of Pickled c \<Rightarrow> Inr c)"

interpretation pickle: pickling Pickled pickle_loads
  by unfold_locales (simp add: pickle_loads_def)

definition demo_append :: "string append_entries_args" where
  "demo_append = AppendEntriesArgs 3 ''a'' 1 2 [LogEntry 3 2 ''debit''] (-1)"

theorem append_entries_wire_witness:
  "\<exists>p. append_entries_args_to_proto Pickled demo_append = Inr p \<and> append_entries_args_from_proto pickle_loads p = Inr demo_append"
proof -
  have "append_args_fit demo_append" by (simp add: append_args_fit_def demo_append_def entry_fits_def fits64_def)
  then show ?thesis using append_entries_wire [OF pickle.pickling_axioms, of demo_append] by simp
qed

text \<open>
  The vote requests, all replies and their conversions: whenever encoding succeeds, decoding gives the
  same message back, negative markers such as the conflict term -1 included.
\<close>

lemma vote_and_reply_wire:
  "(case request_vote_args_to_proto args of Inr p \<Rightarrow> request_vote_args_from_proto p = args
    | Inl e \<Rightarrow> e = ValueError \<and> \<not> (fits64 (rva_term args) \<and> fits64 (rva_last_log_index args) \<and> fits64 (rva_last_log_term args))) \<and>
   (case request_vote_reply_to_proto reply of Inr p \<Rightarrow> request_vote_reply_from_proto p = reply
    | Inl e \<Rightarrow> e = ValueError \<and> \<not> fits64 (rvr_term reply)) \<and>
   (case prevote_args_to_proto pargs of Inr p \<Rightarrow> prevote_args_from_proto p = pargs
    | Inl e \<Rightarrow> e = ValueError \<and> \<not> (fits64 (pva_term pargs) \<and> fits64 (pva_last_log_index pargs) \<and> fits64 (pva_last_log_term pargs))) \<and>
   (case prevote_reply_to_proto preply of Inr p \<Rightarrow> prevote_reply_from_proto p = preply
    | Inl e \<Rightarrow> e = ValueError \<and> \<not> fits64 (pvr_term preply)) \<and>
   (case append_entries_reply_to_proto areply of Inr p \<Rightarrow> append_entries_reply_from_proto p = areply
    | Inl e \<Rightarrow> e = ValueError \<and> \<not> (fits64 (aer_term areply) \<and> fits64 (aer_match_index areply) \<and>
        fits64 (aer_conflict_index areply) \<and> fits64 (aer_conflict_term areply)))"
  by (intro conjI) (auto simp: vote_roundtrips split: sum.split, auto simp: wire_defs int64_of_eq rbind_Inl_conv split: if_splits)

end
