(* ===== verification/Grpc_Cluster.thy ===== *)
theory Grpc_Cluster
  imports Grpc_Messages Raft_Turns
begin

text \<open>
  A cluster whose nodes are separate processes (coordinator/grpc/): the service that answers calls
  (raft_service.py), the transport that makes them and injects the replies (raft_transport.py), and the
  node that wires both together (node_bootstrap.py). The executor's pending calls and the replies on
  their way back are lists; a call or a reply may be lost at any time.
\<close>

section \<open>The service (raft_service.py)\<close>

text \<open>
  A handler returns the runtime it leaves and the encoded reply. Encoding may raise after the node has
  changed; an exception of the node itself is the outer \<open>Inl\<close>.
\<close>

definition RequestVote ::
  "pb_request_vote_args \<Rightarrow> rat \<Rightarrow> ('c, 's) runtime \<Rightarrow> ('c, 's) runtime \<times> pb_request_vote_reply result" where
  "RequestVote request now rt =
     (let (rt, reply) = runtime_handle_request_vote (request_vote_args_from_proto request) now rt
      in (rt, request_vote_reply_to_proto reply))"

definition PreVote ::
  "pb_prevote_args \<Rightarrow> rat \<Rightarrow> ('c, 's) runtime \<Rightarrow> ('c, 's) runtime \<times> pb_prevote_reply result" where
  "PreVote request now rt = (rt, prevote_reply_to_proto (runtime_handle_prevote (prevote_args_from_proto request) now rt))"

definition AppendEntries ::
  "('b \<Rightarrow> 'c result) \<Rightarrow> ('c \<Rightarrow> 's \<Rightarrow> 's) \<Rightarrow> 'b pb_append_entries_args \<Rightarrow> rat \<Rightarrow> ('c, 's) runtime
   \<Rightarrow> (('c, 's) runtime \<times> pb_append_entries_reply result) result" where
  "AppendEntries loads apl request now rt =
     rbind (append_entries_args_from_proto loads request) (\<lambda>args.
       rbind (runtime_handle_append_entries apl args now rt) (\<lambda>(rt, reply). Inr (rt, append_entries_reply_to_proto reply)))"

datatype propose_reply = ProposeReply
  (ppr_accepted: bool) (ppr_term: int64) (ppr_index: int64) (ppr_leader_hint: string)

definition Propose_rpc ::
  "(string \<Rightarrow> string \<Rightarrow> 'c message \<Rightarrow> 't \<Rightarrow> 't) \<Rightarrow> ('b \<Rightarrow> 'c result) \<Rightarrow> 'b \<Rightarrow> rat \<Rightarrow> 't \<times> ('c, 's) runtime
   \<Rightarrow> (('t \<times> ('c, 's) runtime) \<times> propose_reply result) result" where
  "Propose_rpc tsend loads request now trt =
     rbind (loads request) (\<lambda>command.
       let (trt, entry) = runtime_propose tsend command now trt
       in Inr (trt,
            case entry of
              None \<Rightarrow> Inr (ProposeReply False 0 0 (case runtime_leader_id (snd trt) of None \<Rightarrow> '''' | Some l \<Rightarrow> l))
            | Some e \<Rightarrow>
                rbind (int64_of (entry_term e)) (\<lambda>t. rbind (int64_of (entry_index e)) (\<lambda>i.
                  Inr (ProposeReply True t i (runtime_node_id (snd trt)))))))"

section \<open>The transport (raft_transport.py)\<close>

text \<open>
  A transport knows the address of every peer and keeps a stub for each peer it has called; the stub of a
  peer is its channel's address. After \<open>close\<close> its executor takes no more calls.
\<close>

record grpc_transport =
  gt_addresses :: "(string, string) dict"
  gt_stubs :: "(string, string) dict"
  gt_self_node_id :: "string option"
  gt_closed :: bool

definition GrpcRaftTransport :: "(string, string) dict \<Rightarrow> grpc_transport" where
  "GrpcRaftTransport addresses = \<lparr>gt_addresses = addresses, gt_stubs = [], gt_self_node_id = None, gt_closed = False\<rparr>"

definition bind_runtime :: "('c, 's) runtime \<Rightarrow> grpc_transport \<Rightarrow> grpc_transport" where
  "bind_runtime rt tr = tr\<lparr>gt_self_node_id := Some (runtime_node_id rt)\<rparr>"

definition close_transport :: "grpc_transport \<Rightarrow> grpc_transport" where
  "close_transport tr = tr\<lparr>gt_closed := True\<rparr>"

definition stub_for :: "string \<Rightarrow> grpc_transport \<Rightarrow> (string \<times> grpc_transport) result" where
  "stub_for n tr =
     (case dict_get (gt_stubs tr) n of
        Some stub \<Rightarrow> Inr (stub, tr)
      | None \<Rightarrow>
          (case dict_get (gt_addresses tr) n of
             None \<Rightarrow> Inl KeyError
           | Some address \<Rightarrow> Inr (address, tr\<lparr>gt_stubs := dict_set n address (gt_stubs tr)\<rparr>)))"

text \<open>A call that is waiting in the executor, and a reply that is on its way to the caller.\<close>

datatype 'c call = Call (call_from: string) (call_to: string) (call_message: "'c message")

datatype pb_reply =
    RVReply pb_request_vote_reply
  | PVReply pb_prevote_reply
  | AEReply pb_append_entries_reply

datatype answer = Answer (answer_from: string) (answer_to: string) (answer_reply: pb_reply)

fun is_reply :: "'c message \<Rightarrow> bool" where
  "is_reply (MRequestVoteReply r) \<longleftrightarrow> True"
| "is_reply (MPreVoteReply r) \<longleftrightarrow> True"
| "is_reply (MAppendEntriesReply r) \<longleftrightarrow> True"
| "is_reply _ \<longleftrightarrow> False"

text \<open>
  \<open>send\<close> drops replies, which are returned by the service itself, and submits requests; \<open>register\<close> does
  nothing, and \<open>deliver_to\<close> finds nothing to deliver.
\<close>

definition grpc_send :: "string \<Rightarrow> string \<Rightarrow> 'c message \<Rightarrow> 'c call list \<Rightarrow> 'c call list" where
  "grpc_send sender recipient message calls = (if is_reply message then calls else calls @ [Call sender recipient message])"

definition grpc_register :: "string \<Rightarrow> 'c call list \<Rightarrow> 'c call list" where
  "grpc_register n calls = calls"

definition grpc_deliver_to ::
  "string \<Rightarrow> ('c envelope \<Rightarrow> 'c call list \<times> 'x \<Rightarrow> ('c call list \<times> 'x) result) \<Rightarrow> 'c call list \<times> 'x
   \<Rightarrow> (nat \<times> 'c call list \<times> 'x) result option" where
  "grpc_deliver_to n handler tx = Some (Inr (0, tx))"

text \<open>
  The first half of \<open>_send_request_and_inject_reply\<close>: the request is encoded, the called node answers,
  the answer travels back. An exception on either side ends the call without an answer.
\<close>

definition make_call ::
  "('c \<Rightarrow> 'b) \<Rightarrow> ('b \<Rightarrow> 'c result) \<Rightarrow> ('c \<Rightarrow> 's \<Rightarrow> 's) \<Rightarrow> 'c message \<Rightarrow> rat \<Rightarrow> ('c, 's) runtime
   \<Rightarrow> (('c, 's) runtime \<times> pb_reply result) result" where
  "make_call dumps loads apl message now rt =
     (case message of
        MRequestVoteArgs args \<Rightarrow>
          rbind (request_vote_args_to_proto args) (\<lambda>request.
            let (rt, reply) = RequestVote request now rt in Inr (rt, rbind reply (\<lambda>r. Inr (RVReply r))))
      | MPreVoteArgs args \<Rightarrow>
          rbind (prevote_args_to_proto args) (\<lambda>request.
            let (rt, reply) = PreVote request now rt in Inr (rt, rbind reply (\<lambda>r. Inr (PVReply r))))
      | MAppendEntriesArgs args \<Rightarrow>
          rbind (append_entries_args_to_proto dumps args) (\<lambda>request.
            rbind (AppendEntries loads apl request now rt) (\<lambda>(rt, reply). Inr (rt, rbind reply (\<lambda>r. Inr (AEReply r)))))
      | _ \<Rightarrow> Inl TypeError)"

text \<open>The second half: the reply is decoded and handed to the runtime the transport is bound to.\<close>

definition reply_message :: "pb_reply \<Rightarrow> 'c message" where
  "reply_message r =
     (case r of
        RVReply p \<Rightarrow> MRequestVoteReply (request_vote_reply_from_proto p)
      | PVReply p \<Rightarrow> MPreVoteReply (prevote_reply_from_proto p)
      | AEReply p \<Rightarrow> MAppendEntriesReply (append_entries_reply_from_proto p))"

definition inject_reply ::
  "('c \<Rightarrow> 's \<Rightarrow> 's) \<Rightarrow> answer \<Rightarrow> rat \<Rightarrow> grpc_transport \<Rightarrow> 'c call list \<times> ('c, 's) runtime
   \<Rightarrow> ('c call list \<times> ('c, 's) runtime) result" where
  "inject_reply apl a now tr crt =
     (case gt_self_node_id tr of
        None \<Rightarrow> Inr crt
      | Some self \<Rightarrow> runtime_receive grpc_send apl now (Envelope (answer_from a) self (reply_message (answer_reply a))) crt)"

section \<open>Nodes (node_bootstrap.py)\<close>

record ('c, 's) grpc_process =
  gp_transport :: grpc_transport
  gp_runtime :: "('c, 's) runtime"
  gp_serving :: bool

definition GrpcRaftNode ::
  "string \<Rightarrow> (string, string) dict \<Rightarrow> 'c storage \<Rightarrow> 's \<Rightarrow> (nat \<Rightarrow> rat \<Rightarrow> rat \<Rightarrow> rat) \<Rightarrow> ('c, 's) grpc_process" where
  "GrpcRaftNode nid peer_addresses st sm rnd =
     (let transport = GrpcRaftTransport peer_addresses;
          node = RaftNode nid (dict_keys peer_addresses) st sm (3/10) (6/10) (1/10) rnd;
          rt = RaftNodeRuntime node (2/100)
      in \<lparr>gp_transport = bind_runtime rt transport, gp_runtime = rt, gp_serving = False\<rparr>)"

text \<open>
  \<open>start\<close> first starts the server and then the runtime, \<open>stop\<close> first stops the runtime and then the server
  and the transport. Calls may arrive in between, so that each is two actions. A process that has been
  closed is not started again.
\<close>

definition start_server :: "('c, 's) grpc_process \<Rightarrow> ('c, 's) grpc_process" where
  "start_server p = (if gt_closed (gp_transport p) then p else p\<lparr>gp_serving := True\<rparr>)"

definition start_driver :: "rat \<Rightarrow> ('c, 's) grpc_process \<Rightarrow> ('c, 's) grpc_process" where
  "start_driver now p = (if gt_closed (gp_transport p) then p else p\<lparr>gp_runtime := runtime_start now (gp_runtime p)\<rparr>)"

definition stop_driver :: "('c, 's) grpc_process \<Rightarrow> ('c, 's) grpc_process" where
  "stop_driver p = p\<lparr>gp_runtime := runtime_stop (gp_runtime p)\<rparr>"

definition stop_server :: "('c, 's) grpc_process \<Rightarrow> ('c, 's) grpc_process" where
  "stop_server p =
     (if rt_running (gp_runtime p) then p else p\<lparr>gp_serving := False, gp_transport := close_transport (gp_transport p)\<rparr>)"

section \<open>Executions\<close>

record ('c, 's) grpc_world =
  gw_nodes :: "(string, ('c, 's) grpc_process) dict"
  gw_calls :: "'c call list"
  gw_answers :: "answer list"

text \<open>The processes of a cluster, each with the addresses of the others, before any of them is started.\<close>

definition grpc_cluster ::
  "(string \<times> (string, string) dict) list \<Rightarrow> 's \<Rightarrow> (string \<Rightarrow> nat \<Rightarrow> rat \<Rightarrow> rat \<Rightarrow> rat) \<Rightarrow> ('c, 's) grpc_world" where
  "grpc_cluster procs sm0 rnd =
     \<lparr>gw_nodes = map (\<lambda>(n, addrs). (n, GrpcRaftNode n addrs InMemoryStorage sm0 (rnd n))) procs, gw_calls = [], gw_answers = []\<rparr>"

datatype 'c grpc_action =
    GListen string
  | GStart string rat
  | GStop string
  | GClose string
  | GTick string rat
  | GServe nat rat
  | GInject nat rat
  | GLoseCall nat
  | GLoseAnswer nat
  | GPropose string 'c rat

definition remove_nth :: "nat \<Rightarrow> 'a list \<Rightarrow> 'a list" where
  "remove_nth i xs = take i xs @ drop (Suc i) xs"

definition with_process ::
  "string \<Rightarrow> ('c, 's) grpc_world \<Rightarrow> (('c, 's) grpc_process \<Rightarrow> ('c, 's) grpc_world) \<Rightarrow> ('c, 's) grpc_world" where
  "with_process n w f = (case dict_get (gw_nodes w) n of None \<Rightarrow> w | Some p \<Rightarrow> f p)"

definition put_process :: "string \<Rightarrow> ('c, 's) grpc_process \<Rightarrow> ('c, 's) grpc_world \<Rightarrow> ('c, 's) grpc_world" where
  "put_process n p w = w\<lparr>gw_nodes := dict_set n p (gw_nodes w)\<rparr>"

definition put_turn ::
  "string \<Rightarrow> ('c, 's) grpc_process \<Rightarrow> 'c call list \<times> ('c, 's) runtime \<Rightarrow> ('c, 's) grpc_world \<Rightarrow> ('c, 's) grpc_world" where
  "put_turn n p crt w = (put_process n (p\<lparr>gp_runtime := snd crt\<rparr>) w)\<lparr>gw_calls := fst crt\<rparr>"

text \<open>A pending call is made: the caller looks up its stub, and a process that serves answers.\<close>

definition serve_call ::
  "('c \<Rightarrow> 'b) \<Rightarrow> ('b \<Rightarrow> 'c result) \<Rightarrow> ('c \<Rightarrow> 's \<Rightarrow> 's) \<Rightarrow> rat \<Rightarrow> 'c call \<Rightarrow> ('c, 's) grpc_world \<Rightarrow> ('c, 's) grpc_world" where
  "serve_call dumps loads apl now c w =
     with_process (call_to c) w (\<lambda>p.
       if \<not> gp_serving p then w
       else case make_call dumps loads apl (call_message c) now (gp_runtime p) of
              Inl e \<Rightarrow> w
            | Inr (rt, Inl e) \<Rightarrow> put_process (call_to c) (p\<lparr>gp_runtime := rt\<rparr>) w
            | Inr (rt, Inr r) \<Rightarrow>
                (put_process (call_to c) (p\<lparr>gp_runtime := rt\<rparr>) w)\<lparr>gw_answers := gw_answers w @ [Answer (call_to c) (call_from c) r]\<rparr>)"

definition place_call ::
  "('c \<Rightarrow> 'b) \<Rightarrow> ('b \<Rightarrow> 'c result) \<Rightarrow> ('c \<Rightarrow> 's \<Rightarrow> 's) \<Rightarrow> rat \<Rightarrow> 'c call \<Rightarrow> ('c, 's) grpc_world \<Rightarrow> ('c, 's) grpc_world" where
  "place_call dumps loads apl now c w =
     with_process (call_from c) w (\<lambda>p.
       case stub_for (call_to c) (gp_transport p) of
         Inl e \<Rightarrow> w
       | Inr (stub, tr) \<Rightarrow> serve_call dumps loads apl now c (put_process (call_from c) (p\<lparr>gp_transport := tr\<rparr>) w))"

text \<open>
  One atomic action: one of the two halves of a process's start or stop, a turn of its driver thread, a
  pending call that reaches its node, an answer that reaches its caller, the loss of either, or a
  proposal. Exceptions end the thread that runs into them and are not seen by the others; what the
  executor of a closed transport still brings in is lost.
\<close>

fun grpc_act ::
  "('c \<Rightarrow> 'b) \<Rightarrow> ('b \<Rightarrow> 'c result) \<Rightarrow> ('c \<Rightarrow> 's \<Rightarrow> 's) \<Rightarrow> 'c grpc_action \<Rightarrow> ('c, 's) grpc_world \<Rightarrow> ('c, 's) grpc_world" where
  "grpc_act dumps loads apl (GListen n) w = with_process n w (\<lambda>p. put_process n (start_server p) w)"
| "grpc_act dumps loads apl (GStart n now) w = with_process n w (\<lambda>p. put_process n (start_driver now p) w)"
| "grpc_act dumps loads apl (GStop n) w = with_process n w (\<lambda>p. put_process n (stop_driver p) w)"
| "grpc_act dumps loads apl (GClose n) w = with_process n w (\<lambda>p. put_process n (stop_server p) w)"
| "grpc_act dumps loads apl (GTick n now) w = with_process n w (\<lambda>p.
     if \<not> rt_running (gp_runtime p) then w
     else case run_once grpc_send grpc_deliver_to apl now (gw_calls w, gp_runtime p) of
            Some (Inr (k, crt)) \<Rightarrow> put_turn n p crt w
          | _ \<Rightarrow> w)"
| "grpc_act dumps loads apl (GServe i now) w =
     (if i < length (gw_calls w)
      then place_call dumps loads apl now (gw_calls w ! i) (w\<lparr>gw_calls := remove_nth i (gw_calls w)\<rparr>) else w)"
| "grpc_act dumps loads apl (GInject i now) w =
     (if i < length (gw_answers w) then
        (let a = gw_answers w ! i; w = w\<lparr>gw_answers := remove_nth i (gw_answers w)\<rparr>
         in with_process (answer_to a) w (\<lambda>p.
              if gt_closed (gp_transport p) then w
              else case inject_reply apl a now (gp_transport p) (gw_calls w, gp_runtime p) of
                     Inl e \<Rightarrow> w
                   | Inr crt \<Rightarrow> put_turn (answer_to a) p crt w))
      else w)"
| "grpc_act dumps loads apl (GLoseCall i) w = w\<lparr>gw_calls := remove_nth i (gw_calls w)\<rparr>"
| "grpc_act dumps loads apl (GLoseAnswer i) w = w\<lparr>gw_answers := remove_nth i (gw_answers w)\<rparr>"
| "grpc_act dumps loads apl (GPropose n command now) w = with_process n w (\<lambda>p.
     if \<not> gp_serving p then w
     else case Propose_rpc grpc_send loads (dumps command) now (gw_calls w, gp_runtime p) of
            Inl e \<Rightarrow> w
          | Inr (crt, r) \<Rightarrow> put_turn n p crt w)"

definition grpc_run ::
  "('c \<Rightarrow> 'b) \<Rightarrow> ('b \<Rightarrow> 'c result) \<Rightarrow> ('c \<Rightarrow> 's \<Rightarrow> 's) \<Rightarrow> 'c grpc_action list \<Rightarrow> ('c, 's) grpc_world \<Rightarrow> ('c, 's) grpc_world" where
  "grpc_run dumps loads apl acts w = fold (grpc_act dumps loads apl) acts w"

section \<open>Executions are runs of the network of nodes\<close>

abbreviation grpc_node :: "('c, 's) grpc_world \<Rightarrow> string \<Rightarrow> ('c, 's) raft_node" where
  "grpc_node w n \<equiv> rt_node (gp_runtime (the (dict_get (gw_nodes w) n)))"

definition call_envelopes :: "'c call list \<Rightarrow> 'c envelope set" where
  "call_envelopes calls = (\<lambda>c. Envelope (call_from c) (call_to c) (call_message c)) ` set calls"

text \<open>Over gRPC as well a transport hands on only what was sent; nothing is ever fetched from it.\<close>

interpretation rpc_transport: message_transport "\<lambda>calls. True" call_envelopes grpc_register grpc_send "\<lambda>n calls. None"
  by unfold_locales (auto simp: grpc_register_def grpc_send_def call_envelopes_def)

definition process_ok :: "string \<Rightarrow> ('c, 's) grpc_process \<Rightarrow> bool" where
  "process_ok n p \<longleftrightarrow> node_id (rt_node (gp_runtime p)) = n \<and> gt_self_node_id (gp_transport p) = Some n"

definition grpc_rel :: "string list \<Rightarrow> ('c, 's) grpc_world \<Rightarrow> ('c, 's) network \<Rightarrow> bool" where
  "grpc_rel ids w N \<longleftrightarrow> dict_keys (gw_nodes w) = ids \<and>
     (\<forall>n p. dict_get (gw_nodes w) n = Some p \<longrightarrow> nodes N n = rt_node (gp_runtime p) \<and> process_ok n p) \<and>
     call_envelopes (gw_calls w) \<subseteq> wire N \<and>
     (\<forall>a \<in> set (gw_answers w). Envelope (answer_from a) (answer_to a) (reply_message (answer_reply a)) \<in> wire N)"

definition net_sound :: "string list \<Rightarrow> 'c set \<Rightarrow> ('c, 's) network \<Rightarrow> bool" where
  "net_sound ids C N \<longleftrightarrow> (\<forall>n \<in> set ids. cmds (nodes N n) \<subseteq> C) \<and> (\<forall>e \<in> wire N. msg_cmds (env_message e) \<subseteq> C)"

lemma net_sound_act: "net_sound ids C N \<Longrightarrow> sound C (nd, out) \<Longrightarrow> net_sound ids C (act n nd out N)"
  by (fastforce simp: net_sound_def sound_def act_def post_def)

lemma known_process:
  assumes "grpc_rel ids w N" "dict_get (gw_nodes w) n = Some p"
  shows "n \<in> set ids" "nodes N n = rt_node (gp_runtime p)" "process_ok n p"
  using assms dict_get_Some_key [of "gw_nodes w" n p] by (auto simp: grpc_rel_def)

lemma process_sound:
  assumes "grpc_rel ids w N" "dict_get (gw_nodes w) n = Some p" "net_sound ids C N"
  shows "cmds (rt_node (gp_runtime p)) \<subseteq> C"
  using known_process [OF assms(1,2)] assms(3) unfolding net_sound_def by metis

lemma grpc_rel_node: "grpc_rel ids w N \<Longrightarrow> n \<in> set ids \<Longrightarrow> nodes N n = grpc_node w n"
  using dict_get_None_iff [of "gw_nodes w" n] by (fastforce simp: grpc_rel_def)

lemma put_process_rel:
  assumes rel: "grpc_rel ids w N" and n: "n \<in> set ids" and p: "process_ok n p" "rt_node (gp_runtime p) = nd"
    and calls: "call_envelopes calls \<subseteq> wire (act n nd out N)"
  shows "grpc_rel ids ((put_process n p w)\<lparr>gw_calls := calls\<rparr>) (act n nd out N)"
proof -
  have "dict_keys (dict_set n p (gw_nodes w)) = ids" using rel n by (simp only: dict_keys_set grpc_rel_def if_True)
  then show ?thesis using rel p calls unfolding grpc_rel_def by (auto simp: put_process_def act_def)
qed

text \<open>A change that leaves the node as it is.\<close>

lemma keep_process_rel:
  assumes rel: "grpc_rel ids w N" and get: "dict_get (gw_nodes w) n = Some p"
    and p': "rt_node (gp_runtime p') = rt_node (gp_runtime p)" "gt_self_node_id (gp_transport p') = gt_self_node_id (gp_transport p)"
  shows "grpc_rel ids (put_process n p' w) N"
proof -
  note k = known_process [OF rel get]
  have "dict_keys (dict_set n p' (gw_nodes w)) = ids" using rel k(1) by (simp only: dict_keys_set grpc_rel_def if_True)
  then show ?thesis using rel k(2,3) p' unfolding grpc_rel_def by (auto simp: put_process_def process_ok_def)
qed

lemma grpc_rel_fewer:
  "grpc_rel ids w N \<Longrightarrow> set calls \<subseteq> set (gw_calls w) \<Longrightarrow> grpc_rel ids (w\<lparr>gw_calls := calls\<rparr>) N"
  "grpc_rel ids w N \<Longrightarrow> set answers \<subseteq> set (gw_answers w) \<Longrightarrow> grpc_rel ids (w\<lparr>gw_answers := answers\<rparr>) N"
  unfolding grpc_rel_def call_envelopes_def by (auto simp: image_subset_iff subset_iff)

lemma remove_nth_subset: "set (remove_nth i xs) \<subseteq> set xs"
  by (auto simp: remove_nth_def dest: in_set_takeD in_set_dropD)

fun grpc_proposed :: "'c grpc_action \<Rightarrow> 'c set" where
  "grpc_proposed (GPropose n command now) = {command}"
| "grpc_proposed _ = {}"

definition refines_grpc ::
  "string list \<Rightarrow> ('c \<Rightarrow> 's \<Rightarrow> 's) \<Rightarrow> 'c set \<Rightarrow> ('c, 's) grpc_world \<Rightarrow> ('c, 's) network \<Rightarrow> bool" where
  "refines_grpc ids apl C w' N \<longleftrightarrow> (\<exists>N'. (net_step ids apl)\<^sup>*\<^sup>* N N' \<and> grpc_rel ids w' N' \<and> net_sound ids C N')"

lemma refines_same: "grpc_rel ids w' N \<Longrightarrow> net_sound ids C N \<Longrightarrow> refines_grpc ids apl C w' N"
  by (auto simp: refines_grpc_def)

text \<open>A method call of one node, with what it sends submitted to the executor.\<close>

lemma refines_step:
  assumes rel: "grpc_rel ids w N" and snd: "net_sound ids C N" and get: "dict_get (gw_nodes w) n = Some p"
    and step: "net_step ids apl N (act n nd out N)" and id: "node_id nd = n" and sd: "sound C (nd, out)"
    and crt: "fst crt = send_all grpc_send (node_id nd) out (gw_calls w)" "rt_node (snd crt) = nd"
  shows "refines_grpc ids apl C (put_turn n p crt w) N"
proof -
  note k = known_process [OF rel get]
  have "call_envelopes (fst crt) \<subseteq> wire (act n nd out N)"
    using rpc_transport.send_all_pending [where t = "gw_calls w" and n = n and out = out] rel by (auto simp: crt(1) id send_all_def grpc_rel_def act_def)
  then have "grpc_rel ids (put_turn n p crt w) (act n nd out N)"
    unfolding put_turn_def using k(3) id crt(2) by (intro put_process_rel [OF rel k(1)]) (auto simp: process_ok_def)
  then show ?thesis using step net_sound_act [OF snd sd] by (auto simp: refines_grpc_def)
qed

lemma start_stop_refines:
  assumes rel: "grpc_rel ids w N" and snd: "net_sound ids C N"
  shows "refines_grpc ids apl C (with_process n w (\<lambda>p. put_process n (start_server p) w)) N"
    "refines_grpc ids apl C (with_process n w (\<lambda>p. put_process n (stop_driver p) w)) N"
    "refines_grpc ids apl C (with_process n w (\<lambda>p. put_process n (stop_server p) w)) N"
  using rel snd
  by (auto simp: with_process_def start_server_def stop_driver_def stop_server_def runtime_stop_def close_transport_def
      intro!: refines_same keep_process_rel split: option.split)

lemma start_driver_refines:
  assumes rel: "grpc_rel ids w N" and snd: "net_sound ids C N"
  shows "refines_grpc ids apl C (with_process n w (\<lambda>p. put_process n (start_driver now p) w)) N"
proof (cases "dict_get (gw_nodes w) n")
  case (Some p)
  note k = known_process [OF rel Some]
  let ?nd = "start_node now (rt_node (gp_runtime p))" and ?rt = "runtime_start now (gp_runtime p)"
  show ?thesis
  proof (cases "gt_closed (gp_transport p)")
    case True
    then show ?thesis using Some rel snd by (simp add: with_process_def start_driver_def refines_same keep_process_rel)
  next
    case False
    have "sound C (?nd, [])" using process_sound [OF rel Some snd] by (simp add: start_node_def)
    then have "refines_grpc ids apl C (put_turn n p (gw_calls w, ?rt) w) N"
      using net_start [OF k(1), of apl N now] k(2,3)
      by (intro refines_step [OF rel snd Some, of apl ?nd "[]"])
        (auto simp: runtime_start_def send_all_def process_ok_def start_node_def)
    then show ?thesis using Some False by (simp add: with_process_def start_driver_def put_turn_def put_process_def)
  qed
qed (use rel snd in \<open>simp add: with_process_def refines_same\<close>)

lemma driver_turn: "run_once grpc_send grpc_deliver_to apl now crt = Some (Inr (0, runtime_tick grpc_send now crt))"
  by (simp add: run_once_def grpc_deliver_to_def case_prod_beta)

lemma tick_node_id: "tick now nd = (nd', out) \<Longrightarrow> node_id nd' = node_id nd"
  using tick_sends [of nd now] by (simp add: sends_to_def identity_def)

lemma driver_turn_refines:
  assumes rel: "grpc_rel ids w N" and snd: "net_sound ids C N"
  shows "refines_grpc ids apl C (grpc_act dumps loads apl (GTick n now) w) N"
proof (cases "dict_get (gw_nodes w) n")
  case (Some p)
  note k = known_process [OF rel Some]
  obtain nd out where t: "tick now (rt_node (gp_runtime p)) = (nd, out)" by force
  have "sound C (nd, out)" using tick_sound [OF process_sound [OF rel Some snd], of now] t by simp
  moreover have "net_step ids apl N (act n nd out N)" by (rule net_tick [OF k(1) t [folded k(2)]])
  moreover have "node_id nd = n" using k(3) tick_node_id [OF t] by (simp add: process_ok_def)
  ultimately have "refines_grpc ids apl C (put_turn n p (runtime_tick grpc_send now (gw_calls w, gp_runtime p)) w) N"
    by (intro refines_step [OF rel snd Some, of apl nd out]) (auto simp: runtime_tick_def t)
  then show ?thesis using Some rel snd by (simp add: with_process_def driver_turn refines_same)
qed (use rel snd in \<open>simp add: with_process_def refines_same\<close>)

lemma inject_refines:
  assumes rel: "grpc_rel ids w N" and snd: "net_sound ids C N"
  shows "refines_grpc ids apl C (grpc_act dumps loads apl (GInject i now) w) N"
proof -
  let ?a = "gw_answers w ! i" and ?w = "w\<lparr>gw_answers := remove_nth i (gw_answers w)\<rparr>"
  have rel': "grpc_rel ids ?w N" by (rule grpc_rel_fewer(2) [OF rel remove_nth_subset])
  show ?thesis
  proof (cases "grpc_act dumps loads apl (GInject i now) w \<in> {w, ?w}")
    case True
    then show ?thesis using refines_same rel rel' snd by auto
  next
    case False
    then obtain p crt where 2: "i < length (gw_answers w)" "dict_get (gw_nodes ?w) (answer_to ?a) = Some p"
        "inject_reply apl ?a now (gp_transport p) (gw_calls w, gp_runtime p) = Inr crt"
        "grpc_act dumps loads apl (GInject i now) w = put_turn (answer_to ?a) p crt ?w"
      by (auto simp: with_process_def Let_def split: option.splits sum.splits if_splits)
    note k = known_process [OF rel' 2(2)]
    have env: "Envelope (answer_from ?a) (answer_to ?a) (reply_message (answer_reply ?a)) \<in> wire N"
      using rel 2(1) nth_mem by (fastforce simp: grpc_rel_def)
    obtain nd out where r: "receive apl (Envelope (answer_from ?a) (answer_to ?a) (reply_message (answer_reply ?a))) now (rt_node (gp_runtime p)) = Inr (nd, out)"
      "fst crt = send_all grpc_send (node_id nd) out (gw_calls w)" "rt_node (snd crt) = nd"
      using 2(3) k(3) by (auto simp: inject_reply_def process_ok_def runtime_receive_def rbind_Inr_conv)
    have "sound C (nd, out)"
      using receive_sound [OF _ _ r(1)] process_sound [OF rel' 2(2) snd] snd env by (force simp: net_sound_def)
    moreover have "net_step ids apl N (act (answer_to ?a) nd out N)" by (rule net_receive [OF env r(1) [folded k(2)]])
    moreover have "node_id nd = answer_to ?a" using receive_sends [OF r(1)] k(3) by (simp add: process_ok_def identity_def)
    ultimately show ?thesis unfolding 2(4) using r(2,3) by (intro refines_step [OF rel' snd 2(2)]) auto
  qed
qed

text \<open>A process that has been closed stays as it is, whatever the others do.\<close>

definition closed_down :: "('c, 's) grpc_process \<Rightarrow> bool" where
  "closed_down p \<longleftrightarrow> gt_closed (gp_transport p) \<and> \<not> gp_serving p \<and> \<not> rt_running (gp_runtime p)"

lemma stop_closes_down: "closed_down (stop_server (stop_driver p))"
  by (simp add: closed_down_def stop_server_def stop_driver_def runtime_stop_def close_transport_def)

definition unchanged :: "string \<Rightarrow> ('c, 's) grpc_process \<Rightarrow> ('c, 's) grpc_world \<Rightarrow> bool" where
  "unchanged n p w \<longleftrightarrow> (\<exists>p'. dict_get (gw_nodes w) n = Some p' \<and> closed_down p' \<and> gp_runtime p' = gp_runtime p)"

lemma unchanged_put:
  "unchanged n p w \<Longrightarrow> (m = n \<Longrightarrow> closed_down q \<and> gp_runtime q = gp_runtime p) \<Longrightarrow> unchanged n p (put_process m q w)"
  by (cases "m = n") (auto simp: unchanged_def put_process_def)

lemma runtime_stop_idle: "\<not> rt_running rt \<Longrightarrow> runtime_stop rt = rt"
  by (cases rt) (simp add: runtime_stop_def)

lemma unchanged_queues [simp]:
  "unchanged n p (w\<lparr>gw_calls := calls\<rparr>) \<longleftrightarrow> unchanged n p w" "unchanged n p (w\<lparr>gw_answers := answers\<rparr>) \<longleftrightarrow> unchanged n p w"
  by (simp_all add: unchanged_def)

lemma unchanged_with:
  assumes "unchanged n p w"
    "\<And>q. dict_get (gw_nodes w) m = Some q \<Longrightarrow> (m = n \<longrightarrow> closed_down q \<and> gp_runtime q = gp_runtime p) \<Longrightarrow> unchanged n p (f q)"
  shows "unchanged n p (with_process m w f)"
  using assms by (cases "m = n") (auto simp: with_process_def unchanged_def split: option.split)

lemma unchanged_serve: "unchanged n p w \<Longrightarrow> unchanged n p (serve_call dumps loads apl now c w)"
  unfolding serve_call_def
  by (rule unchanged_with) (auto simp: closed_down_def intro: unchanged_put split: sum.split)

lemma unchanged_place:
  assumes "unchanged n p w"
  shows "unchanged n p (place_call dumps loads apl now c w)"
  unfolding place_call_def
proof (rule unchanged_with [OF assms])
  fix q assume q: "call_from c = n \<longrightarrow> closed_down q \<and> gp_runtime q = gp_runtime p"
  have "unchanged n p (put_process (call_from c) (q\<lparr>gp_transport := tr\<rparr>) w)" if "stub_for (call_to c) (gp_transport q) = Inr (stub, tr)" for stub tr
    using q that by (intro unchanged_put [OF assms]) (auto simp: closed_down_def stub_for_def split: option.splits)
  then show "unchanged n p (case stub_for (call_to c) (gp_transport q) of Inl e \<Rightarrow> w
      | Inr (stub, tr) \<Rightarrow> serve_call dumps loads apl now c (put_process (call_from c) (q\<lparr>gp_transport := tr\<rparr>) w))"
    using assms by (auto intro: unchanged_serve split: sum.split)
qed

lemma closed_process_stays:
  assumes "unchanged n p w"
  shows "unchanged n p (grpc_act dumps loads apl a w)"
proof (cases a)
  case (GServe i now)
  then show ?thesis using assms by (simp add: unchanged_place)
next
  case (GInject i now)
  have "unchanged n p (w\<lparr>gw_answers := remove_nth i (gw_answers w)\<rparr>)" using assms by simp
  then show ?thesis
    using assms unfolding GInject grpc_act.simps Let_def
    by (auto intro!: unchanged_with unchanged_put simp: put_turn_def closed_down_def split: sum.split)
qed (use assms in \<open>auto intro!: unchanged_with unchanged_put simp: put_turn_def closed_down_def start_server_def start_driver_def
      stop_driver_def stop_server_def runtime_stop_idle close_transport_def driver_turn split: sum.split\<close>)

context pickling
begin

text \<open>A call does to the called node what receiving the message does, and its answer is the reply.\<close>

lemma make_call_receive:
  assumes "make_call dumps loads apl m now rt = Inr (rt', r)"
  shows "\<exists>rm. receive apl (Envelope s n m) now (rt_node rt) = Inr (rt_node rt', [(s, rm)]) \<and> (\<forall>pr. r = Inr pr \<longrightarrow> reply_message pr = rm)"
proof (cases m)
  case (MRequestVoteArgs args)
  then show ?thesis
    using assms vote_roundtrips(1,2)
    by (fastforce simp: make_call_def RequestVote_def runtime_handle_request_vote_def receive_def reply_message_def rbind_Inr_conv case_prod_beta)
next
  case (MPreVoteArgs args)
  then show ?thesis
    using assms vote_roundtrips(3,4)
    by (fastforce simp: make_call_def PreVote_def runtime_handle_prevote_def receive_def reply_message_def rbind_Inr_conv case_prod_beta)
next
  case (MAppendEntriesArgs args)
  then show ?thesis
    using assms vote_roundtrips(5) append_entries_roundtrip
    by (fastforce simp: make_call_def AppendEntries_def runtime_handle_append_entries_def receive_def reply_message_def rbind_Inr_conv case_prod_beta)
qed (use assms in \<open>simp_all add: make_call_def\<close>)

lemma serve_call_refines:
  assumes rel: "grpc_rel ids w N" and snd: "net_sound ids C N"
    and env: "Envelope (call_from c) (call_to c) (call_message c) \<in> wire N"
  shows "refines_grpc ids apl C (serve_call dumps loads apl now c w) N"
proof (cases "serve_call dumps loads apl now c w = w")
  case False
  then obtain p rt r where get: "dict_get (gw_nodes w) (call_to c) = Some p"
    and mk: "make_call dumps loads apl (call_message c) now (gp_runtime p) = Inr (rt, r)" and serving: "gp_serving p"
    by (auto simp: serve_call_def with_process_def split: option.splits sum.splits if_splits)
  note k = known_process [OF rel get]
  obtain rm where rm: "receive apl (Envelope (call_from c) (call_to c) (call_message c)) now (rt_node (gp_runtime p)) =
      Inr (rt_node rt, [(call_from c, rm)])" "\<And>pr. r = Inr pr \<Longrightarrow> reply_message pr = rm" using make_call_receive [OF mk] by blast
  let ?N = "act (call_to c) (rt_node rt) [(call_from c, rm)] N" and ?w = "put_process (call_to c) (p\<lparr>gp_runtime := rt\<rparr>) w"
  have step: "net_step ids apl N ?N" by (rule net_receive [OF env rm(1) [folded k(2)]])
  have sd: "net_sound ids C ?N"
    using receive_sound [OF _ _ rm(1)] process_sound [OF rel get snd] snd env
    by (intro net_sound_act [OF snd]) (force simp: net_sound_def)
  have "node_id (rt_node rt) = call_to c" using receive_sends [OF rm(1)] k(3) by (simp add: process_ok_def identity_def)
  moreover have "call_envelopes (gw_calls w) \<subseteq> wire ?N" using rel by (auto simp: grpc_rel_def act_def)
  ultimately have "grpc_rel ids (?w\<lparr>gw_calls := gw_calls w\<rparr>) ?N"
    using k by (intro put_process_rel [OF rel]) (auto simp: process_ok_def)
  then have put: "grpc_rel ids ?w ?N" by (simp add: put_process_def)
  have "grpc_rel ids (?w\<lparr>gw_answers := gw_answers w @ [Answer (call_to c) (call_from c) pr]\<rparr>) ?N" if "r = Inr pr" for pr
    using put rm(2) [OF that] unfolding grpc_rel_def by (auto simp: put_process_def act_def post_def)
  then show ?thesis
    using get mk serving put step sd
    by (cases r) (auto simp: serve_call_def with_process_def refines_grpc_def)
qed (use rel snd in \<open>simp add: refines_same\<close>)

lemma call_refines:
  assumes rel: "grpc_rel ids w N" and snd: "net_sound ids C N"
  shows "refines_grpc ids apl C (grpc_act dumps loads apl (GServe i now) w) N"
proof (cases "i < length (gw_calls w)")
  case True
  let ?c = "gw_calls w ! i" and ?w = "w\<lparr>gw_calls := remove_nth i (gw_calls w)\<rparr>"
  have rel': "grpc_rel ids ?w N" by (rule grpc_rel_fewer(1) [OF rel remove_nth_subset])
  have env: "Envelope (call_from ?c) (call_to ?c) (call_message ?c) \<in> wire N"
    using rel True by (auto simp: grpc_rel_def call_envelopes_def)
  have "grpc_rel ids (put_process (call_from ?c) (p\<lparr>gp_transport := tr\<rparr>) ?w) N"
    if "dict_get (gw_nodes ?w) (call_from ?c) = Some p" "stub_for (call_to ?c) (gp_transport p) = Inr (stub, tr)" for p stub tr
    using that(2) by (intro keep_process_rel [OF rel' that(1)]) (auto simp: stub_for_def split: option.splits)
  then have "refines_grpc ids apl C (place_call dumps loads apl now ?c ?w) N"
    using rel' snd serve_call_refines [OF _ snd env]
    by (auto simp: place_call_def with_process_def refines_same split: option.split sum.split)
  then show ?thesis using True by simp
qed (use rel snd in \<open>simp add: refines_same\<close>)

lemma propose_refines_grpc:
  assumes rel: "grpc_rel ids w N" and snd: "net_sound ids C N" and new: "command \<in> C"
  shows "refines_grpc ids apl C (grpc_act dumps loads apl (GPropose n command now) w) N"
proof (cases "dict_get (gw_nodes w) n")
  case (Some p)
  note k = known_process [OF rel Some]
  obtain nd out entry where pr: "propose command now (rt_node (gp_runtime p)) = (nd, out, entry)" by (metis prod_cases3)
  have "sound C (nd, out)" using propose_sound [OF _ _ pr] process_sound [OF rel Some snd] new by auto
  moreover have "net_step ids apl N (act n nd out N)" by (rule net_propose [OF k(1) pr [folded k(2)]])
  moreover have "node_id nd = n"
    using pr k(3) by (auto simp: propose_def Let_def process_ok_def broadcast_append_entries_def split: if_splits)
  ultimately have "refines_grpc ids apl C (put_turn n p (fst (runtime_propose grpc_send command now (gw_calls w, gp_runtime p))) w) N"
    by (intro refines_step [OF rel snd Some, of apl nd out]) (auto simp: runtime_propose_def pr)
  then show ?thesis
    using Some rel snd by (simp add: with_process_def Propose_rpc_def loads_dumps case_prod_beta refines_same)
qed (use rel snd in \<open>simp add: with_process_def refines_same\<close>)

lemma grpc_act_refines:
  assumes rel: "grpc_rel ids w N" and snd: "net_sound ids C N" and new: "grpc_proposed a \<subseteq> C"
  shows "refines_grpc ids apl C (grpc_act dumps loads apl a w) N"
proof (cases a)
  case (GTick n now)
  then show ?thesis using driver_turn_refines [OF rel snd] by blast
next
  case (GServe i now)
  then show ?thesis using call_refines [OF rel snd] by blast
next
  case (GInject i now)
  then show ?thesis using inject_refines [OF rel snd] by blast
next
  case (GPropose n command now)
  then show ?thesis using propose_refines_grpc [OF rel snd] new by simp
qed (use rel snd in \<open>simp_all only: grpc_act.simps start_stop_refines start_driver_refines refines_same grpc_rel_fewer remove_nth_subset\<close>)

lemma grpc_run_refines:
  assumes "grpc_rel ids w N" "net_sound ids C N" "\<And>a. a \<in> set acts \<Longrightarrow> grpc_proposed a \<subseteq> C"
  shows "refines_grpc ids apl C (grpc_run dumps loads apl acts w) N"
  using assms
proof (induction acts arbitrary: w N)
  case Nil
  then show ?case by (simp add: grpc_run_def refines_same)
next
  case (Cons a acts)
  obtain N1 where N1: "(net_step ids apl)\<^sup>*\<^sup>* N N1" "grpc_rel ids (grpc_act dumps loads apl a w) N1" "net_sound ids C N1"
    using grpc_act_refines [OF Cons.prems(1,2), of a apl] Cons.prems(3) by (auto simp: refines_grpc_def)
  have "refines_grpc ids apl C (grpc_run dumps loads apl acts (grpc_act dumps loads apl a w)) N1"
    using Cons.prems(3) by (intro Cons.IH [OF N1(2,3)]) auto
  then show ?case using N1(1) by (auto simp: grpc_run_def refines_grpc_def intro: rtranclp_trans)
qed

end

section \<open>Properties\<close>

text \<open>Every process is given the addresses of all the others, in the order of the processes.\<close>

definition procs_ok :: "(string \<times> (string, string) dict) list \<Rightarrow> bool" where
  "procs_ok procs \<longleftrightarrow> distinct (map fst procs) \<and> list_all (\<lambda>(n, addrs). dict_keys addrs = peers_of (map fst procs) n) procs"

definition grpc_net :: "('c, 's) grpc_world \<Rightarrow> ('c, 's) network" where
  "grpc_net w = \<lparr>nodes = grpc_node w, wire = {}\<rparr>"

lemma grpc_cluster_init:
  assumes ok: "procs_ok procs" and w: "w = grpc_cluster procs sm0 rnd"
  shows "grpc_rel (map fst procs) w (grpc_net w)" "net_init (map fst procs) sm0 (grpc_net w)" "net_sound (map fst procs) C (grpc_net w)"
proof -
  have get: "\<exists>addrs. (n, addrs) \<in> set procs \<and> dict_get (gw_nodes w) n = Some (GrpcRaftNode n addrs InMemoryStorage sm0 (rnd n))"
    if n: "n \<in> set (map fst procs)" for n
  proof -
    obtain addrs where a: "(n, addrs) \<in> set procs" using n by auto
    have "map fst (gw_nodes w) = map fst procs" by (simp add: w grpc_cluster_def comp_def case_prod_beta)
    then have "distinct (map fst (gw_nodes w))" using ok by (simp add: procs_ok_def)
    moreover have "(n, GrpcRaftNode n addrs InMemoryStorage sm0 (rnd n)) \<in> set (gw_nodes w)"
      using imageI [OF a, of "\<lambda>(n, addrs). (n, GrpcRaftNode n addrs InMemoryStorage sm0 (rnd n))"] by (simp add: w grpc_cluster_def)
    ultimately have "dict_get (gw_nodes w) n = Some (GrpcRaftNode n addrs InMemoryStorage sm0 (rnd n))" by (rule map_of_is_SomeI)
    then show ?thesis using a by blast
  qed
  have node: "grpc_node w n = RaftNode n (peers_of (map fst procs) n) InMemoryStorage sm0 (3/10) (6/10) (1/10) (rnd n)"
    if n: "n \<in> set (map fst procs)" for n
    using get [OF n] ok by (fastforce simp: procs_ok_def list_all_iff GrpcRaftNode_def RaftNodeRuntime_def Let_def)
  have keys: "dict_keys (gw_nodes w) = map fst procs" by (simp add: w grpc_cluster_def comp_def case_prod_beta)
  have proc: "process_ok n p" if "dict_get (gw_nodes w) n = Some p" for n p
    using get [of n] dict_get_Some_key [OF that] that keys
    by (auto simp: process_ok_def GrpcRaftNode_def RaftNodeRuntime_def bind_runtime_def RaftNode_def Let_def)
  show "grpc_rel (map fst procs) w (grpc_net w)"
    unfolding grpc_rel_def using keys proc by (auto simp: grpc_net_def call_envelopes_def w grpc_cluster_def)
  show "net_init (map fst procs) sm0 (grpc_net w)"
    unfolding net_init_def grpc_net_def using node by (metis network.select_convs)
  show "net_sound (map fst procs) C (grpc_net w)"
    using node by (fastforce simp: net_sound_def grpc_net_def cmds_def RaftNode_def InMemoryStorage_def)
qed

lemma grpc_reachable:
  assumes pick: "pickling dumps loads" and ok: "procs_ok procs" and w: "w = grpc_run dumps loads apl acts (grpc_cluster procs sm0 rnd)"
  obtains N0 N p where "net_init (map fst procs) sm0 N0" "(net_step (map fst procs) apl)\<^sup>*\<^sup>* N0 N" "grpc_rel (map fst procs) w N"
    "net_sound (map fst procs) (\<Union> (grpc_proposed ` set acts)) N" "simulates (map fst procs) N p"
proof -
  let ?ids = "map fst procs" and ?w0 = "grpc_cluster procs sm0 rnd"
  note init = grpc_cluster_init [OF ok refl, where ?sm0.0 = sm0 and rnd = rnd]
  have d: "distinct ?ids" using ok by (simp add: procs_ok_def)
  have "refines_grpc ?ids apl (\<Union> (grpc_proposed ` set acts)) w (grpc_net ?w0)"
    unfolding w by (rule pickling.grpc_run_refines [OF pick init(1,3)]) blast
  then obtain N where N: "(net_step ?ids apl)\<^sup>*\<^sup>* (grpc_net ?w0) N" "grpc_rel ?ids w N" "net_sound ?ids (\<Union> (grpc_proposed ` set acts)) N"
    by (auto simp: refines_grpc_def)
  obtain p where "simulates ?ids N p" using net_run_simulates [OF N(1) net_init_simulates [OF init(2) d] d] by blast
  then show thesis using that [OF init(2) N] by blast
qed

text \<open>Three processes of which \<open>a\<close> times out first and is elected by \<open>b\<close>.\<close>

definition demo_procs :: "(string \<times> (string, string) dict) list" where
  "demo_procs = [(''a'', [(''b'', ''b:1''), (''c'', ''c:1'')]), (''b'', [(''a'', ''a:1''), (''c'', ''c:1'')]),
     (''c'', [(''a'', ''a:1''), (''b'', ''b:1'')])]"

definition demo_rpcs :: "string grpc_action list" where
  "demo_rpcs = [GListen ''a'', GStart ''a'' 0, GListen ''b'', GStart ''b'' 0, GListen ''c'', GStart ''c'' 0,
     GTick ''a'' 1, GServe 0 1, GInject 0 1, GServe 1 1, GInject 0 1]"

definition demo_first :: "(string, (string, string) recording_machine) grpc_world" where
  "demo_first = grpc_run Pickled pickle_loads (record_step id) demo_rpcs (grpc_cluster demo_procs RecordingStateMachine demo_random)"

lemma demo_first_leader: "is_leader (grpc_node demo_first ''a'')"
  by code_simp

lemma demo_procs_ok: "procs_ok demo_procs"
  by (simp add: procs_ok_def demo_procs_def peers_of_def)

text \<open>
  C18: Over gRPC too, whatever calls and answers are delayed, reordered or lost, two processes that lead the
  same term are the same process, and what one process has committed at a position, no process at any
  later moment has committed differently.
\<close>

theorem grpc_cluster_safe:
  assumes "pickling dumps loads" "procs_ok procs" "w = grpc_run dumps loads apl acts (grpc_cluster procs sm0 rnd)"
    "w' = grpc_run dumps loads apl acts' w" "n \<in> set (map fst procs)" "m \<in> set (map fst procs)"
  shows "\<not> (is_leader (grpc_node w n) \<and> is_leader (grpc_node w m) \<and>
      current_term (grpc_node w n) = current_term (grpc_node w m) \<and> n \<noteq> m) \<and>
    \<not> (i < nat (commit_index (grpc_node w n)) \<and> i < nat (commit_index (grpc_node w' m)) \<and>
      node_log (grpc_node w n) ! i \<noteq> node_log (grpc_node w' m) ! i)"
proof -
  let ?ids = "map fst procs"
  obtain N p where N: "grpc_rel ?ids w N" and p: "simulates ?ids N p" by (rule grpc_reachable [OF assms(1-3)])
  have "refines_grpc ?ids apl UNIV w' N"
    unfolding assms(4) by (rule pickling.grpc_run_refines [OF assms(1) N]) (simp_all add: net_sound_def)
  then obtain N' where N': "(net_step ?ids apl)\<^sup>*\<^sup>* N N'" "grpc_rel ?ids w' N'" by (auto simp: refines_grpc_def)
  have nodes: "nodes N n = grpc_node w n" "nodes N m = grpc_node w m" "nodes N' m = grpc_node w' m"
    using grpc_rel_node [OF N] grpc_rel_node [OF N'(2)] assms(5,6) by auto
  have d: "distinct ?ids" using assms(2) by (simp add: procs_ok_def)
  show ?thesis
    using simulates_one_leader [OF p assms(5,6)] net_commits_agree [OF p N'(1) d assms(5,6), of i] nodes
    by (auto simp: is_leader_def node_log_eq)
qed

theorem grpc_cluster_safe_witness:
  "is_leader (grpc_node demo_first ''a'') \<and>
   \<not> (is_leader (grpc_node demo_first ''b'') \<and> current_term (grpc_node demo_first ''a'') = current_term (grpc_node demo_first ''b''))"
  using grpc_cluster_safe [OF pickle.pickling_axioms demo_procs_ok demo_first_def refl, of "''a''" "''b''" 0 "[]"] demo_first_leader
  by (simp add: demo_procs_def)

lemma grpc_histories:
  assumes "pickling dumps loads" "idempotent_machine apl sm0" "procs_ok procs"
    "w = grpc_run dumps loads apl acts (grpc_cluster procs sm0 rnd)"
  obtains h where "\<And>n. n \<in> set (map fst procs) \<Longrightarrow> state_machine (grpc_node w n) = fold apl (h n) sm0"
    "\<And>n. n \<in> set (map fst procs) \<Longrightarrow> set (h n) \<subseteq> \<Union> (grpc_proposed ` set acts)"
    "\<And>n m. n \<in> set (map fst procs) \<Longrightarrow> m \<in> set (map fst procs) \<Longrightarrow> prefix (h n) (h m) \<or> prefix (h m) (h n)"
proof -
  obtain N0 N where N: "net_init (map fst procs) sm0 N0" "(net_step (map fst procs) apl)\<^sup>*\<^sup>* N0 N" "grpc_rel (map fst procs) w N"
    and snd: "net_sound (map fst procs) (\<Union> (grpc_proposed ` set acts)) N"
    by (rule grpc_reachable [OF assms(1,3,4)])
  have d: "distinct (map fst procs)" using assms(3) by (simp add: procs_ok_def)
  have own: "cmds (nodes N n) \<subseteq> \<Union> (grpc_proposed ` set acts)" if "n \<in> set (map fst procs)" for n
    using snd that unfolding net_sound_def by blast
  obtain h where h: "\<And>n. n \<in> set (map fst procs) \<Longrightarrow> state_machine (nodes N n) = fold apl (h n) sm0"
    "\<And>n. n \<in> set (map fst procs) \<Longrightarrow> set (h n) \<subseteq> \<Union> (grpc_proposed ` set acts)"
    "\<And>n m. n \<in> set (map fst procs) \<Longrightarrow> m \<in> set (map fst procs) \<Longrightarrow> prefix (h n) (h m) \<or> prefix (h m) (h n)"
    by (rule net_machines [OF assms(2) d N(1,2), of "\<Union> (grpc_proposed ` set acts)"]) (use own in blast)+
  have "state_machine (grpc_node w n) = fold apl (h n) sm0" if "n \<in> set (map fst procs)" for n
    using h(1) [OF that] grpc_rel_node [OF N(3) that] by simp
  then show thesis using that [of h] h(2,3) by blast
qed

text \<open>
  The replicas of an idempotent state machine in separate processes have applied commands that were
  proposed through the service, and of any two lists of applied commands one is a prefix of the other.
\<close>

lemma grpc_replicas_agree:
  assumes "pickling dumps loads" "idempotent_machine apl sm0" "procs_ok procs"
    "w = grpc_run dumps loads apl acts (grpc_cluster procs sm0 rnd)" "n \<in> set (map fst procs)" "m \<in> set (map fst procs)"
  shows "\<exists>cs ds. state_machine (grpc_node w n) = fold apl cs sm0 \<and> state_machine (grpc_node w m) = fold apl ds sm0 \<and>
    (prefix cs ds \<or> prefix ds cs) \<and> set cs \<union> set ds \<subseteq> \<Union> (grpc_proposed ` set acts)"
  by (rule grpc_histories [OF assms(1-4)]) (metis assms(5,6) Un_least)

section \<open>A process that forgets\<close>

text \<open>
  docker/raft_node_entrypoint.py gives every process a new \<open>InMemoryStorage\<close>, so that a container that
  is started again comes back with an empty log and no vote.
\<close>

definition restart_process ::
  "string \<Rightarrow> (string, string) dict \<Rightarrow> 's \<Rightarrow> (nat \<Rightarrow> rat \<Rightarrow> rat \<Rightarrow> rat) \<Rightarrow> ('c, 's) grpc_world \<Rightarrow> ('c, 's) grpc_world" where
  "restart_process n peer_addresses sm rnd w =
     w\<lparr>gw_nodes := dict_set n (GrpcRaftNode n peer_addresses InMemoryStorage sm rnd) (gw_nodes w)\<rparr>"

definition demo_forgotten :: "string grpc_action list" where
  "demo_forgotten = [GLoseCall 0, GLoseCall 0, GLoseCall 0, GLoseCall 0,
     GListen ''b'', GStart ''b'' 2, GTick ''c'' 3, GServe 1 3, GInject 0 3, GServe 2 3, GInject 0 3]"

definition demo_second :: "(string, (string, string) recording_machine) grpc_world" where
  "demo_second = grpc_run Pickled pickle_loads (record_step id) demo_forgotten
     (restart_process ''b'' [(''a'', ''a:1''), (''c'', ''c:1'')] RecordingStateMachine (demo_random ''b'') demo_first)"

text \<open>
  C38: When a process that has voted is started again with the storage that the entry point gives it, it votes
  a second time in the same term: there is an execution in which two processes lead the same term.
\<close>

theorem restart_breaks_election_safety:
  "is_leader (grpc_node demo_second ''a'') \<and> is_leader (grpc_node demo_second ''c'') \<and>
   current_term (grpc_node demo_second ''a'') = current_term (grpc_node demo_second ''c'')"
  by code_simp

end
