(* ===== verification/Grpc_Client.thy ===== *)
theory Grpc_Client
  imports Grpc_Cluster
begin

text \<open>
  The client of a cluster of processes, coordinator/grpc/raft_cluster_client.py: it asks one node after
  the other, follows their hints, and gives up when its deadline has passed. It keeps the contract
  that the settlement submitter relies on.
\<close>

section \<open>The client\<close>

text \<open>
  What becomes of a call: the node is not reached, it has worked off the request but the answer does
  not come back in time, or it has answered.
\<close>

datatype fate = Unreachable | TimedOut | Answered

record ('c, 's) client_world =
  cw_grpc :: "('c, 's) grpc_world"
  cw_stubs :: "(string, string) dict"
  cw_last_known_leader :: "string option"
  cw_events :: nat

definition GrpcRaftClusterClient :: "('c, 's) grpc_world \<Rightarrow> ('c, 's) client_world" where
  "GrpcRaftClusterClient g = \<lparr>cw_grpc = g, cw_stubs = [], cw_last_known_leader = None, cw_events = 0\<rparr>"

lemma GrpcRaftClusterClient_grpc [simp]: "cw_grpc (GrpcRaftClusterClient g) = g"
  by (simp add: GrpcRaftClusterClient_def)

text \<open>
  Everything beside the client: its clock, what the processes do up to its k-th event, and the fate of
  its calls.
\<close>

record 'c surroundings =
  su_clock :: "nat \<Rightarrow> rat"
  su_sched :: "nat \<Rightarrow> 'c grpc_action list"
  su_fate :: "nat \<Rightarrow> fate"

definition pass ::
  "('c \<Rightarrow> 'b) \<Rightarrow> ('b \<Rightarrow> 'c result) \<Rightarrow> ('c \<Rightarrow> 's \<Rightarrow> 's) \<Rightarrow> 'c surroundings \<Rightarrow> ('c, 's) client_world \<Rightarrow> ('c, 's) client_world" where
  "pass dumps loads apl su w =
     w\<lparr>cw_grpc := grpc_run dumps loads apl (su_sched su (cw_events w)) (cw_grpc w), cw_events := Suc (cw_events w)\<rparr>"

text \<open>
  The stub of a node is made the first time the node is asked; it stands for the address it was made with.
\<close>

definition client_stub_for ::
  "(string, string) dict \<Rightarrow> string \<Rightarrow> ('c, 's) client_world \<Rightarrow> (string \<times> ('c, 's) client_world) result" where
  "client_stub_for addrs nid w =
     (case dict_get (cw_stubs w) nid of
        Some stub \<Rightarrow> Inr (stub, w)
      | None \<Rightarrow>
          (case dict_get addrs nid of
             None \<Rightarrow> Inl KeyError
           | Some address \<Rightarrow> Inr (address, w\<lparr>cw_stubs := dict_set nid address (cw_stubs w)\<rparr>)))"

text \<open>A call of the client: a process that does not serve is not reached.\<close>

definition stub_propose ::
  "('b \<Rightarrow> 'c result) \<Rightarrow> fate \<Rightarrow> rat \<Rightarrow> string \<Rightarrow> 'b \<Rightarrow> ('c, 's) grpc_world \<Rightarrow> propose_reply option \<times> ('c, 's) grpc_world" where
  "stub_propose loads ft now n request w =
     (if ft = Unreachable then (None, w)
      else case dict_get (gw_nodes w) n of
             None \<Rightarrow> (None, w)
           | Some p \<Rightarrow>
               (if \<not> gp_serving p then (None, w)
                else case Propose_rpc grpc_send loads request now (gw_calls w, gp_runtime p) of
                       Inl e \<Rightarrow> (None, w)
                     | Inr (crt, Inl e) \<Rightarrow> (None, put_turn n p crt w)
                     | Inr (crt, Inr r) \<Rightarrow> (if ft = Answered then Some r else None, put_turn n p crt w)))"

text \<open>
  One round over the nodes. A node that the address map does not know is skipped, so that making a stub never raises.
\<close>

fun try_nodes ::
  "('c \<Rightarrow> 'b) \<Rightarrow> ('b \<Rightarrow> 'c result) \<Rightarrow> ('c \<Rightarrow> 's \<Rightarrow> 's) \<Rightarrow> 'c surroundings \<Rightarrow> (string, string) dict \<Rightarrow> 'c
   \<Rightarrow> string list \<Rightarrow> string list \<Rightarrow> ('c, 's) client_world \<Rightarrow> 'c log_entry option \<times> string list \<times> ('c, 's) client_world" where
  "try_nodes dumps loads apl su addrs command [] ordered w = (None, ordered, w)"
| "try_nodes dumps loads apl su addrs command (nid # todo) ordered w =
     (if nid \<notin> set (dict_keys addrs) then try_nodes dumps loads apl su addrs command todo ordered w
      else
        (let w = (case client_stub_for addrs nid w of Inl e \<Rightarrow> w | Inr (stub, w) \<Rightarrow> w);
             k = cw_events w; w = pass dumps loads apl su w;
             (reply, g) = stub_propose loads (su_fate su k) (su_clock su k) nid (dumps command) (cw_grpc w);
             w = w\<lparr>cw_grpc := g\<rparr>
         in case reply of
              None \<Rightarrow> try_nodes dumps loads apl su addrs command todo ordered w
            | Some r \<Rightarrow>
                if ppr_accepted r then
                  (Some (LogEntry (sint (ppr_term r)) (sint (ppr_index r)) command), ordered, w\<lparr>cw_last_known_leader := Some nid\<rparr>)
                else if ppr_leader_hint r \<noteq> '''' \<and> ppr_leader_hint r \<in> set (dict_keys addrs) then
                  try_nodes dumps loads apl su addrs command todo (ppr_leader_hint r # ordered) w
                else try_nodes dumps loads apl su addrs command todo ordered w))"

partial_function (option) grpc_propose_loop ::
  "('c \<Rightarrow> 'b) \<Rightarrow> ('b \<Rightarrow> 'c result) \<Rightarrow> ('c \<Rightarrow> 's \<Rightarrow> 's) \<Rightarrow> 'c surroundings \<Rightarrow> (string, string) dict \<Rightarrow> 'c \<Rightarrow> rat
   \<Rightarrow> string list \<Rightarrow> ('c, 's) client_world \<Rightarrow> ('c log_entry result \<times> ('c, 's) client_world) option" where
  "grpc_propose_loop dumps loads apl su addrs command deadline ordered w =
     (if \<not> su_clock su (cw_events w) < deadline then Some (Inl TimeoutError, pass dumps loads apl su w)
      else
        (case try_nodes dumps loads apl su addrs command ordered ordered (pass dumps loads apl su w) of
           (Some e, ordered, w) \<Rightarrow> Some (Inr e, w)
         | (None, ordered, w) \<Rightarrow> grpc_propose_loop dumps loads apl su addrs command deadline ordered w))"

definition grpc_propose ::
  "('c \<Rightarrow> 'b) \<Rightarrow> ('b \<Rightarrow> 'c result) \<Rightarrow> ('c \<Rightarrow> 's \<Rightarrow> 's) \<Rightarrow> 'c surroundings \<Rightarrow> (string, string) dict \<Rightarrow> rat \<Rightarrow> 'c
   \<Rightarrow> ('c, 's) client_world \<Rightarrow> ('c log_entry result \<times> ('c, 's) client_world) option" where
  "grpc_propose dumps loads apl su addrs timeout command w =
     (let deadline = su_clock su (cw_events w) + timeout; w = pass dumps loads apl su w;
          ordered = (case cw_last_known_leader w of None \<Rightarrow> [] | Some l \<Rightarrow> if l = '''' then [] else [l]);
          ordered = ordered @ filter (\<lambda>nid. nid \<notin> set ordered) (dict_keys addrs)
      in grpc_propose_loop dumps loads apl su addrs command deadline ordered w)"

section \<open>Its contract\<close>

definition grpc_continues ::
  "('c \<Rightarrow> 'b) \<Rightarrow> ('b \<Rightarrow> 'c result) \<Rightarrow> ('c \<Rightarrow> 's \<Rightarrow> 's) \<Rightarrow> 'c set \<Rightarrow> ('c, 's) grpc_world \<Rightarrow> ('c, 's) grpc_world \<Rightarrow> bool" where
  "grpc_continues dumps loads apl C w w' \<longleftrightarrow>
     (\<exists>acts. w' = grpc_run dumps loads apl acts w \<and> \<Union> (grpc_proposed ` set acts) \<subseteq> C)"

definition grpc_logged :: "'c \<Rightarrow> 'c log_entry \<Rightarrow> ('c, 's) grpc_world \<Rightarrow> bool" where
  "grpc_logged command e w \<longleftrightarrow> (\<exists>n p. dict_get (gw_nodes w) n = Some p \<and>
     (let nd = rt_node (gp_runtime p)
      in is_leader nd \<and> st_log (storage nd) \<noteq> [] \<and> last (st_log (storage nd)) = e \<and>
         e = LogEntry (current_term nd) (last_index (storage nd)) command))"

abbreviation su_cmds :: "'c surroundings \<Rightarrow> 'c set" where
  "su_cmds su \<equiv> \<Union> (range (\<lambda>k. \<Union> (grpc_proposed ` set (su_sched su k))))"

lemma grpc_continues_refl [simp]: "grpc_continues dumps loads apl C w w"
  unfolding grpc_continues_def by (rule exI [of _ "[]"]) (simp add: grpc_run_def)

lemma grpc_continues_trans:
  assumes "grpc_continues dumps loads apl C w w1" "grpc_continues dumps loads apl C w1 w2"
  shows "grpc_continues dumps loads apl C w w2"
proof -
  obtain as bs where "w1 = grpc_run dumps loads apl as w" "w2 = grpc_run dumps loads apl bs w1"
    "\<Union> (grpc_proposed ` set as) \<subseteq> C" "\<Union> (grpc_proposed ` set bs) \<subseteq> C"
    using assms by (auto simp: grpc_continues_def)
  then show ?thesis unfolding grpc_continues_def by (intro exI [of _ "as @ bs"]) (auto simp: grpc_run_def)
qed

lemma pass_continues:
  assumes "su_cmds su \<subseteq> C"
  shows "grpc_continues dumps loads apl C (cw_grpc w) (cw_grpc (pass dumps loads apl su w))"
  unfolding grpc_continues_def
  by (rule exI [of _ "su_sched su (cw_events w)"]) (use assms in \<open>auto simp: pass_def\<close>)

lemma pass_events [simp]: "cw_events (pass dumps loads apl su w) = Suc (cw_events w)"
  "cw_last_known_leader (pass dumps loads apl su w) = cw_last_known_leader w"
  by (simp_all add: pass_def)

context pickling
begin

lemma stub_propose_continues:
  assumes "command \<in> C"
  shows "grpc_continues dumps loads apl C w (snd (stub_propose loads ft now n (dumps command) w))"
proof (cases "ft = Unreachable \<or> snd (stub_propose loads ft now n (dumps command) w) = w")
  case False
  then have "snd (stub_propose loads ft now n (dumps command) w) = grpc_run dumps loads apl [GPropose n command now] w"
    by (auto simp: stub_propose_def grpc_run_def with_process_def split: option.splits sum.splits if_splits)
  then show ?thesis
    unfolding grpc_continues_def using assms by (intro exI [of _ "[GPropose n command now]"]) simp
qed (auto simp: stub_propose_def)

lemma stub_propose_accepted:
  assumes "stub_propose loads ft now n (dumps command) w = (Some r, w')" "ppr_accepted r"
  shows "grpc_logged command (LogEntry (sint (ppr_term r)) (sint (ppr_index r)) command) w'"
proof -
  obtain p where p: "dict_get (gw_nodes w) n = Some p"
    using assms(1) by (auto simp: stub_propose_def split: if_splits option.splits)
  obtain nd out entry where pr: "propose command now (rt_node (gp_runtime p)) = (nd, out, entry)" by (metis prod_cases3)
  obtain e calls where e: "entry = Some e" and w': "w' = put_turn n p (calls, (gp_runtime p)\<lparr>rt_node := nd\<rparr>) w"
    and r: "int64_of (entry_term e) = Inr (ppr_term r)" "int64_of (entry_index e) = Inr (ppr_index r)"
    using assms p pr
    by (auto simp: stub_propose_def Propose_rpc_def runtime_propose_def loads_dumps rbind_Inr_conv split: if_splits option.splits sum.splits)
  have nd: "is_leader nd" "st_log (storage nd) = st_log (storage (rt_node (gp_runtime p))) @ [e]"
      "e = LogEntry (current_term nd) (last_index (storage nd)) command"
    using pr unfolding e
    by (auto simp: propose_def broadcast_append_entries_def Let_def last_index_def current_term_def is_leader_def split: if_splits)
  have "LogEntry (sint (ppr_term r)) (sint (ppr_index r)) command = e"
    using r [THEN int64_of_sint] nd(3) by (metis log_entry.sel)
  then show ?thesis
    unfolding grpc_logged_def using nd
    by (intro exI [of _ n] exI [of _ "p\<lparr>gp_runtime := (gp_runtime p)\<lparr>rt_node := nd\<rparr>\<rparr>"]) (simp add: w' put_turn_def put_process_def)
qed

lemma try_nodes_continues:
  assumes C: "insert command (su_cmds su) \<subseteq> C"
  shows "try_nodes dumps loads apl su addrs command todo ordered w = (r, ordered', w') \<Longrightarrow>
    grpc_continues dumps loads apl C (cw_grpc w) (cw_grpc w') \<and> cw_events w \<le> cw_events w' \<and>
    (\<forall>e. r = Some e \<longrightarrow> grpc_logged command e (cw_grpc w'))"
proof (induction todo arbitrary: ordered w)
  case (Cons nid todo)
  obtain w0 where w0: "(case client_stub_for addrs nid w of Inl e \<Rightarrow> w | Inr (stub, w) \<Rightarrow> w) = w0" by blast
  have same: "cw_grpc w0 = cw_grpc w" "cw_events w0 = cw_events w"
    using w0 by (auto simp: client_stub_for_def split: option.splits)
  let ?w1 = "pass dumps loads apl su w0"
  obtain reply g where s: "stub_propose loads (su_fate su (cw_events w0)) (su_clock su (cw_events w0)) nid (dumps command) (cw_grpc ?w1) = (reply, g)"
    by force
  have g: "grpc_continues dumps loads apl C (cw_grpc w) g"
    using grpc_continues_trans [OF pass_continues [of su C dumps loads apl w0]
        stub_propose_continues [of command C apl "cw_grpc ?w1" "su_fate su (cw_events w0)" "su_clock su (cw_events w0)" nid]] C s
    by (simp add: same)
  show ?case
  proof (cases "nid \<in> set (dict_keys addrs)")
    case False
    then show ?thesis using Cons.IH [of ordered w] Cons.prems by simp
  next
    case True
    have rec: "grpc_continues dumps loads apl C (cw_grpc w) (cw_grpc w') \<and> cw_events w \<le> cw_events w' \<and>
    (\<forall>e. r = Some e \<longrightarrow> grpc_logged command e (cw_grpc w'))"
      if "try_nodes dumps loads apl su addrs command todo ord (?w1\<lparr>cw_grpc := g\<rparr>) = (r, ordered', w')" for ord
      using Cons.IH [OF that] grpc_continues_trans [OF g, of "cw_grpc w'"] by (simp add: same)
    consider ord where "try_nodes dumps loads apl su addrs command todo ord (?w1\<lparr>cw_grpc := g\<rparr>) = (r, ordered', w')"
      | l e where "r = Some e" "grpc_logged command e g" "w' = ?w1\<lparr>cw_grpc := g, cw_last_known_leader := l\<rparr>"
    proof (cases reply)
      case None
      then show ?thesis using Cons.prems True that(1) unfolding try_nodes.simps Let_def w0 s prod.case by simp
    next
      case (Some a)
      show ?thesis
        using Cons.prems True that(1) that(2) [OF _ stub_propose_accepted [OF s [unfolded Some]]]
        unfolding try_nodes.simps Let_def w0 s prod.case by (auto simp: Some split: if_splits)
    qed
    then show ?thesis
    proof cases
      case 1
      then show ?thesis by (rule rec)
    qed (use g in \<open>simp add: same\<close>)
  qed
qed simp

lemma grpc_propose_loop_ends:
  assumes late: "\<And>k. K \<le> k \<Longrightarrow> deadline \<le> su_clock su k" and C: "insert command (su_cmds su) \<subseteq> C"
  shows "\<exists>r w'. grpc_propose_loop dumps loads apl su addrs command deadline ordered w = Some (r, w') \<and>
    grpc_continues dumps loads apl C (cw_grpc w) (cw_grpc w') \<and> (case r of Inr e \<Rightarrow> grpc_logged command e (cw_grpc w') | Inl err \<Rightarrow> err = TimeoutError)"
proof (induction "K - cw_events w" arbitrary: ordered w rule: less_induct)
  case less
  let ?w1 = "pass dumps loads apl su w"
  have c1: "grpc_continues dumps loads apl C (cw_grpc w) (cw_grpc ?w1)" using C by (intro pass_continues) simp
  show ?case
  proof (cases "su_clock su (cw_events w) < deadline")
    case False
    then show ?thesis using c1 by (simp add: grpc_propose_loop.simps [of dumps loads apl su addrs command deadline ordered w])
  next
    case True
    obtain r ord w2 where t: "try_nodes dumps loads apl su addrs command ordered ordered ?w1 = (r, ord, w2)" by (metis prod_cases3)
    note c2 = try_nodes_continues [OF C t]
    have c: "grpc_continues dumps loads apl C (cw_grpc w) (cw_grpc w2)" using grpc_continues_trans [OF c1] c2 by blast
    show ?thesis
    proof (cases r)
      case (Some e)
      then show ?thesis using True t c c2 by (simp add: grpc_propose_loop.simps [of dumps loads apl su addrs command deadline ordered w])
    next
      case None
      have "K - cw_events w2 < K - cw_events w" using c2 True late [of "cw_events w"] by fastforce
      from less [OF this, of ord] obtain r' w' where
        "grpc_propose_loop dumps loads apl su addrs command deadline ord w2 = Some (r', w')"
        "grpc_continues dumps loads apl C (cw_grpc w2) (cw_grpc w')" "case r' of Inr e \<Rightarrow> grpc_logged command e (cw_grpc w') | Inl err \<Rightarrow> err = TimeoutError" by blast
      then show ?thesis
        using True t None grpc_continues_trans [OF c, of "cw_grpc w'"]
        by (intro exI [of _ r'] exI [of _ w']) (simp add: grpc_propose_loop.simps [of dumps loads apl su addrs command deadline ordered w])
    qed
  qed
qed

lemma grpc_propose_answers:
  assumes "clock_ok (su_clock su)" "insert command (su_cmds su) \<subseteq> C"
  shows "\<exists>r w'. grpc_propose dumps loads apl su addrs timeout command w = Some (r, w') \<and>
    grpc_continues dumps loads apl C (cw_grpc w) (cw_grpc w') \<and> (case r of Inr e \<Rightarrow> grpc_logged command e (cw_grpc w') | Inl err \<Rightarrow> err = TimeoutError)"
proof -
  let ?d = "su_clock su (cw_events w) + timeout"
  obtain K where K: "\<And>k. K \<le> k \<Longrightarrow> ?d \<le> su_clock su k" using assms(1) by (auto simp: clock_ok_def)
  have c1: "grpc_continues dumps loads apl C (cw_grpc w) (cw_grpc (pass dumps loads apl su w))" using assms(2) by (intro pass_continues) simp
  obtain ord where "grpc_propose dumps loads apl su addrs timeout command w =
      grpc_propose_loop dumps loads apl su addrs command ?d ord (pass dumps loads apl su w)" by (simp add: grpc_propose_def Let_def)
  moreover obtain r w' where
    "grpc_propose_loop dumps loads apl su addrs command ?d ord (pass dumps loads apl su w) = Some (r, w')"
    "grpc_continues dumps loads apl C (cw_grpc (pass dumps loads apl su w)) (cw_grpc w')" "case r of Inr e \<Rightarrow> grpc_logged command e (cw_grpc w') | Inl err \<Rightarrow> err = TimeoutError"
    using grpc_propose_loop_ends [OF K assms(2), where addrs = addrs and apl = apl and ordered = ord and w = "pass dumps loads apl su w"] by blast
  ultimately show ?thesis using grpc_continues_trans [OF c1, of "cw_grpc w'"] by auto
qed

end

sublocale pickling \<subseteq> grpc_client: proposer "grpc_propose dumps loads apl su addrs timeout" "\<lambda>w. clock_ok (su_clock su)"
  "su_cmds su" "\<lambda>C w w'. grpc_continues dumps loads apl C (cw_grpc w) (cw_grpc w')" 
  for apl :: "'c \<Rightarrow> 's \<Rightarrow> 's" and su :: "'c surroundings" and addrs timeout
proof unfold_locales
  fix w :: "('c, 's) client_world" and c C
  assume a: "clock_ok (su_clock su)" "insert c (su_cmds su) \<subseteq> C"
  from grpc_propose_answers [OF a, of apl addrs timeout w]
  show "\<exists>r w'. grpc_propose dumps loads apl su addrs timeout c w = Some (r, w') \<and> clock_ok (su_clock su) \<and>
      grpc_continues dumps loads apl C (cw_grpc w) (cw_grpc w') \<and> (\<forall>err. r = Inl err \<longrightarrow> err = TimeoutError)"
    using a(1) by (elim exE conjE) (auto split: sum.splits)
qed (auto intro: grpc_continues_trans)

context pickling
begin

lemmas grpc_proposer = grpc_client.proposer_axioms

end

section \<open>Properties\<close>

text \<open>
  C27: The client of a cluster of processes always returns: with an entry that carries the command and that a
  leading process has just appended to its log, or with TimeoutError, whichever calls are lost or
  answered too late; the world it leaves is one the processes reach when only this command and those
  of others are proposed.
\<close>

theorem grpc_propose_returns:
  assumes "pickling dumps loads" "clock_ok (su_clock su)"
  shows "\<exists>r w'. grpc_propose dumps loads apl su addrs timeout command w = Some (r, w') \<and>
    grpc_continues dumps loads apl (insert command (su_cmds su)) (cw_grpc w) (cw_grpc w') \<and>
    (case r of Inr e \<Rightarrow> grpc_logged command e (cw_grpc w') | Inl err \<Rightarrow> err = TimeoutError)"
  by (rule pickling.grpc_propose_answers [OF assms subset_refl])

definition demo_addresses :: "(string, string) dict" where
  "demo_addresses = [(''a'', ''a:1''), (''b'', ''b:1''), (''c'', ''c:1'')]"

text \<open>The first call is lost, the second one is answered too late, all others are answered.\<close>

definition demo_surroundings :: "'c surroundings" where
  "demo_surroundings = \<lparr>su_clock = demo_clock, su_sched = (\<lambda>k. [GTick ''a'' (demo_clock k), GServe 0 (demo_clock k)]),
     su_fate = (\<lambda>k. if k = 2 then Unreachable else if k = 3 then TimedOut else Answered)\<rparr>"

lemma demo_surroundings_ok: "clock_ok (su_clock demo_surroundings)" "su_cmds demo_surroundings = {}"
  by (simp_all add: demo_surroundings_def demo_clock_ok)

theorem grpc_propose_returns_witness:
  "\<exists>r w'. grpc_propose Pickled pickle_loads (record_step id) demo_surroundings demo_addresses 9 ''transfer''
      (GrpcRaftClusterClient demo_first) = Some (r, w')"
  using grpc_propose_returns [OF pickle.pickling_axioms demo_surroundings_ok(1), of "record_step id" demo_addresses 9 "''transfer''"
      "GrpcRaftClusterClient demo_first"]
  by (elim exE conjE) (intro exI)

end
