(* ===== verification/Grpc_Stubs.thy ===== *)
theory Grpc_Stubs
  imports Grpc_Client
begin

text \<open>
  The generated module coordinator/grpc/raft_pb2_grpc.py: the client's stub, the base class of the service, its registration at a
  server, and the calls without a stub. What it uses of the message classes and of the gRPC library are arguments:
  \<open>SerializeToString\<close> and \<open>FromString\<close> of each class, and \<open>unary_unary\<close> of a channel. The bytes on the wire are of type \<open>'y\<close>; \<open>'w\<close> is the
  state that a service works on.
\<close>

section \<open>Messages and handlers\<close>

datatype pb_class =
    CRequestVoteArgs | CRequestVoteReply | CPreVoteArgs | CPreVoteReply
  | CAppendEntriesArgs | CAppendEntriesReply | CProposeRequest | CProposeReply

text \<open>A \<open>ProposeRequest\<close> has one field, the bytes of the command.\<close>

datatype 'b pb_message =
    PbRVArgs pb_request_vote_args | PbRVReply pb_request_vote_reply
  | PbPVArgs pb_prevote_args | PbPVReply pb_prevote_reply
  | PbAEArgs "'b pb_append_entries_args" | PbAEReply pb_append_entries_reply
  | PbPRequest 'b | PbPReply propose_reply

fun class_of :: "'b pb_message \<Rightarrow> pb_class" where
  "class_of (PbRVArgs m) = CRequestVoteArgs"
| "class_of (PbRVReply m) = CRequestVoteReply"
| "class_of (PbPVArgs m) = CPreVoteArgs"
| "class_of (PbPVReply m) = CPreVoteReply"
| "class_of (PbAEArgs m) = CAppendEntriesArgs"
| "class_of (PbAEReply m) = CAppendEntriesReply"
| "class_of (PbPRequest m) = CProposeRequest"
| "class_of (PbPReply m) = CProposeReply"

record ('b, 'y) raft_pb2 =
  SerializeToString :: "pb_class \<Rightarrow> 'b pb_message \<Rightarrow> 'y result"
  FromString :: "pb_class \<Rightarrow> 'y \<Rightarrow> 'b pb_message result"

text \<open>What a handler may tell the server about its call.\<close>

datatype status_code = OK | UNIMPLEMENTED

record rpc_context =
  ctx_code :: status_code
  ctx_details :: string

type_synonym ('b, 'w) rpc_method = "'b pb_message \<Rightarrow> rpc_context \<Rightarrow> 'w \<Rightarrow> 'b pb_message result \<times> rpc_context \<times> 'w"

record ('b, 'w) servicer =
  sv_RequestVote :: "('b, 'w) rpc_method"
  sv_PreVote :: "('b, 'w) rpc_method"
  sv_AppendEntries :: "('b, 'w) rpc_method"
  sv_Propose :: "('b, 'w) rpc_method"

record ('b, 'y, 'w) rpc_method_handler =
  behaviour :: "('b, 'w) rpc_method"
  request_deserializer :: "'y \<Rightarrow> 'b pb_message result"
  response_serializer :: "'b pb_message \<Rightarrow> 'y result"

section \<open>The generated code\<close>

definition GRPC_GENERATED_VERSION :: string where
  "GRPC_GENERATED_VERSION = ''1.82.1''"

text \<open>Importing the module: \<open>first_version_is_lower\<close> is missing in libraries that are too old to have it.\<close>

definition import_raft_pb2_grpc :: "(string \<Rightarrow> string \<Rightarrow> bool) option \<Rightarrow> string \<Rightarrow> unit result" where
  "import_raft_pb2_grpc first_version_is_lower grpc_version =
     (let version_not_supported =
        (case first_version_is_lower of None \<Rightarrow> True | Some lower \<Rightarrow> lower grpc_version GRPC_GENERATED_VERSION)
      in if version_not_supported then Inl RuntimeError else Inr ())"

type_synonym ('b, 'w) rpc_callable = "'b pb_message \<Rightarrow> 'w \<Rightarrow> 'b pb_message result \<times> 'w"

type_synonym ('b, 'y, 'w) unary_unary =
  "string \<Rightarrow> ('b pb_message \<Rightarrow> 'y result) \<Rightarrow> ('y \<Rightarrow> 'b pb_message result) \<Rightarrow> ('b, 'w) rpc_callable"

record ('b, 'w) stub =
  stub_RequestVote :: "('b, 'w) rpc_callable"
  stub_PreVote :: "('b, 'w) rpc_callable"
  stub_AppendEntries :: "('b, 'w) rpc_callable"
  stub_Propose :: "('b, 'w) rpc_callable"

definition RaftServiceStub :: "('b, 'y) raft_pb2 \<Rightarrow> ('b, 'y, 'w) unary_unary \<Rightarrow> ('b, 'w) stub" where
  "RaftServiceStub pb channel =
     \<lparr>stub_RequestVote = channel ''/raft.RaftService/RequestVote''
        (SerializeToString pb CRequestVoteArgs) (FromString pb CRequestVoteReply),
      stub_PreVote = channel ''/raft.RaftService/PreVote''
        (SerializeToString pb CPreVoteArgs) (FromString pb CPreVoteReply),
      stub_AppendEntries = channel ''/raft.RaftService/AppendEntries''
        (SerializeToString pb CAppendEntriesArgs) (FromString pb CAppendEntriesReply),
      stub_Propose = channel ''/raft.RaftService/Propose''
        (SerializeToString pb CProposeRequest) (FromString pb CProposeReply)\<rparr>"

text \<open>The base class: every method tells the server that it is not implemented and raises.\<close>

definition Servicer_RequestVote :: "('b, 'w) rpc_method" where
  "Servicer_RequestVote request context w =
     (Inl NotImplementedError, context\<lparr>ctx_code := UNIMPLEMENTED, ctx_details := ''Method not implemented!''\<rparr>, w)"

definition Servicer_PreVote :: "('b, 'w) rpc_method" where
  "Servicer_PreVote request context w =
     (Inl NotImplementedError, context\<lparr>ctx_code := UNIMPLEMENTED, ctx_details := ''Method not implemented!''\<rparr>, w)"

definition Servicer_AppendEntries :: "('b, 'w) rpc_method" where
  "Servicer_AppendEntries request context w =
     (Inl NotImplementedError, context\<lparr>ctx_code := UNIMPLEMENTED, ctx_details := ''Method not implemented!''\<rparr>, w)"

definition Servicer_Propose :: "('b, 'w) rpc_method" where
  "Servicer_Propose request context w =
     (Inl NotImplementedError, context\<lparr>ctx_code := UNIMPLEMENTED, ctx_details := ''Method not implemented!''\<rparr>, w)"

definition RaftServiceServicer :: "('b, 'w) servicer" where
  "RaftServiceServicer =
     \<lparr>sv_RequestVote = Servicer_RequestVote, sv_PreVote = Servicer_PreVote,
      sv_AppendEntries = Servicer_AppendEntries, sv_Propose = Servicer_Propose\<rparr>"

text \<open>
  Registration: the dictionary of handlers, and the generic handler that knows them by their full names. A server keeps the
  handlers it was given.
\<close>

definition add_RaftServiceServicer_to_server ::
  "('b, 'y) raft_pb2 \<Rightarrow> ('b, 'w) servicer \<Rightarrow> (string, ('b, 'y, 'w) rpc_method_handler) dict \<Rightarrow> (string, ('b, 'y, 'w) rpc_method_handler) dict" where
  "add_RaftServiceServicer_to_server pb servicer server =
     (let rpc_method_handlers =
        [(''RequestVote'', \<lparr>behaviour = sv_RequestVote servicer, request_deserializer = FromString pb CRequestVoteArgs,
            response_serializer = SerializeToString pb CRequestVoteReply\<rparr>),
         (''PreVote'', \<lparr>behaviour = sv_PreVote servicer, request_deserializer = FromString pb CPreVoteArgs,
            response_serializer = SerializeToString pb CPreVoteReply\<rparr>),
         (''AppendEntries'', \<lparr>behaviour = sv_AppendEntries servicer, request_deserializer = FromString pb CAppendEntriesArgs,
            response_serializer = SerializeToString pb CAppendEntriesReply\<rparr>),
         (''Propose'', \<lparr>behaviour = sv_Propose servicer, request_deserializer = FromString pb CProposeRequest,
            response_serializer = SerializeToString pb CProposeReply\<rparr>)]
      in server @ map (\<lambda>(name, h). (''/'' @ ''raft.RaftService'' @ ''/'' @ name, h)) rpc_method_handlers)"

text \<open>The calls without a stub; their options are passed on as they are.\<close>

record 'o call_options =
  options :: "'o list"
  channel_credentials :: "'o option"
  call_credentials :: "'o option"
  insecure :: bool
  compression :: "'o option"
  wait_for_ready :: "bool option"
  timeout :: "rat option"
  metadata :: "'o option"

type_synonym ('b, 'y, 'w, 'o) experimental =
  "'b pb_message \<Rightarrow> string \<Rightarrow> string \<Rightarrow> ('b pb_message \<Rightarrow> 'y result) \<Rightarrow> ('y \<Rightarrow> 'b pb_message result) \<Rightarrow> 'o list \<Rightarrow> 'o option \<Rightarrow> bool
   \<Rightarrow> 'o option \<Rightarrow> 'o option \<Rightarrow> bool option \<Rightarrow> rat option \<Rightarrow> 'o option \<Rightarrow> 'w \<Rightarrow> 'b pb_message result \<times> 'w"

definition RaftService_RequestVote ::
  "('b, 'y) raft_pb2 \<Rightarrow> ('b, 'y, 'w, 'o) experimental \<Rightarrow> 'b pb_message \<Rightarrow> string \<Rightarrow> 'o call_options \<Rightarrow> 'w \<Rightarrow> 'b pb_message result \<times> 'w" where
  "RaftService_RequestVote pb experimental request target opts =
     experimental request target ''/raft.RaftService/RequestVote''
       (SerializeToString pb CRequestVoteArgs) (FromString pb CRequestVoteReply)
       (options opts) (channel_credentials opts) (insecure opts) (call_credentials opts) (compression opts)
       (wait_for_ready opts) (timeout opts) (metadata opts)"

definition RaftService_PreVote ::
  "('b, 'y) raft_pb2 \<Rightarrow> ('b, 'y, 'w, 'o) experimental \<Rightarrow> 'b pb_message \<Rightarrow> string \<Rightarrow> 'o call_options \<Rightarrow> 'w \<Rightarrow> 'b pb_message result \<times> 'w" where
  "RaftService_PreVote pb experimental request target opts =
     experimental request target ''/raft.RaftService/PreVote''
       (SerializeToString pb CPreVoteArgs) (FromString pb CPreVoteReply)
       (options opts) (channel_credentials opts) (insecure opts) (call_credentials opts) (compression opts)
       (wait_for_ready opts) (timeout opts) (metadata opts)"

definition RaftService_AppendEntries ::
  "('b, 'y) raft_pb2 \<Rightarrow> ('b, 'y, 'w, 'o) experimental \<Rightarrow> 'b pb_message \<Rightarrow> string \<Rightarrow> 'o call_options \<Rightarrow> 'w \<Rightarrow> 'b pb_message result \<times> 'w" where
  "RaftService_AppendEntries pb experimental request target opts =
     experimental request target ''/raft.RaftService/AppendEntries''
       (SerializeToString pb CAppendEntriesArgs) (FromString pb CAppendEntriesReply)
       (options opts) (channel_credentials opts) (insecure opts) (call_credentials opts) (compression opts)
       (wait_for_ready opts) (timeout opts) (metadata opts)"

definition RaftService_Propose ::
  "('b, 'y) raft_pb2 \<Rightarrow> ('b, 'y, 'w, 'o) experimental \<Rightarrow> 'b pb_message \<Rightarrow> string \<Rightarrow> 'o call_options \<Rightarrow> 'w \<Rightarrow> 'b pb_message result \<times> 'w" where
  "RaftService_Propose pb experimental request target opts =
     experimental request target ''/raft.RaftService/Propose''
       (SerializeToString pb CProposeRequest) (FromString pb CProposeReply)
       (options opts) (channel_credentials opts) (insecure opts) (call_credentials opts) (compression opts)
       (wait_for_ready opts) (timeout opts) (metadata opts)"

section \<open>The service and its callers\<close>

text \<open>The service of raft\_service.py overrides all four methods; it works on a runtime and its transport.\<close>

definition RaftGrpcServicer ::
  "(string \<Rightarrow> string \<Rightarrow> 'c message \<Rightarrow> 't \<Rightarrow> 't) \<Rightarrow> ('b \<Rightarrow> 'c result) \<Rightarrow> ('c \<Rightarrow> 's \<Rightarrow> 's) \<Rightarrow> rat \<Rightarrow> ('b, 't \<times> ('c, 's) runtime) servicer" where
  "RaftGrpcServicer tsend loads apl now =
     \<lparr>sv_RequestVote = (\<lambda>request context (t, rt). case request of
        PbRVArgs q \<Rightarrow> (let (rt, r) = RequestVote q now rt in (rbind r (\<lambda>p. Inr (PbRVReply p)), context, (t, rt)))
      | _ \<Rightarrow> (Inl TypeError, context, (t, rt))),
      sv_PreVote = (\<lambda>request context (t, rt). case request of
        PbPVArgs q \<Rightarrow> (let (rt, r) = PreVote q now rt in (rbind r (\<lambda>p. Inr (PbPVReply p)), context, (t, rt)))
      | _ \<Rightarrow> (Inl TypeError, context, (t, rt))),
      sv_AppendEntries = (\<lambda>request context (t, rt). case request of
        PbAEArgs q \<Rightarrow> (case AppendEntries loads apl q now rt of
            Inl e \<Rightarrow> (Inl e, context, (t, rt))
          | Inr (rt, r) \<Rightarrow> (rbind r (\<lambda>p. Inr (PbAEReply p)), context, (t, rt)))
      | _ \<Rightarrow> (Inl TypeError, context, (t, rt))),
      sv_Propose = (\<lambda>request context (t, rt). case request of
        PbPRequest q \<Rightarrow> (case Propose_rpc tsend loads q now (t, rt) of
            Inl e \<Rightarrow> (Inl e, context, (t, rt))
          | Inr (w, r) \<Rightarrow> (rbind r (\<lambda>p. Inr (PbPReply p)), context, w))
      | _ \<Rightarrow> (Inl TypeError, context, (t, rt)))\<rparr>"

text \<open>The choice of the call in \<open>_send_request_and_inject_reply\<close>.\<close>

definition send_request ::
  "('c \<Rightarrow> 'b) \<Rightarrow> ('b, 'w) stub \<Rightarrow> 'c message \<Rightarrow> 'w \<Rightarrow> 'b pb_message result \<times> 'w" where
  "send_request dumps stub message w =
     (case message of
        MRequestVoteArgs args \<Rightarrow> (case request_vote_args_to_proto args of Inl e \<Rightarrow> (Inl e, w) | Inr q \<Rightarrow> stub_RequestVote stub (PbRVArgs q) w)
      | MPreVoteArgs args \<Rightarrow> (case prevote_args_to_proto args of Inl e \<Rightarrow> (Inl e, w) | Inr q \<Rightarrow> stub_PreVote stub (PbPVArgs q) w)
      | MAppendEntriesArgs args \<Rightarrow>
          (case append_entries_args_to_proto dumps args of Inl e \<Rightarrow> (Inl e, w) | Inr q \<Rightarrow> stub_AppendEntries stub (PbAEArgs q) w)
      | _ \<Rightarrow> (Inl TypeError, w))"

section \<open>What the library promises\<close>

text \<open>Reading back what was serialized gives the message back.\<close>

locale protobuf =
  fixes pb :: "('b, 'y) raft_pb2"
  assumes reads_back: "\<exists>y. SerializeToString pb (class_of m) m = Inr y \<and> FromString pb (class_of m) y = Inr m"
begin

lemma over_the_wire: "class_of m = k \<Longrightarrow> rbind (SerializeToString pb k m) (FromString pb k) = Inr m"
  using reads_back [of m] by auto

end

text \<open>
  A call that gets through: the request is serialized, read by the handler, answered, and the answer comes back the same way.
  Whatever goes wrong on the way is an \<open>RpcError\<close> for the caller.
\<close>

definition hide_error :: "'a result \<Rightarrow> 'a result" where
  "hide_error r = (case r of Inl e \<Rightarrow> Inl RpcError | Inr v \<Rightarrow> Inr v)"

definition rpc_answer ::
  "('b, 'y, 'w) rpc_method_handler \<Rightarrow> ('b pb_message \<Rightarrow> 'y result) \<Rightarrow> ('y \<Rightarrow> 'b pb_message result) \<Rightarrow> ('b, 'w) rpc_callable" where
  "rpc_answer h ser des m w =
     (case rbind (ser m) (request_deserializer h) of
        Inl e \<Rightarrow> (Inl RpcError, w)
      | Inr q \<Rightarrow>
          (let (r, context, w) = behaviour h q \<lparr>ctx_code = OK, ctx_details = ''''\<rparr> w
           in (hide_error (rbind r (\<lambda>r. rbind (response_serializer h r) des)), w)))"

text \<open>
  A channel to a server: a call gets through, does not arrive, or is answered too late. A name that the server does not know is
  not served.
\<close>

definition rpc_outcomes :: "'w \<Rightarrow> 'b pb_message result \<times> 'w \<Rightarrow> ('b pb_message result \<times> 'w) set" where
  "rpc_outcomes w answer = {answer, (Inl RpcError, w), (Inl RpcError, snd answer)}"

locale rpc_channel =
  fixes server :: "(string, ('b, 'y, 'w) rpc_method_handler) dict" and unary_unary :: "('b, 'y, 'w) unary_unary"
  assumes arrives: "dict_get server path = Some h \<Longrightarrow> unary_unary path ser des m w \<in> rpc_outcomes w (rpc_answer h ser des m w)"
    and unknown: "dict_get server path = None \<Longrightarrow> unary_unary path ser des m w = (Inl RpcError, w)"

text \<open>A method that returns replies of its class only.\<close>

definition reply_class :: "pb_class \<Rightarrow> 'b pb_message result \<Rightarrow> bool" where
  "reply_class k r \<longleftrightarrow> (case r of Inl e \<Rightarrow> True | Inr v \<Rightarrow> class_of v = k)"

lemma reply_class_simps [simp]: "reply_class k (Inl e)" "(\<And>p. class_of (f p) = k) \<Longrightarrow> reply_class k (rbind r (\<lambda>p. Inr (f p)))"
  by (simp_all add: reply_class_def rbind_def split: sum.split)

context protobuf
begin

lemma answer_of_handler:
  assumes "class_of m = kq" "reply_class kr (fst (f m \<lparr>ctx_code = OK, ctx_details = ''''\<rparr> w))"
  shows "rpc_answer \<lparr>behaviour = f, request_deserializer = FromString pb kq, response_serializer = SerializeToString pb kr\<rparr>
    (SerializeToString pb kq) (FromString pb kr) m w =
    (let (r, context, w') = f m \<lparr>ctx_code = OK, ctx_details = ''''\<rparr> w in (hide_error r, w'))"
proof -
  obtain r cx w' where f: "f m \<lparr>ctx_code = OK, ctx_details = ''''\<rparr> w = (r, cx, w')" by (rule prod_cases3)
  have "rbind r (\<lambda>v. rbind (SerializeToString pb kr v) (FromString pb kr)) = r"
    using assms(2) f by (cases r) (auto simp: over_the_wire reply_class_def)
  then show ?thesis using over_the_wire [OF assms(1)] f by (simp add: rpc_answer_def)
qed

end

lemma registered_handlers:
  "dict_get (add_RaftServiceServicer_to_server pb sv []) ''/raft.RaftService/RequestVote'' = Some \<lparr>behaviour = sv_RequestVote sv,
     request_deserializer = FromString pb CRequestVoteArgs, response_serializer = SerializeToString pb CRequestVoteReply\<rparr>"
  "dict_get (add_RaftServiceServicer_to_server pb sv []) ''/raft.RaftService/PreVote'' = Some \<lparr>behaviour = sv_PreVote sv,
     request_deserializer = FromString pb CPreVoteArgs, response_serializer = SerializeToString pb CPreVoteReply\<rparr>"
  "dict_get (add_RaftServiceServicer_to_server pb sv []) ''/raft.RaftService/AppendEntries'' = Some \<lparr>behaviour = sv_AppendEntries sv,
     request_deserializer = FromString pb CAppendEntriesArgs, response_serializer = SerializeToString pb CAppendEntriesReply\<rparr>"
  "dict_get (add_RaftServiceServicer_to_server pb sv []) ''/raft.RaftService/Propose'' = Some \<lparr>behaviour = sv_Propose sv,
     request_deserializer = FromString pb CProposeRequest, response_serializer = SerializeToString pb CProposeReply\<rparr>"
  by (simp_all add: add_RaftServiceServicer_to_server_def)

text \<open>A service at the other end of a channel: the stub's methods are the methods of the service.\<close>

locale raft_rpc = protobuf pb + rpc_channel "add_RaftServiceServicer_to_server pb sv []" channel
  for pb :: "('b, 'y) raft_pb2" and sv :: "('b, 'w) servicer" and channel :: "('b, 'y, 'w) unary_unary"
begin

lemma stub_calls:
  "\<lbrakk>class_of m = CRequestVoteArgs; sv_RequestVote sv m \<lparr>ctx_code = OK, ctx_details = ''''\<rparr> w = (r, context, w');
     reply_class CRequestVoteReply r\<rbrakk>
   \<Longrightarrow> stub_RequestVote (RaftServiceStub pb channel) m w \<in> rpc_outcomes w (hide_error r, w')"
  "\<lbrakk>class_of m = CPreVoteArgs; sv_PreVote sv m \<lparr>ctx_code = OK, ctx_details = ''''\<rparr> w = (r, context, w');
     reply_class CPreVoteReply r\<rbrakk>
   \<Longrightarrow> stub_PreVote (RaftServiceStub pb channel) m w \<in> rpc_outcomes w (hide_error r, w')"
  "\<lbrakk>class_of m = CAppendEntriesArgs; sv_AppendEntries sv m \<lparr>ctx_code = OK, ctx_details = ''''\<rparr> w = (r, context, w');
     reply_class CAppendEntriesReply r\<rbrakk>
   \<Longrightarrow> stub_AppendEntries (RaftServiceStub pb channel) m w \<in> rpc_outcomes w (hide_error r, w')"
  "\<lbrakk>class_of m = CProposeRequest; sv_Propose sv m \<lparr>ctx_code = OK, ctx_details = ''''\<rparr> w = (r, context, w');
     reply_class CProposeReply r\<rbrakk>
   \<Longrightarrow> stub_Propose (RaftServiceStub pb channel) m w \<in> rpc_outcomes w (hide_error r, w')"
  using arrives [OF registered_handlers(1), of "SerializeToString pb CRequestVoteArgs" "FromString pb CRequestVoteReply" m w]
    arrives [OF registered_handlers(2), of "SerializeToString pb CPreVoteArgs" "FromString pb CPreVoteReply" m w]
    arrives [OF registered_handlers(3), of "SerializeToString pb CAppendEntriesArgs" "FromString pb CAppendEntriesReply" m w]
    arrives [OF registered_handlers(4), of "SerializeToString pb CProposeRequest" "FromString pb CProposeReply" m w]
  by (simp_all add: RaftServiceStub_def answer_of_handler)

end

text \<open>The channels of the model: what becomes of a call is its \<open>fate\<close>, as for the client.\<close>

definition fated_channel :: "fate \<Rightarrow> (string, ('b, 'y, 'w) rpc_method_handler) dict \<Rightarrow> ('b, 'y, 'w) unary_unary" where
  "fated_channel ft server path ser des m w =
     (case dict_get server path of
        None \<Rightarrow> (Inl RpcError, w)
      | Some h \<Rightarrow>
          (case ft of
             Unreachable \<Rightarrow> (Inl RpcError, w)
           | TimedOut \<Rightarrow> (Inl RpcError, snd (rpc_answer h ser des m w))
           | Answered \<Rightarrow> rpc_answer h ser des m w))"

interpretation fated: rpc_channel server "fated_channel ft server"
  by unfold_locales (auto simp: fated_channel_def rpc_outcomes_def split: fate.split)

text \<open>Bytes that stand for a message of a class and nothing else.\<close>

definition tagged_pb2 :: "('b, pb_class \<times> 'b pb_message) raft_pb2" where
  "tagged_pb2 =
     \<lparr>SerializeToString = (\<lambda>k m. if class_of m = k then Inr (k, m) else Inl TypeError),
      FromString = (\<lambda>k (k', m). if k' = k then Inr m else Inl ValueError)\<rparr>"

interpretation tagged: protobuf tagged_pb2
  by unfold_locales (simp add: tagged_pb2_def)

interpretation tagged_rpc: raft_rpc tagged_pb2 sv "fated_channel ft (add_RaftServiceServicer_to_server tagged_pb2 sv [])"
  by unfold_locales

section \<open>Properties\<close>

text \<open>
  C19: The generated stub and the generated registration fit together. Over any channel that keeps the library's promises, a
  call of the stub either fails with RpcError, with the node as it was or as the service left it, or returns exactly what the method
  of the same name of the service returned; an exception of the service is an RpcError as well.
\<close>

theorem stub_reaches_service:
  assumes "raft_rpc pb (RaftGrpcServicer tsend loads apl now) channel"
  shows "(let (rt', r) = RequestVote rv now rt
      in stub_RequestVote (RaftServiceStub pb channel) (PbRVArgs rv) (t, rt) \<in>
         rpc_outcomes (t, rt) (hide_error (rbind r (\<lambda>p. Inr (PbRVReply p))), (t, rt'))) \<and>
    (let (rt', r) = PreVote pv now rt
      in stub_PreVote (RaftServiceStub pb channel) (PbPVArgs pv) (t, rt) \<in>
         rpc_outcomes (t, rt) (hide_error (rbind r (\<lambda>p. Inr (PbPVReply p))), (t, rt'))) \<and>
    (case AppendEntries loads apl ae now rt of
       Inl e \<Rightarrow> stub_AppendEntries (RaftServiceStub pb channel) (PbAEArgs ae) (t, rt) = (Inl RpcError, (t, rt))
     | Inr (rt', r) \<Rightarrow> stub_AppendEntries (RaftServiceStub pb channel) (PbAEArgs ae) (t, rt) \<in>
         rpc_outcomes (t, rt) (hide_error (rbind r (\<lambda>p. Inr (PbAEReply p))), (t, rt'))) \<and>
    (case Propose_rpc tsend loads command now (t, rt) of
       Inl e \<Rightarrow> stub_Propose (RaftServiceStub pb channel) (PbPRequest command) (t, rt) = (Inl RpcError, (t, rt))
     | Inr (w, r) \<Rightarrow> stub_Propose (RaftServiceStub pb channel) (PbPRequest command) (t, rt) \<in>
         rpc_outcomes (t, rt) (hide_error (rbind r (\<lambda>p. Inr (PbPReply p))), w))"
proof (intro conjI)
  let ?sv = "RaftGrpcServicer tsend loads apl now" and ?c = "\<lparr>ctx_code = OK, ctx_details = ''''\<rparr>" and ?w = "(t, rt)"
  note calls = raft_rpc.stub_calls [OF assms]
  show "let (rt', r) = RequestVote rv now rt in stub_RequestVote (RaftServiceStub pb channel) (PbRVArgs rv) (t, rt) \<in>
      rpc_outcomes (t, rt) (hide_error (rbind r (\<lambda>p. Inr (PbRVReply p))), (t, rt'))"
    using calls(1) [of "PbRVArgs rv" ?w _ ?c] by (auto simp: RaftGrpcServicer_def split: prod.split)
  show "let (rt', r) = PreVote pv now rt in stub_PreVote (RaftServiceStub pb channel) (PbPVArgs pv) (t, rt) \<in>
      rpc_outcomes (t, rt) (hide_error (rbind r (\<lambda>p. Inr (PbPVReply p))), (t, rt'))"
    using calls(2) [of "PbPVArgs pv" ?w _ ?c] by (auto simp: RaftGrpcServicer_def split: prod.split)
  show "case AppendEntries loads apl ae now rt of
       Inl e \<Rightarrow> stub_AppendEntries (RaftServiceStub pb channel) (PbAEArgs ae) (t, rt) = (Inl RpcError, (t, rt))
     | Inr (rt', r) \<Rightarrow> stub_AppendEntries (RaftServiceStub pb channel) (PbAEArgs ae) (t, rt) \<in>
         rpc_outcomes (t, rt) (hide_error (rbind r (\<lambda>p. Inr (PbAEReply p))), (t, rt'))"
    using calls(3) [of "PbAEArgs ae" ?w _ ?c]
    by (auto simp: RaftGrpcServicer_def rpc_outcomes_def hide_error_def split: prod.split sum.split)
  show "case Propose_rpc tsend loads command now (t, rt) of
       Inl e \<Rightarrow> stub_Propose (RaftServiceStub pb channel) (PbPRequest command) (t, rt) = (Inl RpcError, (t, rt))
     | Inr (w, r) \<Rightarrow> stub_Propose (RaftServiceStub pb channel) (PbPRequest command) (t, rt) \<in>
         rpc_outcomes (t, rt) (hide_error (rbind r (\<lambda>p. Inr (PbPReply p))), w)"
    using calls(4) [of "PbPRequest command" ?w _ ?c]
    by (auto simp: RaftGrpcServicer_def rpc_outcomes_def hide_error_def split: prod.split sum.split)
qed

text \<open>A service that overrides nothing answers no call, and the stub says so.\<close>

lemma base_class_refuses:
  assumes "raft_rpc pb RaftServiceServicer channel"
  shows "class_of m = CRequestVoteArgs \<Longrightarrow> stub_RequestVote (RaftServiceStub pb channel) m w = (Inl RpcError, w)"
    "class_of m = CPreVoteArgs \<Longrightarrow> stub_PreVote (RaftServiceStub pb channel) m w = (Inl RpcError, w)"
    "class_of m = CAppendEntriesArgs \<Longrightarrow> stub_AppendEntries (RaftServiceStub pb channel) m w = (Inl RpcError, w)"
    "class_of m = CProposeRequest \<Longrightarrow> stub_Propose (RaftServiceStub pb channel) m w = (Inl RpcError, w)"
  using raft_rpc.stub_calls [OF assms, of m w]
  by (simp_all add: RaftServiceServicer_def Servicer_RequestVote_def Servicer_PreVote_def Servicer_AppendEntries_def
      Servicer_Propose_def rpc_outcomes_def hide_error_def)

text \<open>A call without a stub is the stub's call over a channel to the target that is opened for it.\<close>

lemma call_without_stub:
  assumes "\<And>path ser des m w. experimental m target path ser des (options opts) (channel_credentials opts) (insecure opts)
    (call_credentials opts) (compression opts) (wait_for_ready opts) (timeout opts) (metadata opts) w = channel path ser des m w"
  shows "RaftService_RequestVote pb experimental m target opts w = stub_RequestVote (RaftServiceStub pb channel) m w"
    "RaftService_PreVote pb experimental m target opts w = stub_PreVote (RaftServiceStub pb channel) m w"
    "RaftService_AppendEntries pb experimental m target opts w = stub_AppendEntries (RaftServiceStub pb channel) m w"
    "RaftService_Propose pb experimental m target opts w = stub_Propose (RaftServiceStub pb channel) m w"
  by (simp_all add: RaftService_RequestVote_def RaftService_PreVote_def RaftService_AppendEntries_def RaftService_Propose_def
      RaftServiceStub_def assms)

text \<open>The process and the message of the witness.\<close>

definition demo_served :: "(string, string list) runtime" where
  "demo_served = RaftNodeRuntime (RaftNode ''b'' [''a''] InMemoryStorage [] 3 6 1 (\<lambda>k lo hi. lo)) 1"

definition demo_ballot :: pb_request_vote_args where
  "demo_ballot = PbRequestVoteArgs 1 ''a'' 0 0"

theorem stub_reaches_service_witness:
  "(let (rt', r) = RequestVote demo_ballot 0 demo_served
    in stub_RequestVote (RaftServiceStub tagged_pb2 (fated_channel Answered
         (add_RaftServiceServicer_to_server tagged_pb2 (RaftGrpcServicer grpc_send pickle_loads (\<lambda>c s. s @ [c]) 0) [])))
         (PbRVArgs demo_ballot) ([], demo_served) \<in>
       rpc_outcomes ([], demo_served) (hide_error (rbind r (\<lambda>p. Inr (PbRVReply p))), ([], rt'))) \<and>
   snd (RequestVote demo_ballot 0 demo_served) = Inr (PbRequestVoteReply 1 True ''b'')"
proof (intro conjI)
  show "snd (RequestVote demo_ballot 0 demo_served) = Inr (PbRequestVoteReply 1 True ''b'')" by code_simp
qed (rule conjunct1 [OF stub_reaches_service [OF tagged_rpc.raft_rpc_axioms]])

text \<open>The replies as messages.\<close>

fun reply_message_of :: "pb_reply \<Rightarrow> 'b pb_message" where
  "reply_message_of (RVReply p) = PbRVReply p"
| "reply_message_of (PVReply p) = PbPVReply p"
| "reply_message_of (AEReply p) = PbAEReply p"

abbreviation service_channel ::
  "fate \<Rightarrow> ('b, 'y) raft_pb2 \<Rightarrow> (string \<Rightarrow> string \<Rightarrow> 'c message \<Rightarrow> 't \<Rightarrow> 't) \<Rightarrow> ('b \<Rightarrow> 'c result) \<Rightarrow> ('c \<Rightarrow> 's \<Rightarrow> 's) \<Rightarrow> rat
   \<Rightarrow> ('b, 'y, 't \<times> ('c, 's) runtime) unary_unary" where
  "service_channel ft pb tsend loads apl now \<equiv>
     fated_channel ft (add_RaftServiceServicer_to_server pb (RaftGrpcServicer tsend loads apl now) [])"

context protobuf
begin

lemma served_calls:
  "stub_RequestVote (RaftServiceStub pb (service_channel Answered pb tsend loads apl now)) (PbRVArgs rv) (t, rt) =
     (let (rt', r) = RequestVote rv now rt in (hide_error (rbind r (\<lambda>p. Inr (PbRVReply p))), (t, rt')))"
  "stub_PreVote (RaftServiceStub pb (service_channel Answered pb tsend loads apl now)) (PbPVArgs pv) (t, rt) =
     (let (rt', r) = PreVote pv now rt in (hide_error (rbind r (\<lambda>p. Inr (PbPVReply p))), (t, rt')))"
  "stub_AppendEntries (RaftServiceStub pb (service_channel Answered pb tsend loads apl now)) (PbAEArgs ae) (t, rt) =
     (case AppendEntries loads apl ae now rt of
        Inl e \<Rightarrow> (Inl RpcError, (t, rt))
      | Inr (rt', r) \<Rightarrow> (hide_error (rbind r (\<lambda>p. Inr (PbAEReply p))), (t, rt')))"
  "stub_Propose (RaftServiceStub pb (service_channel ft pb tsend loads apl now)) (PbPRequest command) w =
     (let (r, w') = (case Propose_rpc tsend loads command now w of
          Inl e \<Rightarrow> (Inl RpcError, w) | Inr (w', r) \<Rightarrow> (hide_error (rbind r (\<lambda>p. Inr (PbPReply p))), w'))
      in case ft of Unreachable \<Rightarrow> (Inl RpcError, w) | TimedOut \<Rightarrow> (Inl RpcError, w') | Answered \<Rightarrow> (r, w'))"
  by (auto simp: RaftServiceStub_def fated_channel_def registered_handlers RaftGrpcServicer_def hide_error_def
      answer_of_handler split: fate.split sum.split prod.split)

end

lemma dict_set_same: "dict_get d k = Some v \<Longrightarrow> dict_set k v d = d"
  by (induction d) (auto split: if_splits)

lemma put_turn_same:
  assumes "dict_get (gw_nodes w) n = Some p"
  shows "put_turn n p (gw_calls w, gp_runtime p) w = w"
  using assms by (simp add: put_turn_def put_process_def dict_set_same)


definition demo_network :: "(string, string list) grpc_world" where
  "demo_network = \<lparr>gw_nodes = [(''b'', (GrpcRaftNode ''b'' [(''a'', ''host-a:50051'')] InMemoryStorage [] (\<lambda>k lo hi. lo))\<lparr>gp_serving := True\<rparr>)],
     gw_calls = [], gw_answers = []\<rparr>"


end
