(* ===== verification/Node_Service.thy ===== *)
theory Node_Service
  imports Grpc_Cluster
begin

text \<open>
  The container of a Raft node as it runs (\<open>main\<close> of docker/raft\_node\_entrypoint.py): it starts its node, prints what the node
  reports once a second until a signal asks it to end, and stops the node. The other processes, the node's own driver and its server do
  what they like in between.
\<close>

section \<open>The loop of the entry point\<close>

record node_line =
  nl_node_id :: string
  nl_term :: int
  nl_leader :: bool
  nl_leader_id :: "string option"
  nl_commit_index :: int

text \<open>
  One round. Each of the four readings takes the lock of the runtime by itself, so that the round has room for other actions before
  each of them.
\<close>

record 'c node_round =
  nr_asleep :: "'c grpc_action list"
  nr_before_leader :: "'c grpc_action list"
  nr_before_leader_id :: "'c grpc_action list"
  nr_before_commit :: "'c grpc_action list"

abbreviation runtime_at :: "string \<Rightarrow> ('c, 's) grpc_world \<Rightarrow> ('c, 's) runtime" where
  "runtime_at nid w \<equiv> gp_runtime (the (dict_get (gw_nodes w) nid))"

definition report_round ::
  "('c grpc_action list \<Rightarrow> ('c, 's) grpc_world \<Rightarrow> ('c, 's) grpc_world) \<Rightarrow> string \<Rightarrow> 'c node_round \<Rightarrow> ('c, 's) grpc_world
   \<Rightarrow> node_line \<times> ('c, 's) grpc_world" where
  "report_round run nid r w =
     (let w1 = run (nr_asleep r) w;
          w2 = run (nr_before_leader r) w1;
          w3 = run (nr_before_leader_id r) w2;
          w4 = run (nr_before_commit r) w3
      in (\<lparr>nl_node_id = nid, nl_term = runtime_current_term (runtime_at nid w1), nl_leader = runtime_is_leader (runtime_at nid w2),
           nl_leader_id = runtime_leader_id (runtime_at nid w3), nl_commit_index = runtime_commit_index (runtime_at nid w4)\<rparr>, w4))"

text \<open>The loop makes as many rounds as the list has; what it prints is its result.\<close>

fun report_loop ::
  "('c grpc_action list \<Rightarrow> ('c, 's) grpc_world \<Rightarrow> ('c, 's) grpc_world) \<Rightarrow> string \<Rightarrow> 'c node_round list \<Rightarrow> ('c, 's) grpc_world
   \<Rightarrow> node_line list \<times> ('c, 's) grpc_world" where
  "report_loop run nid [] w = ([], w)"
| "report_loop run nid (r # rounds) w =
     (let (line, w) = report_round run nid r w; (lines, w) = report_loop run nid rounds w in (line # lines, w))"

text \<open>\<open>starting\<close> and \<open>stopping\<close> happen between the two halves of the node's start and of its stop.\<close>

definition run_raft_node ::
  "('c grpc_action list \<Rightarrow> ('c, 's) grpc_world \<Rightarrow> ('c, 's) grpc_world) \<Rightarrow> string \<Rightarrow> rat \<Rightarrow> 'c grpc_action list \<Rightarrow> 'c node_round list
   \<Rightarrow> 'c grpc_action list \<Rightarrow> ('c, 's) grpc_world \<Rightarrow> node_line list \<times> ('c, 's) grpc_world" where
  "run_raft_node run nid now starting rounds stopping w =
     (let w = run (GListen nid # starting @ [GStart nid now]) w;
          (lines, w) = report_loop run nid rounds w
      in (lines, run (GStop nid # stopping @ [GClose nid]) w))"

text \<open>Only the container's own \<open>main\<close> starts and stops its process.\<close>

fun foreign :: "string \<Rightarrow> 'c grpc_action \<Rightarrow> bool" where
  "foreign nid (GListen n) \<longleftrightarrow> n \<noteq> nid"
| "foreign nid (GStart n now) \<longleftrightarrow> n \<noteq> nid"
| "foreign nid (GStop n) \<longleftrightarrow> n \<noteq> nid"
| "foreign nid (GClose n) \<longleftrightarrow> n \<noteq> nid"
| "foreign nid _ \<longleftrightarrow> True"

section \<open>It is an execution of the cluster\<close>

lemma grpc_run_append: "grpc_run dumps loads apl (xs @ ys) w = grpc_run dumps loads apl ys (grpc_run dumps loads apl xs w)"
  by (simp add: grpc_run_def)

definition round_actions :: "'c node_round \<Rightarrow> 'c grpc_action list" where
  "round_actions r = nr_asleep r @ nr_before_leader r @ nr_before_leader_id r @ nr_before_commit r"

lemma report_loop_run:
  "snd (report_loop (grpc_run dumps loads apl) nid rounds w) = grpc_run dumps loads apl (concat (map round_actions rounds)) w"
  by (induction rounds arbitrary: w) (simp_all add: report_round_def round_actions_def grpc_run_append grpc_run_def case_prod_beta Let_def)

section \<open>Terms\<close>

lemma pstep_term: "pstep Qs p p' \<Longrightarrow> trm p n \<le> trm p' n"
  by (induction rule: pstep.induct) auto

lemma pstep_run_term: "(pstep Qs)\<^sup>*\<^sup>* p p' \<Longrightarrow> trm p n \<le> trm p' n"
  by (induction rule: rtranclp_induct) (auto dest: pstep_term [of _ _ _ n] intro: order_trans)

definition grpc_live :: "string list \<Rightarrow> ('c, 's) grpc_world \<Rightarrow> bool" where
  "grpc_live ids w \<longleftrightarrow> distinct ids \<and> (\<exists>N p. grpc_rel ids w N \<and> simulates ids N p)"

lemma grpc_live_cluster:
  assumes "pickling dumps loads" "procs_ok procs"
  shows "grpc_live (map fst procs) (grpc_run dumps loads apl acts (grpc_cluster procs sm0 rnd))"
  by (rule grpc_reachable [OF assms refl]) (use assms(2) in \<open>auto simp: grpc_live_def procs_ok_def\<close>)

context pickling
begin

lemma live_run:
  assumes "grpc_live ids w" "n \<in> set ids"
  shows "grpc_live ids (grpc_run dumps loads apl acts w)"
    "current_term (grpc_node w n) \<le> current_term (grpc_node (grpc_run dumps loads apl acts w) n)"
proof -
  obtain N p where N: "grpc_rel ids w N" "simulates ids N p" and d: "distinct ids" using assms(1) by (auto simp: grpc_live_def)
  have "refines_grpc ids apl UNIV (grpc_run dumps loads apl acts w) N"
    by (rule grpc_run_refines [OF N(1)]) (simp_all add: net_sound_def)
  then obtain N' where N': "(net_step ids apl)\<^sup>*\<^sup>* N N'" "grpc_rel ids (grpc_run dumps loads apl acts w) N'" by (auto simp: refines_grpc_def)
  obtain p' where p': "(pstep (majorities (set ids)))\<^sup>*\<^sup>* p p'" "simulates ids N' p'" using net_run_simulates [OF N'(1) N(2) d] by blast
  show "grpc_live ids (grpc_run dumps loads apl acts w)" using N'(2) p'(2) d by (auto simp: grpc_live_def)
  show "current_term (grpc_node w n) \<le> current_term (grpc_node (grpc_run dumps loads apl acts w) n)"
    using pstep_run_term [OF p'(1), of n] simulatesD(3) [OF N(2) assms(2)] simulatesD(3) [OF p'(2) assms(2)]
      grpc_rel_node [OF N(1) assms(2)] grpc_rel_node [OF N'(2) assms(2)] by simp
qed

lemma report_round_term:
  assumes "grpc_live ids w" "nid \<in> set ids" "report_round (grpc_run dumps loads apl) nid r w = (line, w')"
  shows "grpc_live ids w'" "nl_node_id line = nid" "current_term (grpc_node w nid) \<le> nl_term line" "nl_term line \<le> current_term (grpc_node w' nid)"
proof -
  let ?w = "grpc_run dumps loads apl (nr_asleep r) w" and ?acts = "nr_before_leader r @ nr_before_leader_id r @ nr_before_commit r"
  have line: "nl_node_id line = nid" "nl_term line = current_term (grpc_node ?w nid)" "w' = grpc_run dumps loads apl ?acts ?w"
    using assms(3) by (auto simp: report_round_def Let_def grpc_run_append)
  note before = live_run [OF assms(1,2), of apl "nr_asleep r"]
  note after = live_run [OF before(1) assms(2), of apl ?acts]
  show "grpc_live ids w'" "nl_node_id line = nid" "current_term (grpc_node w nid) \<le> nl_term line" "nl_term line \<le> current_term (grpc_node w' nid)"
    using line before after by simp_all
qed

lemma report_loop_terms:
  assumes "grpc_live ids w" "nid \<in> set ids" "report_loop (grpc_run dumps loads apl) nid rounds w = (lines, w')"
  shows "length lines = length rounds \<and> sorted (map nl_term lines) \<and>
    list_all (\<lambda>l. nl_node_id l = nid \<and> current_term (grpc_node w nid) \<le> nl_term l) lines"
  using assms
proof (induction rounds arbitrary: w lines)
  case (Cons r rounds)
  obtain line w1 where r: "report_round (grpc_run dumps loads apl) nid r w = (line, w1)" by force
  obtain ls where ls: "report_loop (grpc_run dumps loads apl) nid rounds w1 = (ls, w')" "lines = line # ls"
    using Cons.prems(3) r by (auto split: prod.splits)
  note line = report_round_term [OF Cons.prems(1,2) r]
  show ?case using Cons.IH [OF line(1) Cons.prems(2) ls(1)] line ls(2) by (auto simp: list_all_iff intro: order_trans)
qed simp

end

section \<open>The end of a process\<close>

definition idle :: "string \<Rightarrow> ('c, 's) grpc_world \<Rightarrow> bool" where
  "idle n w \<longleftrightarrow> (\<exists>p. dict_get (gw_nodes w) n = Some p \<and> \<not> rt_running (gp_runtime p))"

lemma idle_put: "idle n w \<Longrightarrow> (m = n \<Longrightarrow> \<not> rt_running (gp_runtime q)) \<Longrightarrow> idle n (put_process m q w)"
  by (cases "m = n") (auto simp: idle_def put_process_def)

lemma idle_queues [simp]:
  "idle n (w\<lparr>gw_calls := calls\<rparr>) \<longleftrightarrow> idle n w" "idle n (w\<lparr>gw_answers := answers\<rparr>) \<longleftrightarrow> idle n w"
  by (simp_all add: idle_def)

lemma idle_with:
  assumes "idle n w" "\<And>q. dict_get (gw_nodes w) m = Some q \<Longrightarrow> (m = n \<longrightarrow> \<not> rt_running (gp_runtime q)) \<Longrightarrow> idle n (f q)"
  shows "idle n (with_process m w f)"
  using assms by (cases "m = n") (auto simp: with_process_def idle_def split: option.split)

lemma runtime_keeps_running:
  "make_call dumps loads apl message now rt = Inr (rt', r) \<Longrightarrow> rt_running rt' = rt_running rt"
  "inject_reply apl a now tr (calls, rt) = Inr crt \<Longrightarrow> rt_running (snd crt) = rt_running rt"
  "Propose_rpc tsend loads command now (t, rt) = Inr (trt, q) \<Longrightarrow> rt_running (snd trt) = rt_running rt"
  by (auto simp: make_call_def RequestVote_def PreVote_def AppendEntries_def runtime_handle_request_vote_def runtime_handle_append_entries_def
      inject_reply_def runtime_receive_def Propose_rpc_def runtime_propose_def rbind_Inr_conv Let_def
      split: message.splits prod.splits option.splits)

lemma idle_serve: "idle n w \<Longrightarrow> idle n (serve_call dumps loads apl now c w)"
  unfolding serve_call_def
  by (rule idle_with) (auto simp: runtime_keeps_running(1) intro!: idle_put split: sum.split)

lemma idle_place: "idle n w \<Longrightarrow> idle n (place_call dumps loads apl now c w)"
  unfolding place_call_def
  by (rule idle_with) (auto intro!: idle_serve idle_put split: sum.split)

lemma stays_idle:
  assumes "idle n w" "foreign n a"
  shows "idle n (grpc_act dumps loads apl a w)"
proof (cases a)
  case (GServe i now)
  then show ?thesis using assms(1) by (simp add: idle_place)
next
  case (GInject i now)
  let ?w = "w\<lparr>gw_answers := remove_nth i (gw_answers w)\<rparr>" and ?a = "gw_answers w ! i"
  have w: "idle n ?w" using assms by simp
  have turn: "idle n (put_turn (answer_to ?a) q crt ?w)"
    if "inject_reply apl ?a now (gp_transport q) (gw_calls ?w, gp_runtime q) = Inr crt" "answer_to ?a = n \<longrightarrow> \<not> rt_running (gp_runtime q)" for q crt
    using runtime_keeps_running(2) [OF that(1)] that(2) w
    by (auto simp: put_turn_def intro!: idle_put)
  show ?thesis
    using assms(1) w turn unfolding GInject grpc_act.simps Let_def by (auto intro!: idle_with split: sum.split)
next
  case (GPropose m command now)
  have turn: "idle n (put_turn m q crt w)"
    if "Propose_rpc grpc_send loads (dumps command) now (gw_calls w, gp_runtime q) = Inr (crt, r)" "m = n \<longrightarrow> \<not> rt_running (gp_runtime q)" for q crt r
    using runtime_keeps_running(3) [OF that(1)] that(2) assms(1) by (auto simp: put_turn_def intro!: idle_put)
  show ?thesis
    using assms(1) turn unfolding GPropose grpc_act.simps by (auto intro!: idle_with split: sum.split prod.split)
qed (use assms in \<open>auto intro!: idle_with idle_put simp: put_turn_def start_server_def start_driver_def stop_driver_def stop_server_def
      runtime_stop_def driver_turn runtime_tick_def split: sum.split prod.split\<close>)

lemma run_stays_idle:
  assumes "idle n w" "list_all (foreign n) acts"
  shows "idle n (grpc_run dumps loads apl acts w)"
  using assms by (induction acts arbitrary: w) (auto simp: grpc_run_def intro!: stays_idle)

lemma closed_run_stays: "unchanged n p w \<Longrightarrow> unchanged n p (grpc_run dumps loads apl acts w)"
  by (induction acts arbitrary: w) (auto simp: grpc_run_def intro!: closed_process_stays)

lemma shut_down:
  assumes "dict_get (gw_nodes w) n = Some p" "list_all (foreign n) stopping"
  obtains q where "unchanged n q (grpc_run dumps loads apl (GStop n # stopping @ [GClose n]) w)"
proof -
  have "idle n (grpc_act dumps loads apl (GStop n) w)"
    using assms(1) by (simp add: with_process_def idle_def put_process_def stop_driver_def runtime_stop_def)
  from run_stays_idle [OF this assms(2), of dumps loads apl]
  obtain q where "dict_get (gw_nodes (grpc_run dumps loads apl (GStop n # stopping) w)) n = Some q" "\<not> rt_running (gp_runtime q)"
    by (auto simp: idle_def grpc_run_def)
  then have "unchanged n q (grpc_act dumps loads apl (GClose n) (grpc_run dumps loads apl (GStop n # stopping) w))"
    by (simp add: with_process_def unchanged_def put_process_def stop_server_def closed_down_def close_transport_def)
  then show thesis using that by (simp add: grpc_run_def)
qed

section \<open>Properties\<close>


text \<open>The first of the three demonstration processes, which is elected while its main sleeps.\<close>

definition demo_node_rounds :: "string node_round list" where
  "demo_node_rounds =
     [\<lparr>nr_asleep = [], nr_before_leader = [], nr_before_leader_id = [], nr_before_commit = []\<rparr>,
      \<lparr>nr_asleep = [GTick ''a'' 1, GServe 0 1, GInject 0 1, GServe 1 1], nr_before_leader = [GInject 0 1], nr_before_leader_id = [], nr_before_commit = []\<rparr>]"

definition demo_service :: "node_line list \<times> (string, (string, string) recording_machine) grpc_world" where
  "demo_service = run_raft_node (grpc_run Pickled pickle_loads (record_step id)) ''a'' 0 [] demo_node_rounds [GTick ''a'' 2]
     (grpc_run Pickled pickle_loads (record_step id) [GListen ''b'', GStart ''b'' 0, GListen ''c'', GStart ''c'' 0]
       (grpc_cluster demo_procs RecordingStateMachine demo_random))"

lemma demo_service_run:
  "run_raft_node (grpc_run Pickled pickle_loads (record_step id)) ''a'' 0 [] demo_node_rounds [GTick ''a'' 2]
     (grpc_run Pickled pickle_loads (record_step id) [GListen ''b'', GStart ''b'' 0, GListen ''c'', GStart ''c'' 0]
       (grpc_cluster demo_procs RecordingStateMachine demo_random)) = (fst demo_service, snd demo_service)"
  unfolding demo_service_def by (rule surjective_pairing)


end
