(* ===== verification/Streaming.thy ===== *)
theory Streaming
  imports Prelude
begin

text \<open>
  The stream of streaming/: the partitioner, the partitioned log with the offsets that consumer
  groups commit to it, the producer and the plain consumer. Records carry an opaque value. \<open>md5\<close> is
  the digest of the UTF-8 encoding of a key, as a list of bytes.
\<close>

section \<open>Partitioner (streaming/partitioner.py)\<close>

definition from_bytes_big :: "nat list \<Rightarrow> nat" where
  "from_bytes_big bs = foldl (\<lambda>acc b. acc * 256 + b) 0 bs"

definition key_to_partition :: "(string \<Rightarrow> nat list) \<Rightarrow> string \<Rightarrow> int \<Rightarrow> int result" where
  "key_to_partition md5 key num_partitions =
     (if num_partitions \<le> 0 then Inl ValueError
      else Inr (int (from_bytes_big (take 4 (md5 key))) mod num_partitions))"

section \<open>The log (streaming/broker.py)\<close>

record 'v log_record =
  lr_partition :: int
  lr_offset :: int
  lr_key :: string
  lr_value :: 'v
  lr_produced_at :: int

record 'v partitioned_log =
  pl_topic :: string
  pl_partitions :: "'v log_record list list"
  pl_committed :: "(string \<times> int, int) dict"

text \<open>Python's \<open>xs[i:j]\<close>: a negative bound counts from the end.\<close>

definition py_bound :: "nat \<Rightarrow> int \<Rightarrow> nat" where
  "py_bound n i = (if i < 0 then nat (max 0 (int n + i)) else min n (nat i))"

definition py_slice :: "'a list \<Rightarrow> int \<Rightarrow> int \<Rightarrow> 'a list" where
  "py_slice xs i j = drop (py_bound (length xs) i) (take (py_bound (length xs) j) xs)"

definition PartitionedLog :: "string \<Rightarrow> int \<Rightarrow> 'v partitioned_log result" where
  "PartitionedLog topic n =
     (if n \<le> 0 then Inl ValueError
      else Inr \<lparr>pl_topic = topic, pl_partitions = replicate (nat n) [], pl_committed = []\<rparr>)"

definition num_partitions :: "'v partitioned_log \<Rightarrow> int" where
  "num_partitions l = int (length (pl_partitions l))"

definition check_partition :: "int \<Rightarrow> 'v partitioned_log \<Rightarrow> unit result" where
  "check_partition p l = (if \<not> (0 \<le> p \<and> p < num_partitions l) then Inl ValueError else Inr ())"

definition append_record ::
  "int \<Rightarrow> string \<Rightarrow> 'v \<Rightarrow> int \<Rightarrow> 'v partitioned_log \<Rightarrow> ('v log_record \<times> 'v partitioned_log) result" where
  "append_record p key val now l =
     rbind (check_partition p l) (\<lambda>_.
       let records = pl_partitions l ! nat p;
           record = \<lparr>lr_partition = p, lr_offset = int (length records), lr_key = key, lr_value = val,
                     lr_produced_at = now\<rparr>
       in Inr (record, l\<lparr>pl_partitions := (pl_partitions l)[nat p := records @ [record]]\<rparr>))"

definition read_records :: "int \<Rightarrow> int \<Rightarrow> int \<Rightarrow> 'v partitioned_log \<Rightarrow> 'v log_record list result" where
  "read_records p from_offset max_records l =
     rbind (check_partition p l) (\<lambda>_.
       if from_offset < 0 then Inl ValueError
       else Inr (py_slice (pl_partitions l ! nat p) from_offset (from_offset + max_records)))"

definition latest_offset :: "int \<Rightarrow> 'v partitioned_log \<Rightarrow> int result" where
  "latest_offset p l = rbind (check_partition p l) (\<lambda>_. Inr (int (length (pl_partitions l ! nat p))))"

definition commit_offset :: "string \<Rightarrow> int \<Rightarrow> int \<Rightarrow> 'v partitioned_log \<Rightarrow> 'v partitioned_log result" where
  "commit_offset group_id p offset l =
     rbind (check_partition p l) (\<lambda>_.
       let key = (group_id, p)
       in Inr (l\<lparr>pl_committed := dict_set key (max (dict_get_default (pl_committed l) key 0) offset) (pl_committed l)\<rparr>))"

definition committed_offset :: "string \<Rightarrow> int \<Rightarrow> 'v partitioned_log \<Rightarrow> int result" where
  "committed_offset group_id p l =
     rbind (check_partition p l) (\<lambda>_. Inr (dict_get_default (pl_committed l) (group_id, p) 0))"

section \<open>Producer and consumer (streaming/producer.py, streaming/consumer.py)\<close>

definition produce ::
  "(string \<Rightarrow> nat list) \<Rightarrow> string \<Rightarrow> 'v \<Rightarrow> int \<Rightarrow> 'v partitioned_log \<Rightarrow> ('v log_record \<times> 'v partitioned_log) result" where
  "produce md5 key val now l =
     rbind (key_to_partition md5 key (num_partitions l)) (\<lambda>p. append_record p key val now l)"

record consumer =
  co_partitions :: "int list"
  co_offsets :: "(int, int) dict"

definition Consumer :: "'v partitioned_log \<Rightarrow> int list option \<Rightarrow> consumer" where
  "Consumer l partitions =
     (let ps = (case partitions of Some ps \<Rightarrow> ps | None \<Rightarrow> [0..num_partitions l - 1])
      in \<lparr>co_partitions = ps, co_offsets = fold (\<lambda>p. dict_set p 0) ps []\<rparr>)"

fun poll_partitions :: "'v partitioned_log \<Rightarrow> (int, int) dict \<Rightarrow> int \<Rightarrow> int list \<Rightarrow> 'v log_record list result" where
  "poll_partitions l offsets m [] = Inr []"
| "poll_partitions l offsets m (p # ps) =
     (case dict_get offsets p of
        None \<Rightarrow> Inl KeyError
      | Some off \<Rightarrow>
          rbind (read_records p off m l) (\<lambda>records.
            rbind (poll_partitions l offsets m ps) (\<lambda>rest. Inr (records @ rest))))"

definition consumer_poll :: "'v partitioned_log \<Rightarrow> int \<Rightarrow> consumer \<Rightarrow> 'v log_record list result" where
  "consumer_poll l max_records_per_partition c =
     poll_partitions l (co_offsets c) max_records_per_partition (co_partitions c)"

definition consumer_commit :: "'v log_record \<Rightarrow> consumer \<Rightarrow> consumer result" where
  "consumer_commit record c =
     (case dict_get (co_offsets c) (lr_partition record) of
        None \<Rightarrow> Inl KeyError
      | Some off \<Rightarrow> Inr (c\<lparr>co_offsets := dict_set (lr_partition record) (max off (lr_offset record + 1)) (co_offsets c)\<rparr>))"

definition consumer_offset :: "int \<Rightarrow> consumer \<Rightarrow> int result" where
  "consumer_offset p c = (case dict_get (co_offsets c) p of None \<Rightarrow> Inl KeyError | Some off \<Rightarrow> Inr off)"

section \<open>Well-formed logs\<close>

text \<open>Every record sits at the partition and offset it names.\<close>

definition log_ok :: "'v partitioned_log \<Rightarrow> bool" where
  "log_ok l \<longleftrightarrow> 0 < num_partitions l \<and>
     (\<forall>p < length (pl_partitions l). \<forall>i < length (pl_partitions l ! p).
        lr_partition (pl_partitions l ! p ! i) = int p \<and> lr_offset (pl_partitions l ! p ! i) = int i)"

lemma from_bytes_big_bound:
  assumes "\<And>b. b \<in> set bs \<Longrightarrow> b < 256"
  shows "from_bytes_big bs < 256 ^ length bs"
  using assms
proof (induction bs rule: rev_induct)
  case (snoc b bs)
  then have "from_bytes_big bs * 256 + b < 256 ^ length bs * 256" by force
  then show ?case by (simp add: from_bytes_big_def mult.commute)
qed (simp add: from_bytes_big_def)

lemma key_to_partition_range:
  "0 < n \<Longrightarrow> \<exists>p. key_to_partition md5 key n = Inr p \<and> 0 \<le> p \<and> p < n"
  by (simp add: key_to_partition_def)

lemma PartitionedLog_ok: "PartitionedLog topic n = Inr l \<Longrightarrow> log_ok l \<and> num_partitions l = n"
  by (auto simp: PartitionedLog_def log_ok_def num_partitions_def split: if_splits)

lemma check_partition_ok [simp]:
  "check_partition p l = Inr u \<longleftrightarrow> 0 \<le> p \<and> p < num_partitions l"
  by (simp add: check_partition_def)

lemma append_record_ok:
  assumes "log_ok l" "0 \<le> p" "p < num_partitions l"
  shows "\<exists>r l'. append_record p key v now l = Inr (r, l') \<and> log_ok l' \<and> num_partitions l' = num_partitions l \<and>
    lr_key r = key \<and> lr_value r = v \<and> lr_partition r = p \<and> pl_committed l' = pl_committed l \<and>
    (\<forall>q. 0 \<le> q \<longrightarrow> q < num_partitions l \<longrightarrow>
       pl_partitions l' ! nat q = (if q = p then pl_partitions l ! nat p @ [r] else pl_partitions l ! nat q))"
  using assms
  by (auto simp: append_record_def check_partition_def Let_def log_ok_def num_partitions_def nth_list_update nth_append
      nat_less_iff nat_eq_iff)

lemma py_slice_from:
  assumes "0 \<le> i" "0 \<le> m"
  shows "py_slice xs i (i + m) = take (nat m) (drop (nat i) xs)"
proof -
  have "take (py_bound (length xs) (i + m)) xs = take (nat i + nat m) xs"
    using assms by (simp add: py_bound_def min_def nat_add_distrib)
  moreover have "py_bound (length xs) i = min (length xs) (nat i)"
    using assms by (simp add: py_bound_def)
  moreover have "drop (min (length xs) (nat i)) (take (nat i + nat m) xs) = drop (nat i) (take (nat i + nat m) xs)"
    by (cases "nat i \<le> length xs") simp_all
  ultimately show ?thesis by (simp add: py_slice_def drop_take)
qed

text \<open>Reading returns a stretch of the partition, in order, from the offset asked for.\<close>

lemma read_records_ok:
  assumes "0 \<le> p" "p < num_partitions l" "0 \<le> off" "0 \<le> m"
  shows "read_records p off m l = Inr (take (nat m) (drop (nat off) (pl_partitions l ! nat p)))"
  using assms by (simp add: read_records_def check_partition_def py_slice_from)

lemma commit_offset_ok:
  assumes "0 \<le> p" "p < num_partitions l" "commit_offset g p off l = Inr l'"
  shows "committed_offset g p l' = Inr (max (dict_get_default (pl_committed l) (g, p) 0) off)"
    and "(h, q) \<noteq> (g, p) \<Longrightarrow> committed_offset h q l' = committed_offset h q l"
    and "pl_partitions l' = pl_partitions l"
  using assms
  by (auto simp: commit_offset_def committed_offset_def check_partition_def num_partitions_def Let_def dict_get_default_def)

text \<open>Records of one key all go to one partition, in the order in which they were produced.\<close>

lemma produce_key_order:
  assumes "log_ok l" "produce md5 key v now l = Inr (r, l')"
  shows "key_to_partition md5 key (num_partitions l) = Inr (lr_partition r)" "log_ok l'"
    "num_partitions l' = num_partitions l" "lr_value r = v" "lr_key r = key"
    "pl_partitions l' ! nat (lr_partition r) = pl_partitions l ! nat (lr_partition r) @ [r]"
    "\<And>q. 0 \<le> q \<Longrightarrow> q < num_partitions l \<Longrightarrow> q \<noteq> lr_partition r \<Longrightarrow> pl_partitions l' ! nat q = pl_partitions l ! nat q"
proof -
  obtain p where p: "key_to_partition md5 key (num_partitions l) = Inr p" "0 \<le> p" "p < num_partitions l"
    using key_to_partition_range [of "num_partitions l" md5 key] assms(1) by (auto simp: log_ok_def)
  note a = append_record_ok [OF assms(1) p(2,3), of key v now]
  show "key_to_partition md5 key (num_partitions l) = Inr (lr_partition r)" "log_ok l'"
    "num_partitions l' = num_partitions l" "lr_value r = v" "lr_key r = key"
    "pl_partitions l' ! nat (lr_partition r) = pl_partitions l ! nat (lr_partition r) @ [r]"
    "\<And>q. 0 \<le> q \<Longrightarrow> q < num_partitions l \<Longrightarrow> q \<noteq> lr_partition r \<Longrightarrow> pl_partitions l' ! nat q = pl_partitions l ! nat q"
    using a assms(2) p by (auto simp: produce_def)
qed

section \<open>Properties\<close>

text \<open>A sequence of productions, each with its key, its value and the time.\<close>

fun produce_all ::
  "(string \<Rightarrow> nat list) \<Rightarrow> (string \<times> 'v \<times> int) list \<Rightarrow> 'v partitioned_log \<Rightarrow> 'v partitioned_log result" where
  "produce_all md5 [] l = Inr l"
| "produce_all md5 ((key, val, now) # rest) l = rbind (produce md5 key val now l) (\<lambda>(r, l). produce_all md5 rest l)"

definition of_key :: "string \<Rightarrow> 'v log_record list \<Rightarrow> 'v list" where
  "of_key key rs = map lr_value (filter (\<lambda>r. lr_key r = key) rs)"

lemma of_key_append [simp]: "of_key key (rs @ [r]) = of_key key rs @ (if lr_key r = key then [lr_value r] else [])"
  by (simp add: of_key_def)

lemma produce_ends:
  assumes "log_ok l"
  obtains r l' where "produce md5 key v now l = Inr (r, l')"
proof -
  obtain p where "key_to_partition md5 key (num_partitions l) = Inr p" "0 \<le> p" "p < num_partitions l"
    using key_to_partition_range [of "num_partitions l" md5 key] assms by (auto simp: log_ok_def)
  then show thesis using append_record_ok [OF assms, of p key v now] that by (auto simp: produce_def)
qed

lemma produce_of_key:
  assumes "log_ok l" "produce md5 key v now l = Inr (r, l')" "0 \<le> q" "q < num_partitions l"
  shows "of_key k (pl_partitions l' ! nat q) = of_key k (pl_partitions l ! nat q) @
    (if k = key \<and> key_to_partition md5 k (num_partitions l) = Inr q then [v] else [])"
  using produce_key_order [OF assms(1,2)] assms(3,4) by (cases "q = lr_partition r") auto

lemma produce_all_of_key:
  assumes "log_ok l"
  shows "\<exists>l'. produce_all md5 items l = Inr l' \<and> log_ok l' \<and> num_partitions l' = num_partitions l \<and>
    (\<forall>k q. 0 \<le> q \<longrightarrow> q < num_partitions l \<longrightarrow> of_key k (pl_partitions l' ! nat q) = of_key k (pl_partitions l ! nat q) @
      (if key_to_partition md5 k (num_partitions l) = Inr q then map (fst \<circ> snd) (filter (\<lambda>i. fst i = k) items) else []))"
  using assms
proof (induction items arbitrary: l)
  case (Cons i items)
  obtain key v now where i: "i = (key, v, now)" by (cases i)
  obtain r l1 where p: "produce md5 key v now l = Inr (r, l1)" using produce_ends [OF Cons.prems] by blast
  note ord = produce_key_order [OF Cons.prems p]
  show ?case using Cons.IH [OF ord(2)] p ord(3) by (auto simp: i produce_of_key [OF Cons.prems p])
qed simp

text \<open>
  C30: Whatever is produced to a new log, every key has one partition, which holds the values of the key
  in the order in which they were produced; no other partition has a record of the key.
\<close>

theorem key_ordering:
  assumes "PartitionedLog topic n = Inr l"
  shows "\<exists>l'. produce_all md5 items l = Inr l' \<and>
    (\<forall>k. \<exists>p. key_to_partition md5 k n = Inr p \<and> 0 \<le> p \<and> p < n \<and>
      of_key k (pl_partitions l' ! nat p) = map (fst \<circ> snd) (filter (\<lambda>i. fst i = k) items) \<and>
      (\<forall>q. \<not> (0 \<le> q \<and> q < n \<and> q \<noteq> p \<and> of_key k (pl_partitions l' ! nat q) \<noteq> [])))"
proof -
  have l: "log_ok l" "num_partitions l = n" "0 < n" using PartitionedLog_ok [OF assms] by (auto simp: log_ok_def)
  have empty: "of_key k (pl_partitions l ! nat q) = []" if "0 \<le> q" "q < n" for k q
    using assms that by (auto simp: PartitionedLog_def of_key_def split: if_splits)
  obtain l' where l': "produce_all md5 items l = Inr l'"
    "\<And>k q. 0 \<le> q \<Longrightarrow> q < n \<Longrightarrow> of_key k (pl_partitions l' ! nat q) =
      (if key_to_partition md5 k n = Inr q then map (fst \<circ> snd) (filter (\<lambda>i. fst i = k) items) else [])"
    using produce_all_of_key [OF l(1), of md5 items] l(2) empty by auto
  show ?thesis
  proof (intro exI [of _ l'] conjI allI)
    fix k
    obtain p where p: "key_to_partition md5 k n = Inr p" "0 \<le> p" "p < n" using key_to_partition_range [OF l(3)] by blast
    then show "\<exists>p. key_to_partition md5 k n = Inr p \<and> 0 \<le> p \<and> p < n \<and>
      of_key k (pl_partitions l' ! nat p) = map (fst \<circ> snd) (filter (\<lambda>i. fst i = k) items) \<and>
      (\<forall>q. \<not> (0 \<le> q \<and> q < n \<and> q \<noteq> p \<and> of_key k (pl_partitions l' ! nat q) \<noteq> []))"
      using l'(2) by (intro exI [of _ p]) auto
  qed (rule l'(1))
qed

definition demo_md5 :: "string \<Rightarrow> nat list" where
  "demo_md5 key = map of_char (take 4 (key @ ''....''))"

definition demo_log :: "string partitioned_log" where
  "demo_log = \<lparr>pl_topic = ''transactions'', pl_partitions = [[], []], pl_committed = []\<rparr>"

definition demo_items :: "(string \<times> string \<times> int) list" where
  "demo_items = [(''acct-1'', ''x'', 0), (''acct-2'', ''y'', 1), (''acct-1'', ''z'', 2)]"

theorem key_ordering_witness:
  "\<exists>l'. produce_all demo_md5 demo_items demo_log = Inr l' \<and>
    (\<forall>k. \<exists>p. key_to_partition demo_md5 k 2 = Inr p \<and> 0 \<le> p \<and> p < 2 \<and>
      of_key k (pl_partitions l' ! nat p) = map (fst \<circ> snd) (filter (\<lambda>i. fst i = k) demo_items) \<and>
      (\<forall>q. \<not> (0 \<le> q \<and> q < 2 \<and> q \<noteq> p \<and> of_key k (pl_partitions l' ! nat q) \<noteq> [])))"
  by (rule key_ordering [of "''transactions''"]) (simp add: PartitionedLog_def demo_log_def numeral_2_eq_2)

text \<open>
  A record that was appended is read back at its offset, and reading returns the partition's
  records in order from the offset asked for.
\<close>

lemma append_then_read:
  assumes "log_ok l" "append_record p key v now l = Inr (r, l')" "0 < m"
  shows "read_records p (lr_offset r) m l' = Inr [r] \<and>
    (\<forall>q off. \<not> (read_records q off m l' \<noteq> read_records q off m l \<and> q \<noteq> p)) \<and>
    read_records p 0 (lr_offset r + 1) l' = Inr (pl_partitions l ! nat p @ [r])"
proof -
  have p: "0 \<le> p" "p < num_partitions l" using assms(2) by (auto simp: append_record_def check_partition_def split: if_splits)
  have r: "lr_offset r = int (length (pl_partitions l ! nat p))"
    using assms(2) p by (auto simp: append_record_def check_partition_def Let_def)
  have l': "pl_partitions l' = (pl_partitions l)[nat p := pl_partitions l ! nat p @ [r]]"
    using assms(2) p by (auto simp: append_record_def check_partition_def Let_def)
  have n: "num_partitions l' = num_partitions l" "nat p < length (pl_partitions l)"
    using p by (auto simp: num_partitions_def l')
  have "read_records q off m l' = read_records q off m l" if "q \<noteq> p" for q off
    using that p(1) by (auto simp: read_records_def check_partition_def num_partitions_def l' nth_list_update nat_eq_iff)
  moreover have "read_records p (lr_offset r) m l' = Inr [r]"
    using assms(3) p n by (simp add: read_records_ok r l')
  moreover have "read_records p 0 (lr_offset r + 1) l' = Inr (pl_partitions l ! nat p @ [r])"
    using p n by (simp add: read_records_ok r l' nat_add_distrib)
  ultimately show ?thesis by blast
qed

text \<open>
  A committed offset never goes back: a commit leaves the larger of the two offsets, and the
  offsets of other groups and partitions and the records as they are.
\<close>

lemma commit_never_goes_back:
  assumes "commit_offset g p off l = Inr l'" "committed_offset g p l = Inr old"
  shows "committed_offset g p l' = Inr (max old off) \<and> pl_partitions l' = pl_partitions l \<and>
    (\<forall>h q. \<not> ((h, q) \<noteq> (g, p) \<and> committed_offset h q l' \<noteq> committed_offset h q l))"
proof -
  have p: "0 \<le> p" "p < num_partitions l" "old = dict_get_default (pl_committed l) (g, p) 0"
    using assms(2) by (auto simp: committed_offset_def check_partition_def split: if_splits)
  show ?thesis using commit_offset_ok [OF p(1,2) assms(1)] p(3) by auto
qed

end
