(* ===== verification/Consumer_Group.thy ===== *)
theory Consumer_Group
  imports Streaming
begin

text \<open>
  Membership and partition assignment of streaming/group.py, and the group-aware reader of
  streaming/consumer.py. The clock reading of each call is an argument. Strings are ordered
  lexicographically, as \<open>sorted\<close> orders them.
\<close>

section \<open>The group\<close>

record member_state =
  ms_member_id :: string
  ms_last_heartbeat :: rat

record consumer_group =
  cg_group_id :: string
  cg_num_partitions :: int
  cg_session_timeout :: rat
  cg_members :: "(string, member_state) dict"
  cg_assignment :: "(string, int list) dict"

definition ConsumerGroup :: "string \<Rightarrow> int \<Rightarrow> rat \<Rightarrow> consumer_group result" where
  "ConsumerGroup gid n timeout =
     (if n \<le> 0 then Inl ValueError
      else Inr \<lparr>cg_group_id = gid, cg_num_partitions = n, cg_session_timeout = timeout,
                cg_members = [], cg_assignment = []\<rparr>)"

definition owner_of :: "string list \<Rightarrow> int \<Rightarrow> string" where
  "owner_of members p = members ! nat (p mod int (length members))"

definition assign_partitions :: "string list \<Rightarrow> int list \<Rightarrow> (string, int list) dict \<Rightarrow> (string, int list) dict" where
  "assign_partitions members ps assignment =
     (if members = [] then assignment
      else fold (\<lambda>p a. let owner = owner_of members p
                       in dict_set owner (dict_get_default a owner [] @ [p]) a) ps assignment)"

definition rebalance :: "consumer_group \<Rightarrow> consumer_group" where
  "rebalance g =
     (let members = sort (dict_keys (cg_members g))
      in g\<lparr>cg_assignment := assign_partitions members [0..cg_num_partitions g - 1] (map (\<lambda>m. (m, [])) members)\<rparr>)"

definition join :: "string \<Rightarrow> rat \<Rightarrow> consumer_group \<Rightarrow> (int list \<times> consumer_group) result" where
  "join m now g =
     (let g = rebalance (g\<lparr>cg_members := dict_set m \<lparr>ms_member_id = m, ms_last_heartbeat = now\<rparr> (cg_members g)\<rparr>)
      in case dict_get (cg_assignment g) m of None \<Rightarrow> Inl KeyError | Some ps \<Rightarrow> Inr (ps, g))"

definition heartbeat :: "string \<Rightarrow> rat \<Rightarrow> consumer_group \<Rightarrow> consumer_group result" where
  "heartbeat m now g =
     (case dict_get (cg_members g) m of
        None \<Rightarrow> Inl ValueError
      | Some ms \<Rightarrow> Inr (g\<lparr>cg_members := dict_set m (ms\<lparr>ms_last_heartbeat := now\<rparr>) (cg_members g)\<rparr>))"

definition leave :: "string \<Rightarrow> consumer_group \<Rightarrow> consumer_group" where
  "leave m g =
     (case dict_get (cg_members g) m of
        None \<Rightarrow> g
      | Some _ \<Rightarrow> rebalance (g\<lparr>cg_members := dict_del m (cg_members g)\<rparr>))"

definition assignment_for :: "string \<Rightarrow> consumer_group \<Rightarrow> int list" where
  "assignment_for m g = dict_get_default (cg_assignment g) m []"

definition group_members :: "consumer_group \<Rightarrow> string list" where
  "group_members g = sort (dict_keys (cg_members g))"

definition check_expired_members :: "rat \<Rightarrow> consumer_group \<Rightarrow> string list \<times> consumer_group" where
  "check_expired_members now g =
     (let expired = map fst (filter (\<lambda>(m, ms). now - ms_last_heartbeat ms > cg_session_timeout g) (cg_members g));
          g' = g\<lparr>cg_members := fold dict_del expired (cg_members g)\<rparr>
      in (expired, if expired \<noteq> [] then rebalance g' else g'))"

section \<open>The group-aware reader\<close>

text \<open>A reader is known by its member's name; it hands membership on to the group.\<close>

definition consumer_join :: "string \<Rightarrow> rat \<Rightarrow> consumer_group \<Rightarrow> (int list \<times> consumer_group) result" where
  [simp]: "consumer_join member now g = join member now g"

definition consumer_heartbeat :: "string \<Rightarrow> rat \<Rightarrow> consumer_group \<Rightarrow> consumer_group result" where
  [simp]: "consumer_heartbeat member now g = heartbeat member now g"

definition assigned_partitions :: "string \<Rightarrow> consumer_group \<Rightarrow> int list" where
  [simp]: "assigned_partitions member g = assignment_for member g"

definition poll_partition ::
  "'v partitioned_log \<Rightarrow> consumer_group \<Rightarrow> int \<Rightarrow> int \<Rightarrow> 'v log_record list result" where
  "poll_partition l g p max_records =
     rbind (committed_offset (cg_group_id g) p l) (\<lambda>off. read_records p off max_records l)"

definition group_commit :: "consumer_group \<Rightarrow> 'v log_record \<Rightarrow> 'v partitioned_log \<Rightarrow> 'v partitioned_log result" where
  "group_commit g record l = commit_offset (cg_group_id g) (lr_partition record) (lr_offset record + 1) l"

section \<open>Every partition has exactly one owner\<close>

lemma assign_partitions_get:
  assumes "members \<noteq> []" "set members \<subseteq> set (dict_keys a)" "m \<in> set members"
  shows "dict_get (assign_partitions members ps a) m =
    Some (dict_get_default a m [] @ filter (\<lambda>p. owner_of members p = m) ps)"
  using assms(2)
proof (induction ps arbitrary: a)
  case Nil
  then show ?case
    using assms dict_get_None_iff [of a m] by (auto simp: assign_partitions_def dict_get_default_def split: option.splits)
next
  case (Cons p ps)
  let ?o = "owner_of members p"
  let ?a = "dict_set ?o (dict_get_default a ?o [] @ [p]) a"
  have "assign_partitions members (p # ps) a = assign_partitions members ps ?a"
    using assms(1) by (simp add: assign_partitions_def Let_def)
  moreover have "set members \<subseteq> set (dict_keys ?a)" using Cons.prems by (auto simp: dom_update)
  ultimately show ?case using Cons.IH [of ?a] by (simp add: dict_get_default_def)
qed

lemma assign_partitions_keys:
  assumes "set members \<subseteq> set (dict_keys a)"
  shows "dict_keys (assign_partitions members ps a) = dict_keys a"
proof (cases "members = []")
  case False
  have own: "owner_of members p \<in> set members" for p
    using False by (auto simp: owner_of_def nat_less_iff)
  show ?thesis
    using assms
  proof (induction ps arbitrary: a)
    case (Cons p ps)
    let ?a = "dict_set (owner_of members p) (dict_get_default a (owner_of members p) [] @ [p]) a"
    have "owner_of members p \<in> set (dict_keys a)" using own [of p] Cons.prems by blast
    then have keys: "dict_keys ?a = dict_keys a" by (simp only: dict_keys_set if_True)
    have "assign_partitions members (p # ps) a = assign_partitions members ps ?a"
      using False by (simp add: assign_partitions_def Let_def)
    then show ?case using Cons.IH [of ?a] Cons.prems keys by simp
  qed (simp add: assign_partitions_def)
qed (simp add: assign_partitions_def)

text \<open>The assignment is the round robin over the sorted members.\<close>

definition balanced :: "consumer_group \<Rightarrow> bool" where
  "balanced g \<longleftrightarrow> distinct (dict_keys (cg_members g)) \<and> 0 < cg_num_partitions g \<and>
     dict_keys (cg_assignment g) = group_members g \<and>
     (\<forall>m \<in> set (group_members g).
        assignment_for m g = filter (\<lambda>p. owner_of (group_members g) p = m) [0..cg_num_partitions g - 1])"

lemma rebalance_balanced:
  assumes "distinct (dict_keys (cg_members g))" "0 < cg_num_partitions g"
  shows "balanced (rebalance g)"
proof -
  let ?ms = "sort (dict_keys (cg_members g))" and ?g = "rebalance g"
  let ?a = "map (\<lambda>m. (m, [] :: int list)) ?ms"
  have gm: "group_members ?g = ?ms" by (simp add: group_members_def rebalance_def Let_def)
  have asg: "cg_assignment ?g = assign_partitions ?ms [0..cg_num_partitions g - 1] ?a"
    by (simp add: rebalance_def Let_def)
  have keys: "dict_keys ?a = ?ms" by (simp add: comp_def)
  have "dict_keys (cg_assignment ?g) = group_members ?g"
    unfolding asg gm using assign_partitions_keys [of ?ms ?a] keys by simp
  moreover have "assignment_for m ?g = filter (\<lambda>p. owner_of ?ms p = m) [0..cg_num_partitions g - 1]" if "m \<in> set ?ms" for m
  proof -
    have "dict_get_default ?a m [] = []" by (simp add: dict_get_default_def dict_get_map_pair)
    moreover have "?ms \<noteq> []" using length_pos_if_in_set [OF that] by blast
    ultimately show ?thesis
      using assign_partitions_get [of ?ms ?a m "[0..cg_num_partitions g - 1]"] keys that
      by (simp add: assignment_for_def asg dict_get_default_def)
  qed
  ultimately show ?thesis
    using assms by (simp add: balanced_def gm) (simp add: rebalance_def Let_def)
qed

lemma owner_of_in: "members \<noteq> [] \<Longrightarrow> owner_of members p \<in> set members"
  by (auto simp: owner_of_def nat_less_iff)

lemma balanced_unique_owner:
  assumes "balanced g" "group_members g \<noteq> []" "0 \<le> p" "p < cg_num_partitions g"
  shows "\<exists>!m. m \<in> set (group_members g) \<and> p \<in> set (assignment_for m g)"
proof (rule ex1I [of _ "owner_of (group_members g) p"])
  show "owner_of (group_members g) p \<in> set (group_members g) \<and> p \<in> set (assignment_for (owner_of (group_members g) p) g)"
    using assms owner_of_in [OF assms(2)] by (simp add: balanced_def)
next
  fix m assume "m \<in> set (group_members g) \<and> p \<in> set (assignment_for m g)"
  then show "m = owner_of (group_members g) p" using assms(1) by (auto simp: balanced_def)
qed

lemma join_ok:
  assumes "balanced g"
  shows "\<exists>ps g'. join m now g = Inr (ps, g') \<and> balanced g' \<and> m \<in> set (group_members g') \<and> ps = assignment_for m g' \<and>
    cg_num_partitions g' = cg_num_partitions g \<and> cg_group_id g' = cg_group_id g \<and>
    set (group_members g') = insert m (set (group_members g))"
proof -
  let ?g = "g\<lparr>cg_members := dict_set m \<lparr>ms_member_id = m, ms_last_heartbeat = now\<rparr> (cg_members g)\<rparr>"
  have bal: "balanced (rebalance ?g)"
    using assms by (intro rebalance_balanced) (auto simp: balanced_def distinct_update)
  have mem: "set (group_members (rebalance ?g)) = insert m (set (group_members g))"
    by (simp add: group_members_def rebalance_def Let_def dom_update)
  then have "m \<in> set (dict_keys (cg_assignment (rebalance ?g)))" using bal by (simp add: balanced_def)
  then obtain ps where "dict_get (cg_assignment (rebalance ?g)) m = Some ps"
    using dict_get_None_iff [of "cg_assignment (rebalance ?g)" m] by blast
  then show ?thesis
    using bal mem by (auto simp: join_def Let_def assignment_for_def dict_get_default_def) (simp_all add: rebalance_def Let_def)
qed

lemma heartbeat_ok:
  assumes "balanced g"
  shows "(case heartbeat m now g of Inl e \<Rightarrow> e = ValueError \<and> m \<notin> set (group_members g)
    | Inr g' \<Rightarrow> balanced g' \<and> group_members g' = group_members g \<and> cg_assignment g' = cg_assignment g)"
proof (cases "dict_get (cg_members g) m")
  case None
  have "heartbeat m now g = Inl ValueError" unfolding heartbeat_def None by simp
  moreover have "m \<notin> set (group_members g)" using None by (simp add: group_members_def map_of_eq_None_iff)
  ultimately show ?thesis by simp
next
  case (Some ms)
  then have "dict_keys (dict_set m (ms\<lparr>ms_last_heartbeat := now\<rparr>) (cg_members g)) = dict_keys (cg_members g)"
    using dict_get_Some_key [OF Some] by (simp only: dict_keys_set if_True)
  then show ?thesis
    using assms Some by (simp add: heartbeat_def balanced_def group_members_def assignment_for_def)
qed

lemma leave_ok: "balanced g \<Longrightarrow> balanced (leave m g) \<and> set (group_members (leave m g)) = set (group_members g) - {m}"
proof -
  assume bal: "balanced g"
  show ?thesis
  proof (cases "dict_get (cg_members g) m")
    case None
    have "leave m g = g" unfolding leave_def None by simp
    moreover have "m \<notin> set (group_members g)" using None by (simp add: group_members_def map_of_eq_None_iff)
    ultimately show ?thesis using bal by simp
  next
    case (Some ms)
    have "balanced (rebalance (g\<lparr>cg_members := dict_del m (cg_members g)\<rparr>))"
      using bal by (intro rebalance_balanced) (auto simp: balanced_def distinct_delete)
    then show ?thesis
      using Some by (auto simp: leave_def group_members_def rebalance_def Let_def delete_keys)
  qed
qed

lemma fold_dict_del: "dict_keys (fold dict_del xs d) = filter (\<lambda>k. k \<notin> set xs) (dict_keys d)"
  by (induction xs arbitrary: d) (auto simp: dict_keys_del intro!: filter_cong)

text \<open>Eviction removes exactly the members whose last heartbeat is too old.\<close>

lemma check_expired_ok:
  assumes bal: "balanced g" and run: "check_expired_members now g = (expired, g')"
  shows "balanced g'" and "set (group_members g') = set (group_members g) - set expired"
    and "m \<in> set expired \<longleftrightarrow> (\<exists>ms. dict_get (cg_members g) m = Some ms \<and> now - ms_last_heartbeat ms > cg_session_timeout g)"
    and "cg_num_partitions g' = cg_num_partitions g" and "cg_group_id g' = cg_group_id g"
proof -
  let ?g = "g\<lparr>cg_members := fold dict_del expired (cg_members g)\<rparr>"
  have ex: "expired = map fst (filter (\<lambda>(m, ms). now - ms_last_heartbeat ms > cg_session_timeout g) (cg_members g))"
    using run by (simp add: check_expired_members_def Let_def)
  have g': "g' = (if expired \<noteq> [] then rebalance ?g else ?g)"
    using run unfolding check_expired_members_def Let_def ex [symmetric] by simp
  have keys: "dict_keys (cg_members ?g) = filter (\<lambda>k. k \<notin> set expired) (dict_keys (cg_members g))"
    by (simp add: fold_dict_del)
  have dist: "distinct (dict_keys (cg_members g))" "0 < cg_num_partitions g" using bal by (auto simp: balanced_def)
  show "balanced g'"
    using bal dist keys rebalance_balanced [of ?g] by (auto simp: g')
  show "set (group_members g') = set (group_members g) - set expired"
  proof -
    have "group_members g' = sort (dict_keys (cg_members ?g))"
      by (simp add: g' group_members_def rebalance_def Let_def)
    then show ?thesis unfolding keys group_members_def by auto
  qed
  show "m \<in> set expired \<longleftrightarrow> (\<exists>ms. dict_get (cg_members g) m = Some ms \<and> now - ms_last_heartbeat ms > cg_session_timeout g)"
    unfolding ex using map_of_eq_Some_iff [OF dist(1), of m] by force
  show "cg_num_partitions g' = cg_num_partitions g" "cg_group_id g' = cg_group_id g"
    by (simp_all add: g' rebalance_def Let_def)
qed

section \<open>Executions of a group\<close>

text \<open>The calls that reach a group, in any order; a call that raises leaves the group as it is.\<close>

datatype group_op = GJoin string rat | GHeartbeat string rat | GLeave string | GExpire rat

fun group_act :: "group_op \<Rightarrow> consumer_group \<Rightarrow> consumer_group" where
  "group_act (GJoin m now) g = (case join m now g of Inr (ps, g') \<Rightarrow> g' | Inl e \<Rightarrow> g)"
| "group_act (GHeartbeat m now) g = (case heartbeat m now g of Inr g' \<Rightarrow> g' | Inl e \<Rightarrow> g)"
| "group_act (GLeave m) g = leave m g"
| "group_act (GExpire now) g = snd (check_expired_members now g)"

lemma group_act_ok: "balanced g \<Longrightarrow> balanced (group_act op g) \<and> cg_num_partitions (group_act op g) = cg_num_partitions g"
proof (cases op)
  case (GJoin m now)
  assume "balanced g"
  then show ?thesis using join_ok [of g m now] GJoin by auto
next
  case (GHeartbeat m now)
  assume "balanced g"
  then show ?thesis
    using heartbeat_ok [of g m now] GHeartbeat by (auto simp: heartbeat_def split: sum.splits option.splits)
next
  case (GLeave m)
  assume "balanced g"
  moreover have "cg_num_partitions (leave m g) = cg_num_partitions g"
    by (simp add: leave_def rebalance_def Let_def split: option.split)
  ultimately show ?thesis using leave_ok [of g m] by (simp add: GLeave)
next
  case (GExpire now)
  assume "balanced g"
  moreover obtain expired g' where run: "check_expired_members now g = (expired, g')" by force
  ultimately show ?thesis using check_expired_ok(1,4) [of g now expired g'] by (simp add: GExpire run)
qed

lemma group_run_ok: "balanced g \<Longrightarrow> balanced (fold group_act ops g) \<and> cg_num_partitions (fold group_act ops g) = cg_num_partitions g"
  by (induction ops arbitrary: g) (simp_all add: group_act_ok)

lemma ConsumerGroup_balanced: "ConsumerGroup gid n timeout = Inr g \<Longrightarrow> balanced g \<and> cg_num_partitions g = n \<and> 0 < n"
  by (auto simp: ConsumerGroup_def balanced_def group_members_def split: if_splits)

text \<open>The round robin is fair.\<close>

lemma count_residues:
  assumes "0 < k" "0 \<le> j" "j < k"
  shows "int (length (filter (\<lambda>p. p mod k = j) [0..int n - 1])) = (int n + k - 1 - j) div k"
proof (induction n)
  case 0
  then show ?case using assms by (simp add: div_pos_pos_trivial)
next
  case (Suc n)
  have "[0..int (Suc n) - 1] = [0..int n - 1] @ [int n]" by (simp add: upto_rec2)
  moreover have "(int (Suc n) + k - 1 - j) div k = (int n + k - 1 - j) div k + (if int n mod k = j then 1 else 0)"
  proof -
    define a where "a = int n - j"
    have "(a + k) div k = (a + k - 1) div k + (if a mod k = 0 then 1 else 0)"
    proof (cases "a mod k = 0")
      case True
      then obtain b where "a = k * b" by auto
      moreover have "(k * b + (k - 1)) div k = b" using assms(1) by (simp add: div_pos_pos_trivial)
      ultimately show ?thesis using assms(1) by (simp add: algebra_simps)
    next
      case False
      have "a = k * (a div k) + a mod k" by simp
      then have "a + k - 1 = k * (a div k + 1) + (a mod k - 1)" by (simp add: algebra_simps)
      moreover have "0 \<le> a mod k - 1" "a mod k - 1 < k" using False assms(1) pos_mod_sign [of k a] pos_mod_bound [of k a] by linarith+
      ultimately have "(a + k - 1) div k = a div k + 1" using assms(1) by (simp only: div_mult_self4) (simp add: div_pos_pos_trivial)
      then show ?thesis using False assms(1) by simp
    qed
    moreover have "a mod k = 0 \<longleftrightarrow> int n mod k = j"
      using assms by (simp add: a_def mod_eq_0_iff_dvd mod_eq_dvd_iff [symmetric] mod_pos_pos_trivial)
    ultimately show ?thesis by (simp add: a_def algebra_simps)
  qed
  ultimately show ?case using Suc by simp
qed

lemma owner_of_index:
  assumes "distinct ms" "i < length ms"
  shows "owner_of ms p = ms ! i \<longleftrightarrow> p mod int (length ms) = int i"
proof -
  have "nat (p mod int (length ms)) < length ms" using assms(2) pos_mod_bound [of "int (length ms)" p] by linarith
  moreover have "0 \<le> p mod int (length ms)" using assms(2) pos_mod_sign [of "int (length ms)" p] by linarith
  ultimately show ?thesis using assms by (auto simp: owner_of_def nth_eq_iff_index_eq)
qed

lemma balanced_share:
  assumes "balanced g" "m \<in> set (group_members g)"
  shows "\<exists>i < length (group_members g). int (length (assignment_for m g)) =
    (cg_num_partitions g + int (length (group_members g)) - 1 - int i) div int (length (group_members g))"
proof -
  let ?ms = "group_members g"
  have "distinct ?ms" using assms(1) by (simp add: balanced_def group_members_def)
  moreover obtain i where i: "i < length ?ms" "m = ?ms ! i" using assms(2) by (metis in_set_conv_nth)
  ultimately have "assignment_for m g = filter (\<lambda>p. p mod int (length ?ms) = int i) [0..int (nat (cg_num_partitions g)) - 1]"
    using assms by (simp add: balanced_def owner_of_index)
  moreover have "0 < int (length ?ms)" "int i < int (length ?ms)" "0 < cg_num_partitions g"
    using i(1) assms(1) by (auto simp: balanced_def)
  ultimately show ?thesis
    using count_residues [of "int (length ?ms)" "int i" "nat (cg_num_partitions g)"] i(1) by (intro exI [of _ i]) simp
qed

lemma share_bounds:
  fixes n k i :: int
  assumes "0 < k" "0 \<le> i" "i < k"
  shows "n div k \<le> (n + k - 1 - i) div k" "(n + k - 1 - i) div k \<le> n div k + 1"
proof -
  show "n div k \<le> (n + k - 1 - i) div k" using assms by (intro zdiv_mono1) auto
  have "(n + k - 1 - i) div k \<le> (n + k) div k" using assms by (intro zdiv_mono1) auto
  then show "(n + k - 1 - i) div k \<le> n div k + 1" using assms by simp
qed

text \<open>
  C12: After any sequence of joins, heartbeats, departures and evictions, a group with members gives
  every partition to exactly one of them, and the shares of two members differ by at most one.
\<close>

theorem partition_ownership:
  assumes "ConsumerGroup gid n timeout = Inr g0" "g = fold group_act ops g0" "group_members g \<noteq> []"
  shows "(\<forall>p. 0 \<le> p \<and> p < n \<longleftrightarrow> (\<exists>!m. m \<in> set (group_members g) \<and> p \<in> set (assignment_for m g))) \<and>
    (\<forall>m m'. \<not> (m \<in> set (group_members g) \<and> m' \<in> set (group_members g) \<and>
      length (assignment_for m g) > length (assignment_for m' g) + 1))"
proof -
  have g: "balanced g" "cg_num_partitions g = n"
    using ConsumerGroup_balanced [OF assms(1)] group_run_ok [of g0 ops] assms(2) by auto
  have range: "0 \<le> p \<and> p < n" if "m \<in> set (group_members g)" "p \<in> set (assignment_for m g)" for m p
    using g that by (auto simp: balanced_def)
  let ?k = "int (length (group_members g))"
  have share: "n div ?k \<le> int (length (assignment_for m g)) \<and> int (length (assignment_for m g)) \<le> n div ?k + 1"
    if m: "m \<in> set (group_members g)" for m
  proof -
    obtain i where "i < length (group_members g)" "int (length (assignment_for m g)) = (n + ?k - 1 - int i) div ?k"
      using balanced_share [OF g(1) m] g(2) by auto
    moreover from this have "0 < ?k" "int i < ?k" by linarith+
    ultimately show ?thesis using share_bounds [of ?k "int i" n] by simp
  qed
  have "\<not> (m \<in> set (group_members g) \<and> m' \<in> set (group_members g) \<and> length (assignment_for m g) > length (assignment_for m' g) + 1)" for m m'
    using share [of m] share [of m'] by auto
  moreover have "0 \<le> p \<and> p < n \<longleftrightarrow> (\<exists>!m. m \<in> set (group_members g) \<and> p \<in> set (assignment_for m g))" for p
    using balanced_unique_owner [OF g(1) assms(3), of p] g(2) range by blast
  ultimately show ?thesis by blast
qed

definition demo_group :: consumer_group where
  "demo_group = \<lparr>cg_group_id = ''fraud-workers'', cg_num_partitions = 3, cg_session_timeout = 1, cg_members = [], cg_assignment = []\<rparr>"

definition demo_calls :: "group_op list" where
  "demo_calls = [GJoin ''f1'' 0, GJoin ''f0'' 0, GJoin ''f2'' 0, GHeartbeat ''f0'' 1, GHeartbeat ''f2'' 1, GExpire (3/2)]"

theorem partition_ownership_witness:
  "\<exists>!m. m \<in> set (group_members (fold group_act demo_calls demo_group)) \<and>
     2 \<in> set (assignment_for m (fold group_act demo_calls demo_group))"
proof -
  have ne: "group_members (fold group_act demo_calls demo_group) \<noteq> []" by code_simp
  have "ConsumerGroup ''fraud-workers'' 3 1 = Inr demo_group" by (simp add: ConsumerGroup_def demo_group_def)
  note own = conjunct1 [OF partition_ownership [OF this refl ne], THEN spec, of 2]
  then show ?thesis by simp
qed

text \<open>
  C31: A health check evicts exactly the members whose last heartbeat is older than the session timeout,
  and when a member is left, every partition again has exactly one owner, which is not an evicted one.
\<close>

theorem silent_members_evicted:
  assumes "ConsumerGroup gid n timeout = Inr g0" "g = fold group_act ops g0" "check_expired_members now g = (expired, g')"
  shows "set (group_members g') = set (group_members g) - set expired \<and>
    (\<forall>m. m \<in> set expired \<longleftrightarrow> (\<exists>ms. dict_get (cg_members g) m = Some ms \<and> now - ms_last_heartbeat ms > cg_session_timeout g)) \<and>
    (\<forall>p. \<not> (group_members g' \<noteq> [] \<and> 0 \<le> p \<and> p < n \<and>
      (\<nexists>!m. m \<in> set (group_members g) \<and> m \<notin> set expired \<and> p \<in> set (assignment_for m g'))))"
proof -
  have g: "balanced g" "cg_num_partitions g = n"
    using ConsumerGroup_balanced [OF assms(1)] group_run_ok [of g0 ops] assms(2) by auto
  note ex = check_expired_ok [OF g(1) assms(3)]
  have "\<exists>!m. m \<in> set (group_members g) \<and> m \<notin> set expired \<and> p \<in> set (assignment_for m g')"
    if "group_members g' \<noteq> []" "0 \<le> p" "p < n" for p
    using balanced_unique_owner [OF ex(1) that(1,2)] that(3) ex(2,4) g(2) by simp
  then show ?thesis using ex(2,3) by blast
qed

theorem silent_members_evicted_witness:
  "set (group_members (snd (check_expired_members (3/2) (fold group_act (butlast demo_calls) demo_group)))) =
     set (group_members (fold group_act (butlast demo_calls) demo_group)) - set [''f1'']"
proof -
  have new: "ConsumerGroup ''fraud-workers'' 3 1 = Inr demo_group" by (simp add: ConsumerGroup_def demo_group_def)
  have ex: "fst (check_expired_members (3/2) (fold group_act (butlast demo_calls) demo_group)) = [''f1'']" by code_simp
  then have "check_expired_members (3/2) (fold group_act (butlast demo_calls) demo_group) =
      ([''f1''], snd (check_expired_members (3/2) (fold group_act (butlast demo_calls) demo_group)))"
    by (metis prod.collapse)
  from conjunct1 [OF silent_members_evicted [OF new refl this]] show ?thesis .
qed

end
