(* ===== verification/Py_Decimal.thy ===== *)
theory Py_Decimal
  imports Prelude
begin

text \<open>
  The finite numbers of Python's \<open>decimal.Decimal\<close> with the default context: 28 significant
  digits, ties to even. A number is a coefficient and a power of ten. Infinities, NaN, the sign of
  zero and the limits on the exponent are left out.
\<close>

section \<open>Numbers\<close>

datatype decimal = Dec (dec_coef: int) (dec_exp: int)

definition dec_val :: "decimal \<Rightarrow> rat" where
  "dec_val x = of_int (dec_coef x) * 10 powi dec_exp x"

definition dec_prec :: nat where
  "dec_prec = 28"

fun num_digits :: "nat \<Rightarrow> nat" where
  "num_digits n = (if n < 10 then 1 else Suc (num_digits (n div 10)))"

declare num_digits.simps [simp del]

definition half_even :: "nat \<Rightarrow> nat \<Rightarrow> nat" where
  "half_even m p = (let q = m div p; r = m mod p in if 2 * r > p \<or> (2 * r = p \<and> odd q) then q + 1 else q)"

text \<open>Rounding a result to the precision of the context.\<close>

definition dec_fix :: "decimal \<Rightarrow> decimal" where
  "dec_fix x =
     (let m = nat \<bar>dec_coef x\<bar>; n = num_digits m
      in if n \<le> dec_prec then x
         else
           (let d = n - dec_prec;
                q = half_even m (10 ^ d);
                (q, d) = (if num_digits q > dec_prec then (q div 10, Suc d) else (q, d))
            in Dec (sgn (dec_coef x) * int q) (dec_exp x + int d)))"

definition dec_scaled :: "decimal \<Rightarrow> int \<Rightarrow> int" where
  "dec_scaled x e = dec_coef x * 10 ^ nat (dec_exp x - e)"

definition dec_add :: "decimal \<Rightarrow> decimal \<Rightarrow> decimal" where
  "dec_add x y = (let e = min (dec_exp x) (dec_exp y) in dec_fix (Dec (dec_scaled x e + dec_scaled y e) e))"

definition dec_neg :: "decimal \<Rightarrow> decimal" where
  "dec_neg x = dec_fix (Dec (- dec_coef x) (dec_exp x))"

definition dec_less :: "decimal \<Rightarrow> decimal \<Rightarrow> bool" where
  "dec_less x y = (let e = min (dec_exp x) (dec_exp y) in dec_scaled x e < dec_scaled y e)"

definition dec_le :: "decimal \<Rightarrow> decimal \<Rightarrow> bool" where
  "dec_le x y = (let e = min (dec_exp x) (dec_exp y) in dec_scaled x e \<le> dec_scaled y e)"

definition dec_eq :: "decimal \<Rightarrow> decimal \<Rightarrow> bool" where
  "dec_eq x y = (let e = min (dec_exp x) (dec_exp y) in dec_scaled x e = dec_scaled y e)"

definition dec_of_int :: "int \<Rightarrow> decimal" where
  "dec_of_int n = Dec n 0"

section \<open>Text\<close>

definition digit_char :: "nat \<Rightarrow> char" where
  "digit_char d = char_of (48 + d)"

fun nat_str :: "nat \<Rightarrow> string" where
  "nat_str n = (if n < 10 then [digit_char n] else nat_str (n div 10) @ [digit_char (n mod 10)])"

declare nat_str.simps [simp del]

definition int_str :: "int \<Rightarrow> string" where
  "int_str n = (if n < 0 then ''-'' @ nat_str (nat (- n)) else nat_str (nat n))"

text \<open>\<open>str(Decimal)\<close>: plain notation for small exponents, scientific notation otherwise.\<close>

definition exponent_str :: "int \<Rightarrow> string" where
  "exponent_str e = (if e = 0 then '''' else ''E'' @ (if e \<ge> 0 then ''+'' else '''') @ int_str e)"

definition unsigned_str :: "nat \<Rightarrow> int \<Rightarrow> string" where
  "unsigned_str coef ex =
     (let digits = nat_str coef;
          len = int (length digits);
          leftdigits = ex + len;
          dotplace = (if ex \<le> 0 \<and> leftdigits > -6 then leftdigits else 1);
          body = (if dotplace \<le> 0 then ''0'' @ ''.'' @ replicate (nat (- dotplace)) CHR ''0'' @ digits
                  else if dotplace \<ge> len then digits @ replicate (nat (dotplace - len)) CHR ''0''
                  else take (nat dotplace) digits @ ''.'' @ drop (nat dotplace) digits)
      in body @ exponent_str (leftdigits - dotplace))"

definition dec_str :: "decimal \<Rightarrow> string" where
  "dec_str x = (if dec_coef x < 0 then ''-'' else '''') @ unsigned_str (nat \<bar>dec_coef x\<bar>) (dec_exp x)"

section \<open>Laws\<close>

lemma num_digits_le: "1 \<le> k \<Longrightarrow> num_digits m \<le> k \<longleftrightarrow> m < 10 ^ k"
proof (induction m arbitrary: k rule: num_digits.induct)
  case (1 m)
  show ?case
  proof (cases "m < 10")
    case True
    have "(10::nat) ^ 1 \<le> 10 ^ k" using 1(2) by (intro power_increasing) auto
    then show ?thesis using True 1(2) by (simp add: num_digits.simps [of m])
  next
    case False
    show ?thesis
    proof (cases "k = 1")
      case True
      then show ?thesis using False by (simp add: num_digits.simps [of m] num_digits.simps [of "m div 10"])
    next
      case k: False
      then obtain j where j: "k = Suc j" "1 \<le> j" using 1(2) by (cases k) auto
      have "m div 10 < 10 ^ j \<longleftrightarrow> m < 10 ^ j * 10" by (simp add: div_less_iff_less_mult)
      then show ?thesis using 1(1) [OF False j(2)] False j by (simp add: num_digits.simps [of m] mult.commute)
    qed
  qed
qed

lemma num_digits_pos: "1 \<le> num_digits m"
  by (simp add: num_digits.simps [of m])

lemma num_digits_lower: "num_digits m = Suc k \<Longrightarrow> 1 \<le> k \<Longrightarrow> 10 ^ k \<le> m"
  using num_digits_le [of k m] by simp

lemma half_even_bounds: "m div p \<le> half_even m p" "half_even m p \<le> m div p + 1"
  by (simp_all add: half_even_def Let_def)

lemma dec_fix_exact: "\<bar>dec_coef x\<bar> < 10 ^ 28 \<Longrightarrow> dec_fix x = x"
proof -
  assume "\<bar>dec_coef x\<bar> < 10 ^ 28"
  then have "nat \<bar>dec_coef x\<bar> < 10 ^ 28" by (simp add: nat_less_iff)
  then show ?thesis using num_digits_le [of 28 "nat \<bar>dec_coef x\<bar>"] by (simp add: dec_fix_def dec_prec_def)
qed

text \<open>What rounding does to a coefficient that is too long: the rounded one has exactly 28 digits.\<close>

lemma dec_fix_long:
  assumes "num_digits (nat \<bar>dec_coef x\<bar>) > 28"
  obtains q d where "dec_fix x = Dec (sgn (dec_coef x) * int q) (dec_exp x + int d)" "10 ^ 27 \<le> q" "q < 10 ^ 28"
proof -
  let ?m = "nat \<bar>dec_coef x\<bar>"
  define d where "d = num_digits ?m - 28"
  define q where "q = half_even ?m (10 ^ d)"
  have n: "num_digits ?m = Suc (27 + d)" using assms by (simp add: d_def)
  have lo: "10 ^ (27 + d) \<le> ?m" using num_digits_lower [OF n] by simp
  have hi: "?m < 10 ^ (28 + d)" using num_digits_le [of "28 + d" ?m] n by simp
  have "(10 ^ 27 * 10 ^ d) div 10 ^ d \<le> ?m div 10 ^ d"
    using lo by (intro div_le_mono) (simp add: power_add)
  then have q_lo: "10 ^ 27 \<le> q" using half_even_bounds(1) [of ?m "10 ^ d"] by (simp add: q_def)
  have "?m div 10 ^ d < 10 ^ 28" using hi by (simp add: div_less_iff_less_mult power_add)
  then have q_hi: "q \<le> 10 ^ 28" using half_even_bounds(2) [of ?m "10 ^ d"] by (simp add: q_def)
  show ?thesis
  proof (cases "num_digits q > 28")
    case True
    then have "q = 10 ^ 28" using q_hi num_digits_le [of 28 q] by simp
    then show ?thesis
      using True assms
      by (intro that [of "10 ^ 27" "Suc d"]) (simp_all add: dec_fix_def dec_prec_def Let_def d_def [symmetric] q_def [symmetric])
  next
    case False
    then have "q < 10 ^ 28" using num_digits_le [of 28 q] by simp
    then show ?thesis
      using False assms q_lo
      by (intro that [of q d]) (simp_all add: dec_fix_def dec_prec_def Let_def d_def [symmetric] q_def [symmetric])
  qed
qed

lemma dec_fix_digits: "\<bar>dec_coef (dec_fix x)\<bar> < 10 ^ 28"
proof (cases "num_digits (nat \<bar>dec_coef x\<bar>) > 28")
  case True
  then obtain q d where "dec_fix x = Dec (sgn (dec_coef x) * int q) (dec_exp x + int d)" "q < 10 ^ 28"
    by (rule dec_fix_long)
  moreover have "int q < 10 ^ 28" using \<open>q < 10 ^ 28\<close> by (simp only: of_nat_less_numeral_power_cancel_iff)
  ultimately show ?thesis by (simp add: abs_mult sgn_if)
next
  case False
  then have "nat \<bar>dec_coef x\<bar> < 10 ^ 28" using num_digits_le [of 28 "nat \<bar>dec_coef x\<bar>"] by simp
  then have "\<bar>dec_coef x\<bar> < 10 ^ 28" by (simp add: nat_less_iff)
  then show ?thesis by (simp add: dec_fix_exact)
qed

lemma dec_fix_sgn: "sgn (dec_coef (dec_fix x)) = sgn (dec_coef x)"
proof (cases "num_digits (nat \<bar>dec_coef x\<bar>) > 28")
  case True
  then obtain q d where "dec_fix x = Dec (sgn (dec_coef x) * int q) (dec_exp x + int d)" "10 ^ 27 \<le> q"
    by (rule dec_fix_long)
  then show ?thesis by (simp add: sgn_mult)
next
  case False
  then show ?thesis by (simp add: dec_fix_def dec_prec_def)
qed

lemma dec_scaled_val:
  assumes "e \<le> dec_exp x"
  shows "of_int (dec_scaled x e) * 10 powi e = dec_val x"
proof -
  have "(10::rat) ^ nat (dec_exp x - e) = 10 powi (dec_exp x - e)"
    using assms by (simp add: power_int_def)
  then have "(10::rat) ^ nat (dec_exp x - e) * 10 powi e = 10 powi dec_exp x"
    using power_int_add [of "10::rat" "dec_exp x - e" e] by simp
  then show ?thesis by (simp add: dec_scaled_def dec_val_def)
qed

lemma scaled_sgn: "sgn (of_int c * (10::rat) powi e) = of_int (sgn c)"
proof -
  have "sgn ((10::rat) powi e) = 1" by (simp add: zero_less_power_int)
  moreover have "sgn (rat_of_int c) = of_int (sgn c)" by (simp add: sgn_if)
  ultimately show ?thesis by (simp only: sgn_mult mult_1_right)
qed

lemma dec_val_sgn: "sgn (dec_val x) = of_int (sgn (dec_coef x))"
  by (simp add: dec_val_def scaled_sgn)

lemma dec_less_val: "dec_less x y \<longleftrightarrow> dec_val x < dec_val y"
proof -
  let ?e = "min (dec_exp x) (dec_exp y)"
  have "dec_val x < dec_val y \<longleftrightarrow> of_int (dec_scaled x ?e) * (10::rat) powi ?e < of_int (dec_scaled y ?e) * 10 powi ?e"
    by (simp add: dec_scaled_val)
  also have "\<dots> \<longleftrightarrow> dec_scaled x ?e < dec_scaled y ?e"
    using zero_less_power_int [of "10::rat" ?e] by (subst mult_less_cancel_right_pos) simp_all
  finally show ?thesis by (simp add: dec_less_def Let_def)
qed

lemma dec_le_val: "dec_le x y \<longleftrightarrow> dec_val x \<le> dec_val y"
proof -
  have "dec_le x y \<longleftrightarrow> \<not> dec_less y x"
    by (simp add: dec_le_def dec_less_def Let_def min.commute not_less)
  then show ?thesis by (simp add: dec_less_val not_less)
qed

lemma dec_eq_val: "dec_eq x y \<longleftrightarrow> dec_val x = dec_val y"
proof -
  have "dec_eq x y \<longleftrightarrow> dec_le x y \<and> dec_le y x"
    unfolding dec_eq_def dec_le_def Let_def min.commute [of "dec_exp y"] by (rule order_eq_iff)
  then show ?thesis unfolding dec_le_val order_eq_iff [symmetric] .
qed

lemma dec_sum_val:
  fixes x y :: decimal
  defines "e \<equiv> min (dec_exp x) (dec_exp y)"
  shows "of_int (dec_scaled x e + dec_scaled y e) * 10 powi e = dec_val x + dec_val y"
  using dec_scaled_val [of e x] dec_scaled_val [of e y] by (simp add: e_def distrib_right)

text \<open>The sign of a sum survives the rounding, and a sum that fits is exact.\<close>

lemma dec_add_sgn: "sgn (dec_val (dec_add x y)) = sgn (dec_val x + dec_val y)"
proof -
  let ?e = "min (dec_exp x) (dec_exp y)" and ?c = "\<lambda>e. dec_scaled x e + dec_scaled y e"
  have "sgn (dec_val x + dec_val y) = of_int (sgn (?c ?e))"
    unfolding dec_sum_val [symmetric] by (rule scaled_sgn)
  then show ?thesis by (simp add: dec_val_sgn dec_add_def Let_def dec_fix_sgn)
qed

lemma dec_add_neg_iff: "dec_val (dec_add x y) < 0 \<longleftrightarrow> dec_val x + dec_val y < 0"
  by (metis dec_add_sgn sgn_less)

lemma dec_add_exact:
  assumes "\<bar>dec_scaled x (min (dec_exp x) (dec_exp y)) + dec_scaled y (min (dec_exp x) (dec_exp y))\<bar> < 10 ^ 28"
  shows "dec_val (dec_add x y) = dec_val x + dec_val y"
proof -
  have "dec_add x y = Dec (dec_scaled x (min (dec_exp x) (dec_exp y)) + dec_scaled y (min (dec_exp x) (dec_exp y)))
      (min (dec_exp x) (dec_exp y))"
    using assms by (simp add: dec_add_def Let_def dec_fix_exact)
  then show ?thesis using dec_sum_val [of x y] by (simp only: dec_val_def [of "Dec _ _"] decimal.sel)
qed

lemma dec_neg_exact: "\<bar>dec_coef x\<bar> < 10 ^ 28 \<Longrightarrow> dec_val (dec_neg x) = - dec_val x"
  by (simp add: dec_neg_def dec_fix_exact dec_val_def)

lemma dec_neg_sgn: "sgn (dec_val (dec_neg x)) = - sgn (dec_val x)"
  by (simp add: dec_val_sgn dec_neg_def dec_fix_sgn sgn_minus)

lemma dec_of_int_val [simp]: "dec_val (dec_of_int n) = of_int n"
  by (simp add: dec_of_int_def dec_val_def)

end
