(* ===== verification/Models.thy ===== *)
theory Models
  imports Py_Decimal
begin

text \<open>
  The domain models of common/models.py. A constructor with its \<open>__post_init__\<close> check is a
  function to a result. Identifiers from \<open>uuid4\<close> and clock readings (microseconds since the
  epoch) are arguments; amounts are decimals and scores exact fractions.
\<close>

datatype transaction_type = DEBIT | CREDIT | TRANSFER

datatype transaction_status = PENDING | SCORING | FRAUD_FLAGGED | CLEARED | SETTLED | REJECTED

record transaction =
  txn_account_id :: string
  txn_type :: transaction_type
  txn_amount :: decimal
  txn_counterparty :: "string option"
  txn_currency :: string
  txn_region :: string
  txn_status :: transaction_status
  txn_id :: string
  txn_created_at :: int
  txn_metadata :: "(string, string) dict"

record fraud_score =
  fs_transaction_id :: string
  fs_worker_id :: string
  fs_score :: rat
  fs_is_fraud :: bool
  fs_reasons :: "string list"
  fs_scored_at :: int

record scored_transaction =
  sc_transaction :: transaction
  sc_score :: fraud_score

record account =
  acc_id :: string
  acc_balance :: decimal
  acc_region :: string

record ledger_entry =
  le_transaction_id :: string
  le_account_id :: string
  le_delta :: decimal
  le_entry_id :: string
  le_created_at :: int

definition Transaction :: "transaction \<Rightarrow> transaction result" where
  "Transaction t =
     (if txn_account_id t = '''' then Inl ValueError
      else if dec_le (txn_amount t) (dec_of_int 0) then Inl ValueError
      else if txn_type t = TRANSFER \<and> (txn_counterparty t = None \<or> txn_counterparty t = Some '''')
        then Inl ValueError
      else Inr t)"

definition partition_key :: "transaction \<Rightarrow> string" where
  "partition_key t = txn_account_id t"

definition FraudScore :: "fraud_score \<Rightarrow> fraud_score result" where
  "FraudScore s = (if \<not> (0 \<le> fs_score s \<and> fs_score s \<le> 1) then Inl ValueError else Inr s)"

definition Account :: "account \<Rightarrow> account result" where
  "Account a = (if acc_id a = '''' then Inl ValueError else Inr a)"

definition LedgerEntry :: "ledger_entry \<Rightarrow> ledger_entry result" where
  "LedgerEntry e =
     (let e = (if le_entry_id e = '''' then e\<lparr>le_entry_id := le_transaction_id e\<rparr> else e)
      in if dec_eq (le_delta e) (dec_of_int 0) then Inl ValueError else Inr e)"

text \<open>What holds of every transaction and ledger entry that could be built.\<close>

definition valid_transaction :: "transaction \<Rightarrow> bool" where
  "valid_transaction t \<longleftrightarrow> txn_account_id t \<noteq> '''' \<and> 0 < dec_val (txn_amount t) \<and>
     (txn_type t = TRANSFER \<longrightarrow> (\<exists>c. txn_counterparty t = Some c \<and> c \<noteq> ''''))"

lemma Transaction_Inr: "Transaction t = Inr t' \<longleftrightarrow> t' = t \<and> valid_transaction t"
  by (auto simp: Transaction_def valid_transaction_def dec_le_val)

lemma LedgerEntry_Inr:
  "LedgerEntry e = Inr e' \<longleftrightarrow> dec_val (le_delta e) \<noteq> 0 \<and>
     e' = (if le_entry_id e = '''' then e\<lparr>le_entry_id := le_transaction_id e\<rparr> else e)"
  by (auto simp: LedgerEntry_def dec_eq_val Let_def)

end
