(* ===== verification/Fraud.thy ===== *)
theory Fraud
  imports Consumer_Group Models
begin

text \<open>
  The fraud stage: the rule-based scorer (fraud/scorer.py) and the worker that reads its share of
  the stream, scores it and hands the result to a bounded queue (fraud/worker.py). Clock readings
  are microseconds since the epoch; weights are exact fractions; the text of the window length is
  kept beside its value.
\<close>

section \<open>The scorer\<close>

record scorer_config =
  cf_large_amount_threshold :: decimal
  cf_velocity_window_seconds :: rat
  cf_velocity_window_text :: string
  cf_velocity_max_transactions :: int
  cf_device_flag_weight :: rat
  cf_large_amount_weight :: rat
  cf_velocity_weight :: rat
  cf_fraud_threshold :: rat

definition ScorerConfig :: scorer_config where
  "ScorerConfig = \<lparr>cf_large_amount_threshold = dec_of_int 10000, cf_velocity_window_seconds = 60,
     cf_velocity_window_text = ''60.0'', cf_velocity_max_transactions = 5, cf_device_flag_weight = 6/10,
     cf_large_amount_weight = 5/10, cf_velocity_weight = 6/10, cf_fraud_threshold = 5/10\<rparr>"

record scorer =
  rs_worker_id :: string
  rs_config :: scorer_config
  rs_recent :: "(string, int list) dict"

definition RuleBasedScorer :: "string \<Rightarrow> scorer_config \<Rightarrow> scorer" where
  "RuleBasedScorer wid config = \<lparr>rs_worker_id = wid, rs_config = config, rs_recent = []\<rparr>"

text \<open>\<open>timedelta(seconds=s)\<close> in microseconds: the nearest integer, ties to even.\<close>

definition round_half_even :: "rat \<Rightarrow> int" where
  "round_half_even q =
     (let f = \<lfloor>q\<rfloor>; d = q - of_int f
      in if d > 1/2 \<or> (d = 1/2 \<and> odd f) then f + 1 else f)"

definition timedelta_seconds :: "rat \<Rightarrow> int" where
  "timedelta_seconds s = round_half_even (s * 1000000)"

definition record_and_count :: "transaction \<Rightarrow> int \<Rightarrow> scorer \<Rightarrow> int \<times> scorer" where
  "record_and_count txn now s =
     (let window = dict_get_default (rs_recent s) (txn_account_id txn) [] @ [now];
          cutoff = now - timedelta_seconds (cf_velocity_window_seconds (rs_config s));
          window = dropWhile (\<lambda>t. t < cutoff) window
      in (int (length window), s\<lparr>rs_recent := dict_set (txn_account_id txn) window (rs_recent s)\<rparr>))"

definition score :: "transaction \<Rightarrow> int \<Rightarrow> int \<Rightarrow> scorer \<Rightarrow> fraud_score result \<times> scorer" where
  "score txn now scored_at s =
     (let config = rs_config s;
          weight = 0; reasons = [];
          (weight, reasons) =
            (if dec_le (cf_large_amount_threshold config) (txn_amount txn)
             then (weight + cf_large_amount_weight config,
                   reasons @ [''amount '' @ dec_str (txn_amount txn) @ '' >= large-amount threshold '' @
                              dec_str (cf_large_amount_threshold config)])
             else (weight, reasons));
          (weight, reasons) =
            (if dict_get (txn_metadata txn) ''device_flagged'' = Some ''true''
             then (weight + cf_device_flag_weight config, reasons @ [''device flagged''])
             else (weight, reasons));
          (velocity, s) = record_and_count txn now s;
          (weight, reasons) =
            (if velocity > cf_velocity_max_transactions config
             then (weight + cf_velocity_weight config,
                   reasons @ [''velocity '' @ int_str velocity @ '' transactions for '' @ txn_account_id txn @
                              '' within '' @ cf_velocity_window_text config @ ''s window''])
             else (weight, reasons));
          sc = min weight 1
      in (FraudScore \<lparr>fs_transaction_id = txn_id txn, fs_worker_id = rs_worker_id s, fs_score = sc,
                      fs_is_fraud = (sc \<ge> cf_fraud_threshold config), fs_reasons = reasons,
                      fs_scored_at = scored_at\<rparr>, s))"

section \<open>The worker\<close>

definition worker_join :: "string \<Rightarrow> rat \<Rightarrow> consumer_group \<Rightarrow> (int list \<times> consumer_group) result" where
  [simp]: "worker_join member now g = consumer_join member now g"

definition worker_heartbeat :: "string \<Rightarrow> rat \<Rightarrow> consumer_group \<Rightarrow> consumer_group result" where
  [simp]: "worker_heartbeat member now g = consumer_heartbeat member now g"

record out_queue =
  q_maxsize :: int
  q_items :: "scored_transaction list"

definition put_nowait :: "scored_transaction \<Rightarrow> out_queue \<Rightarrow> out_queue result" where
  "put_nowait x q =
     (if 0 < q_maxsize q \<and> q_maxsize q \<le> int (length (q_items q)) then Inl QueueFull
      else Inr (q\<lparr>q_items := q_items q @ [x]\<rparr>))"

record worker_state =
  ws_log :: "transaction partitioned_log"
  ws_scorer :: scorer
  ws_queue :: out_queue
  ws_reads :: nat

definition available_capacity :: "int \<Rightarrow> out_queue \<Rightarrow> int" where
  "available_capacity max_batch q =
     (if q_maxsize q \<le> 0 then max_batch
      else max 0 (min max_batch (q_maxsize q - int (length (q_items q)))))"

text \<open>The two clock readings of one score are \<open>clock k\<close> and \<open>clock (k + 1)\<close>.\<close>

fun process_records ::
  "(nat \<Rightarrow> int) \<Rightarrow> consumer_group \<Rightarrow> transaction log_record list \<Rightarrow> int \<Rightarrow> scored_transaction list \<Rightarrow> worker_state
   \<Rightarrow> (int \<times> scored_transaction list \<times> worker_state) result" where
  "process_records clock g [] capacity produced ws = Inr (capacity, produced, ws)"
| "process_records clock g (record # records) capacity produced ws =
     (let k = ws_reads ws;
          (sc, scorer) = score (lr_value record) (clock k) (clock (k + 1)) (ws_scorer ws)
      in rbind sc (\<lambda>sc.
           let scored = \<lparr>sc_transaction = lr_value record, sc_score = sc\<rparr>
           in rbind (put_nowait scored (ws_queue ws)) (\<lambda>q.
                rbind (group_commit g record (ws_log ws)) (\<lambda>l.
                  process_records clock g records (capacity - 1) (produced @ [scored])
                    \<lparr>ws_log = l, ws_scorer = scorer, ws_queue = q, ws_reads = k + 2\<rparr>))))"

fun run_partitions ::
  "(nat \<Rightarrow> int) \<Rightarrow> consumer_group \<Rightarrow> int list \<Rightarrow> int \<Rightarrow> scored_transaction list \<Rightarrow> worker_state
   \<Rightarrow> (scored_transaction list \<times> worker_state) result" where
  "run_partitions clock g [] capacity produced ws = Inr (produced, ws)"
| "run_partitions clock g (p # ps) capacity produced ws =
     (if capacity \<le> 0 then Inr (produced, ws)
      else
        rbind (poll_partition (ws_log ws) g p capacity) (\<lambda>records.
          rbind (process_records clock g records capacity produced ws) (\<lambda>(capacity, produced, ws).
            run_partitions clock g ps capacity produced ws)))"

definition worker_run_once ::
  "(nat \<Rightarrow> int) \<Rightarrow> consumer_group \<Rightarrow> string \<Rightarrow> int \<Rightarrow> worker_state
   \<Rightarrow> (scored_transaction list \<times> worker_state) result" where
  "worker_run_once clock g member max_batch ws =
     (let capacity = available_capacity max_batch (ws_queue ws)
      in if capacity \<le> 0 then Inr ([], ws)
         else run_partitions clock g (assigned_partitions member g) capacity [] ws)"

section \<open>Scores\<close>

definition weights_ok :: "scorer_config \<Rightarrow> bool" where
  "weights_ok c \<longleftrightarrow> 0 \<le> cf_device_flag_weight c \<and> 0 \<le> cf_large_amount_weight c \<and> 0 \<le> cf_velocity_weight c"

definition rule_weight :: "scorer_config \<Rightarrow> transaction \<Rightarrow> int \<Rightarrow> rat" where
  "rule_weight c txn velocity =
     (if dec_val (cf_large_amount_threshold c) \<le> dec_val (txn_amount txn) then cf_large_amount_weight c else 0) +
     (if dict_get (txn_metadata txn) ''device_flagged'' = Some ''true'' then cf_device_flag_weight c else 0) +
     (if velocity > cf_velocity_max_transactions c then cf_velocity_weight c else 0)"

lemma score_result:
  assumes "weights_ok (rs_config s)"
  shows "\<exists>fs. score txn now sat s = (Inr fs, snd (record_and_count txn now s)) \<and>
    fs_transaction_id fs = txn_id txn \<and> fs_worker_id fs = rs_worker_id s \<and>
    fs_score fs = min (rule_weight (rs_config s) txn (fst (record_and_count txn now s))) 1 \<and>
    0 \<le> fs_score fs \<and> fs_score fs \<le> 1 \<and>
    (fs_is_fraud fs \<longleftrightarrow> cf_fraud_threshold (rs_config s) \<le> fs_score fs)"
proof -
  obtain v s' where r: "record_and_count txn now s = (v, s')" by force
  then have s': "rs_config s' = rs_config s" "rs_worker_id s' = rs_worker_id s"
    by (auto simp: record_and_count_def Let_def)
  show ?thesis
    using assms
    by (simp add: score_def r s' FraudScore_def weights_ok_def rule_weight_def dec_le_val Let_def add_nonneg_nonneg)
qed

lemma score_keeps: "rs_config (snd (score txn now sat s)) = rs_config s"
  by (simp add: score_def record_and_count_def Let_def case_prod_beta)

text \<open>With the default weights every single rule is enough to flag a transaction.\<close>

lemma default_rules:
  assumes "rs_config s = ScorerConfig" "score txn now sat s = (Inr fs, s')"
  shows "fs_is_fraud fs \<longleftrightarrow> 10000 \<le> dec_val (txn_amount txn) \<or>
    dict_get (txn_metadata txn) ''device_flagged'' = Some ''true'' \<or> 5 < fst (record_and_count txn now s)"
proof -
  have "weights_ok (rs_config s)" by (simp add: assms(1) weights_ok_def ScorerConfig_def)
  from score_result [OF this, of txn now sat] assms(2) show ?thesis
    by (auto simp: assms(1) rule_weight_def ScorerConfig_def)
qed

section \<open>Velocity\<close>

text \<open>
  Scores in the order in which one worker computes them, each with the clock reading of its
  velocity check. When the clock does not go back, the window of an account holds exactly the
  readings of its transactions that are not older than the window.
\<close>

definition record_all :: "(transaction \<times> int) list \<Rightarrow> scorer \<Rightarrow> scorer" where
  "record_all hist s = fold (\<lambda>(txn, now) s. snd (record_and_count txn now s)) hist s"

definition times_of :: "string \<Rightarrow> (transaction \<times> int) list \<Rightarrow> int list" where
  "times_of a hist = map snd (filter (\<lambda>(txn, now). txn_account_id txn = a) hist)"

lemma dropWhile_sorted: "sorted xs \<Longrightarrow> dropWhile (\<lambda>t. t < c) xs = filter (\<lambda>t. c \<le> t) xs" for c :: int
proof (induction xs)
  case (Cons x xs)
  show ?case
  proof (cases "x < c")
    case False
    then have "\<And>y. y \<in> set (x # xs) \<Longrightarrow> c \<le> y" using Cons.prems by fastforce
    then show ?thesis using False by (simp add: filter_id_conv [THEN iffD2])
  qed (use Cons in simp)
qed simp

lemma sorted_times_of: "sorted (map snd hist) \<Longrightarrow> sorted (times_of a hist)"
  unfolding times_of_def by (induction hist) (auto simp: image_iff)

lemma record_all_snoc: "record_all (hist @ [(txn, now)]) s = snd (record_and_count txn now (record_all hist s))"
  by (simp add: record_all_def)

lemma record_all_config: "rs_config (record_all hist s) = rs_config s"
  by (induction hist rule: rev_induct) (auto simp: record_all_snoc record_and_count_def record_all_def [of "[]"] Let_def)

lemma record_all_window:
  assumes "sorted (map snd hist)" "rs_recent s = []"
  defines "W \<equiv> timedelta_seconds (cf_velocity_window_seconds (rs_config s))"
  shows "dict_get_default (rs_recent (record_all hist s)) a [] = filter (\<lambda>t. last (times_of a hist) - W \<le> t) (times_of a hist)"
  using assms(1)
proof (induction hist arbitrary: a rule: rev_induct)
  case Nil
  then show ?case using assms(2) by (simp add: record_all_def times_of_def dict_get_default_def)
next
  case (snoc x hist)
  obtain txn now where x: "x = (txn, now)" by force
  let ?b = "txn_account_id txn"
  let ?ts = "times_of ?b hist"
  have hist: "sorted (map snd hist)" and le: "\<And>t. t \<in> snd ` set hist \<Longrightarrow> t \<le> now"
    using snoc.prems by (auto simp: x sorted_append)
  have srt: "sorted (?ts @ [now])"
    using sorted_times_of [OF hist] le by (auto simp: sorted_append times_of_def)
  have "last ?ts \<le> now" if "?ts \<noteq> []"
    using srt last_in_set [OF that] by (simp add: sorted_append)
  then have narrower: "filter (\<lambda>t. now - W \<le> t) (filter (\<lambda>t. last ?ts - W \<le> t) ?ts) = filter (\<lambda>t. now - W \<le> t) ?ts"
    by (cases "?ts = []") (auto intro!: filter_cong)
  have "sorted (filter (\<lambda>t. last ?ts - W \<le> t) ?ts @ [now])"
    using srt by (simp add: sorted_append sorted_wrt_filter)
  then have "dropWhile (\<lambda>t. t < now - W) (filter (\<lambda>t. last ?ts - W \<le> t) ?ts @ [now]) = filter (\<lambda>t. now - W \<le> t) (?ts @ [now])"
    using dropWhile_sorted narrower by simp
  then show ?case
    using snoc.IH [OF hist] by (simp add: x record_all_snoc record_and_count_def Let_def record_all_config W_def times_of_def dict_get_default_def)
qed

lemma velocity_count:
  assumes "sorted (map snd (hist @ [(txn, now)]))" "rs_recent s = []"
  shows "fst (record_and_count txn now (record_all hist s)) =
    int (length (filter (\<lambda>t. now - timedelta_seconds (cf_velocity_window_seconds (rs_config s)) \<le> t)
      (times_of (txn_account_id txn) (hist @ [(txn, now)]))))"
proof -
  have "fst (record_and_count txn now s') =
      int (length (dict_get_default (rs_recent (snd (record_and_count txn now s'))) (txn_account_id txn) []))" for s'
    by (simp add: record_and_count_def Let_def dict_get_default_def)
  then show ?thesis
    using record_all_window [OF assms, of "txn_account_id txn"] by (simp add: record_all_snoc times_of_def)
qed

section \<open>The worker's turn\<close>

definition offset_of :: "consumer_group \<Rightarrow> transaction partitioned_log \<Rightarrow> int \<Rightarrow> int" where
  "offset_of g l p = dict_get_default (pl_committed l) (cg_group_id g, p) 0"

definition room :: "out_queue \<Rightarrow> int \<Rightarrow> bool" where
  "room q n \<longleftrightarrow> q_maxsize q \<le> 0 \<or> int (length (q_items q)) + n \<le> q_maxsize q"

text \<open>The records of a partition that come next for the group.\<close>

definition next_records :: "consumer_group \<Rightarrow> transaction partitioned_log \<Rightarrow> int \<Rightarrow> nat \<Rightarrow> transaction log_record list" where
  "next_records g l p n = take n (drop (nat (offset_of g l p)) (pl_partitions l ! nat p))"

definition same_but_offsets :: "worker_state \<Rightarrow> worker_state \<Rightarrow> bool" where
  "same_but_offsets ws ws' \<longleftrightarrow> pl_partitions (ws_log ws') = pl_partitions (ws_log ws) \<and>
     rs_config (ws_scorer ws') = rs_config (ws_scorer ws) \<and> q_maxsize (ws_queue ws') = q_maxsize (ws_queue ws)"

definition drained ::
  "consumer_group \<Rightarrow> int \<Rightarrow> transaction log_record list \<Rightarrow> worker_state \<Rightarrow> scored_transaction list \<Rightarrow> worker_state \<Rightarrow> bool" where
  "drained g p rs ws new ws' \<longleftrightarrow>
     map sc_transaction new = map lr_value rs \<and> q_items (ws_queue ws') = q_items (ws_queue ws) @ new \<and>
     same_but_offsets ws ws' \<and>
     (\<forall>q. offset_of g (ws_log ws') q = (if q = p then offset_of g (ws_log ws) p + int (length rs) else offset_of g (ws_log ws) q))"

lemma process_records_ok:
  assumes "weights_ok (rs_config (ws_scorer ws))" "0 \<le> p" "p < num_partitions (ws_log ws)"
    and "\<And>i. i < length rs \<Longrightarrow> lr_partition (rs ! i) = p \<and> lr_offset (rs ! i) = offset_of g (ws_log ws) p + int i"
    and "room (ws_queue ws) (int (length rs))"
  shows "\<exists>new ws'. process_records clock g rs cap produced ws = Inr (cap - int (length rs), produced @ new, ws') \<and>
    drained g p rs ws new ws'"
  using assms
proof (induction rs arbitrary: cap produced ws)
  case Nil
  then show ?case by (auto simp: drained_def same_but_offsets_def)
next
  case (Cons r rs)
  have r: "lr_partition r = p" "lr_offset r = offset_of g (ws_log ws) p" using Cons.prems(4) [of 0] by auto
  obtain fs sc where sc: "score (lr_value r) (clock (ws_reads ws)) (clock (ws_reads ws + 1)) (ws_scorer ws) = (Inr fs, sc)"
    and cfg: "rs_config sc = rs_config (ws_scorer ws)"
    using score_result [OF Cons.prems(1)] score_keeps by (metis snd_conv)
  let ?x = "\<lparr>sc_transaction = lr_value r, sc_score = fs\<rparr>"
  let ?q = "(ws_queue ws)\<lparr>q_items := q_items (ws_queue ws) @ [?x]\<rparr>"
  have put: "put_nowait ?x (ws_queue ws) = Inr ?q"
    using Cons.prems(5) by (auto simp: put_nowait_def room_def)
  obtain l where l: "group_commit g r (ws_log ws) = Inr l"
    using Cons.prems(2,3) by (auto simp: group_commit_def commit_offset_def r check_partition_def Let_def)
  let ?ws = "\<lparr>ws_log = l, ws_scorer = sc, ws_queue = ?q, ws_reads = ws_reads ws + 2\<rparr>"
  have parts: "pl_partitions l = pl_partitions (ws_log ws)"
    and offs: "\<And>q. offset_of g l q = (if q = p then offset_of g (ws_log ws) p + 1 else offset_of g (ws_log ws) q)"
    using l Cons.prems(2,3)
    by (auto simp: group_commit_def commit_offset_def check_partition_def r Let_def offset_of_def dict_get_default_def)
  have "\<exists>new ws'. process_records clock g rs (cap - 1) (produced @ [?x]) ?ws =
      Inr (cap - 1 - int (length rs), (produced @ [?x]) @ new, ws') \<and> drained g p rs ?ws new ws'"
  proof (rule Cons.IH)
    fix i assume "i < length rs"
    then show "lr_partition (rs ! i) = p \<and> lr_offset (rs ! i) = offset_of g (ws_log ?ws) p + int i"
      using Cons.prems(4) [of "Suc i"] offs by simp
  qed (use Cons.prems cfg parts in \<open>auto simp: num_partitions_def room_def\<close>)
  then obtain new ws' where n: "process_records clock g rs (cap - 1) (produced @ [?x]) ?ws =
      Inr (cap - 1 - int (length rs), (produced @ [?x]) @ new, ws')" "drained g p rs ?ws new ws'"
    by blast
  have "process_records clock g (r # rs) cap produced ws = Inr (cap - int (length (r # rs)), produced @ (?x # new), ws')"
    using sc put l n(1) by (simp add: Let_def)
  moreover have "drained g p (r # rs) ws (?x # new) ws'"
    using n(2) parts cfg offs by (auto simp: drained_def same_but_offsets_def)
  ultimately show ?case by blast
qed

definition offsets_ok :: "consumer_group \<Rightarrow> transaction partitioned_log \<Rightarrow> bool" where
  "offsets_ok g l \<longleftrightarrow> (\<forall>p. 0 \<le> p \<longrightarrow> p < num_partitions l \<longrightarrow>
     0 \<le> offset_of g l p \<and> offset_of g l p \<le> int (length (pl_partitions l ! nat p)))"

lemma poll_partition_next:
  assumes "offsets_ok g l" "0 \<le> p" "p < num_partitions l" "0 \<le> cap"
  shows "poll_partition l g p cap = Inr (next_records g l p (nat cap))"
  using assms
  by (simp add: poll_partition_def committed_offset_def check_partition_def read_records_ok offsets_ok_def
      offset_of_def next_records_def)

lemma next_records_nth:
  assumes "log_ok l" "offsets_ok g l" "0 \<le> p" "p < num_partitions l" "i < length (next_records g l p n)"
  shows "lr_partition (next_records g l p n ! i) = p \<and> lr_offset (next_records g l p n ! i) = offset_of g l p + int i"
  using assms by (auto simp: next_records_def log_ok_def offsets_ok_def num_partitions_def nat_less_iff)

text \<open>
  What a turn does: the scored records are, partition by partition, the next records of the group,
  they are appended to the queue in that order, and the committed offset of a partition moves over
  exactly the records of it that were scored.
\<close>

definition turn :: "consumer_group \<Rightarrow> int list \<Rightarrow> int \<Rightarrow> worker_state \<Rightarrow> scored_transaction list \<Rightarrow> worker_state \<Rightarrow> bool" where
  "turn g ps cap ws new ws' \<longleftrightarrow> same_but_offsets ws ws' \<and> int (length new) \<le> cap \<and>
     q_items (ws_queue ws') = q_items (ws_queue ws) @ new \<and>
     (\<exists>k. (\<forall>p. offset_of g (ws_log ws') p = offset_of g (ws_log ws) p + int (k p)) \<and>
        (\<forall>p. p \<notin> set ps \<longrightarrow> k p = 0) \<and> (\<forall>p. k p = length (next_records g (ws_log ws) p (k p)) \<or> p \<notin> set ps) \<and>
        map sc_transaction new = concat (map (\<lambda>p. map lr_value (next_records g (ws_log ws) p (k p))) ps))"

lemma turn_nothing: "0 \<le> cap \<Longrightarrow> turn g ps cap ws [] ws"
  by (auto simp: turn_def same_but_offsets_def next_records_def intro!: exI [of _ "\<lambda>_. 0"])

lemma drained_ok:
  assumes "log_ok (ws_log ws)" "offsets_ok g (ws_log ws)" "0 \<le> p" "p < num_partitions (ws_log ws)"
    "drained g p (next_records g (ws_log ws) p n) ws new ws1"
  shows "log_ok (ws_log ws1)" "offsets_ok g (ws_log ws1)" "num_partitions (ws_log ws1) = num_partitions (ws_log ws)"
  using assms by (auto simp: drained_def same_but_offsets_def log_ok_def num_partitions_def offsets_ok_def next_records_def)

text \<open>A turn over one partition, and then over the others.\<close>

lemma turn_cons:
  assumes one: "drained g p (next_records g (ws_log ws) p n) ws new1 ws1"
    and two: "turn g ps (cap - int (length (next_records g (ws_log ws) p n))) ws1 new2 ws2" and notin: "p \<notin> set ps"
  shows "turn g (p # ps) cap ws (new1 @ new2) ws2"
proof -
  let ?rs = "next_records g (ws_log ws) p n"
  obtain k where k: "\<And>q. offset_of g (ws_log ws2) q = offset_of g (ws_log ws1) q + int (k q)" "\<And>q. q \<notin> set ps \<Longrightarrow> k q = 0"
    "\<And>q. k q = length (next_records g (ws_log ws1) q (k q)) \<or> q \<notin> set ps"
    "map sc_transaction new2 = concat (map (\<lambda>q. map lr_value (next_records g (ws_log ws1) q (k q))) ps)"
    using two by (auto simp: turn_def)
  let ?k = "\<lambda>q. if q = p then length ?rs else k q"
  have len: "length new1 = length ?rs" using one by (metis drained_def length_map)
  have next1: "next_records g (ws_log ws1) q n = next_records g (ws_log ws) q n" if "q \<noteq> p" for q n
    using one that by (simp add: drained_def next_records_def same_but_offsets_def)
  have rs: "next_records g (ws_log ws) p (length ?rs) = ?rs" by (simp add: next_records_def min_def)
  have "map sc_transaction (new1 @ new2) = concat (map (\<lambda>q. map lr_value (next_records g (ws_log ws) q (?k q))) (p # ps))"
    using one k(4) rs notin next1 by (auto simp: drained_def intro!: arg_cong [of _ _ concat] map_cong)
  moreover have "offset_of g (ws_log ws2) q = offset_of g (ws_log ws) q + int (?k q)" for q
    using k(1) [of q] one k(2) [OF notin] by (auto simp: drained_def)
  moreover have "?k q = length (next_records g (ws_log ws) q (?k q)) \<or> q \<notin> set (p # ps)" for q
    using k(3) [of q] next1 [of q] rs by auto
  ultimately show ?thesis
    using two one len k(2) unfolding turn_def same_but_offsets_def drained_def
    by (intro conjI exI [of _ ?k]) auto
qed

lemma run_partitions_ok:
  assumes "weights_ok (rs_config (ws_scorer ws))" "log_ok (ws_log ws)" "offsets_ok g (ws_log ws)"
    "distinct ps" "\<And>p. p \<in> set ps \<Longrightarrow> 0 \<le> p \<and> p < num_partitions (ws_log ws)"
    "room (ws_queue ws) cap" "0 \<le> cap"
  shows "\<exists>new ws'. run_partitions clock g ps cap produced ws = Inr (produced @ new, ws') \<and> turn g ps cap ws new ws'"
  using assms
proof (induction ps arbitrary: cap produced ws)
  case Nil
  then show ?case using turn_nothing by fastforce
next
  case (Cons p ps)
  show ?case
  proof (cases "cap \<le> 0")
    case True
    then show ?thesis using Cons.prems(7) turn_nothing by fastforce
  next
    case False
    let ?rs = "next_records g (ws_log ws) p (nat cap)"
    have p: "0 \<le> p" "p < num_partitions (ws_log ws)" using Cons.prems(5) by auto
    have len: "int (length ?rs) \<le> cap" using False by (simp add: next_records_def)
    obtain new1 ws1 where one: "process_records clock g ?rs cap produced ws = Inr (cap - int (length ?rs), produced @ new1, ws1)"
        "drained g p ?rs ws new1 ws1"
      using process_records_ok [OF Cons.prems(1) p, of ?rs g clock cap produced]
        next_records_nth [OF Cons.prems(2,3) p] Cons.prems(6) len by (auto simp: room_def)
    note ok1 = drained_ok [OF Cons.prems(2,3) p one(2)]
    have "length new1 = length ?rs" using one(2) by (metis drained_def length_map)
    then have "room (ws_queue ws1) (cap - int (length ?rs))" "weights_ok (rs_config (ws_scorer ws1))"
      using Cons.prems(1,6) one(2) by (auto simp: room_def drained_def same_but_offsets_def)
    then obtain new2 ws2 where two: "run_partitions clock g ps (cap - int (length ?rs)) (produced @ new1) ws1 = Inr ((produced @ new1) @ new2, ws2)"
        "turn g ps (cap - int (length ?rs)) ws1 new2 ws2"
      using Cons.IH [of ws1 "cap - int (length ?rs)" "produced @ new1"] Cons.prems(4,5) ok1 len by auto
    have "turn g (p # ps) cap ws (new1 @ new2) ws2"
      using Cons.prems(4) by (intro turn_cons [OF one(2) two(2)]) simp
    moreover have "run_partitions clock g (p # ps) cap produced ws = Inr (produced @ new1 @ new2, ws2)"
      using False poll_partition_next [OF Cons.prems(3) p, of cap] one(1) two(1) by simp
    ultimately show ?thesis by blast
  qed
qed

lemma worker_run_once_ok:
  assumes "weights_ok (rs_config (ws_scorer ws))" "log_ok (ws_log ws)" "offsets_ok g (ws_log ws)"
    "balanced g" "cg_num_partitions g = num_partitions (ws_log ws)" "m \<in> set (group_members g)"
  shows "\<exists>new ws'. worker_run_once clock g m max_batch ws = Inr (new, ws') \<and>
    turn g (assignment_for m g) (max 0 (available_capacity max_batch (ws_queue ws))) ws new ws'"
proof (cases "available_capacity max_batch (ws_queue ws) \<le> 0")
  case True
  then show ?thesis
    by (auto simp: worker_run_once_def turn_def same_but_offsets_def next_records_def intro!: exI [of _ "\<lambda>_. 0"])
next
  case False
  let ?cap = "available_capacity max_batch (ws_queue ws)"
  have "\<exists>new ws'. run_partitions clock g (assignment_for m g) ?cap [] ws = Inr ([] @ new, ws') \<and>
      turn g (assignment_for m g) ?cap ws new ws'"
  proof (rule run_partitions_ok [OF assms(1-3)])
    show "distinct (assignment_for m g)" "\<And>p. p \<in> set (assignment_for m g) \<Longrightarrow> 0 \<le> p \<and> p < num_partitions (ws_log ws)"
      using assms(4-6) by (auto simp: balanced_def)
    show "room (ws_queue ws) ?cap" using False by (auto simp: room_def available_capacity_def split: if_splits)
  qed (use False in simp)
  then show ?thesis using False by (simp add: worker_run_once_def)
qed

lemma turn_offsets_ok:
  assumes "offsets_ok g (ws_log ws)" "turn g ps cap ws new ws'"
  shows "offsets_ok g (ws_log ws')"
  unfolding offsets_ok_def
proof (intro allI impI)
  fix p assume p: "0 \<le> p" "p < num_partitions (ws_log ws')"
  obtain k where k: "offset_of g (ws_log ws') p = offset_of g (ws_log ws) p + int (k p)"
    "p \<notin> set ps \<longrightarrow> k p = 0" "k p = length (next_records g (ws_log ws) p (k p)) \<or> p \<notin> set ps"
    and same: "same_but_offsets ws ws'"
    using assms(2) by (auto simp: turn_def)
  have "k p \<le> length (drop (nat (offset_of g (ws_log ws) p)) (pl_partitions (ws_log ws) ! nat p))"
    using k(2,3) by (auto simp: next_records_def)
  then show "0 \<le> offset_of g (ws_log ws') p \<and> offset_of g (ws_log ws') p \<le> int (length (pl_partitions (ws_log ws') ! nat p))"
    using assms(1) k(1) p same by (auto simp: offsets_ok_def same_but_offsets_def num_partitions_def)
qed

text \<open>
  The room for a turn is read once, at its start. When the queue is shared and another worker fills
  it in between, the turn raises on the first record it scores.
\<close>

lemma shared_queue_full:
  assumes "weights_ok (rs_config (ws_scorer ws))" "log_ok (ws_log ws)" "offsets_ok g (ws_log ws)"
    "0 \<le> p" "p < num_partitions (ws_log ws)" "0 < cap" "next_records g (ws_log ws) p (nat cap) \<noteq> []"
    "0 < q_maxsize (ws_queue ws)" "q_maxsize (ws_queue ws) \<le> int (length (q_items (ws_queue ws)))"
  shows "run_partitions clock g (p # ps) cap [] ws = Inl QueueFull"
proof -
  obtain r rs where rs: "next_records g (ws_log ws) p (nat cap) = r # rs" using assms(7) by (cases "next_records g (ws_log ws) p (nat cap)") auto
  obtain fs sc where "score (lr_value r) (clock (ws_reads ws)) (clock (ws_reads ws + 1)) (ws_scorer ws) = (Inr fs, sc)"
    using score_result [OF assms(1)] by metis
  then show ?thesis
    using assms(6,8,9) poll_partition_next [OF assms(3-5), of cap] rs by (simp add: put_nowait_def Let_def)
qed

section \<open>Properties\<close>

definition demo_txn :: transaction where
  "demo_txn = \<lparr>txn_account_id = ''acct'', txn_type = DEBIT, txn_amount = Dec 25 0, txn_counterparty = None,
     txn_currency = ''USD'', txn_region = ''us-east-1'', txn_status = PENDING, txn_id = ''t1'', txn_created_at = 0, txn_metadata = []\<rparr>"

definition demo_scorer :: scorer where
  "demo_scorer = RuleBasedScorer ''fraud-0'' ScorerConfig"

definition demo_members :: consumer_group where
  "demo_members = \<lparr>cg_group_id = ''fraud-workers'', cg_num_partitions = 1, cg_session_timeout = 1,
     cg_members = [(''fraud-0'', \<lparr>ms_member_id = ''fraud-0'', ms_last_heartbeat = 0\<rparr>)], cg_assignment = [(''fraud-0'', [0])]\<rparr>"

definition demo_records :: "transaction partitioned_log" where
  "demo_records = \<lparr>pl_topic = ''transactions'',
     pl_partitions = [[\<lparr>lr_partition = 0, lr_offset = 0, lr_key = ''acct'', lr_value = demo_txn, lr_produced_at = 0\<rparr>]], pl_committed = []\<rparr>"

definition demo_worker :: worker_state where
  "demo_worker = \<lparr>ws_log = demo_records, ws_scorer = demo_scorer, ws_queue = \<lparr>q_maxsize = 1, q_items = []\<rparr>, ws_reads = 0\<rparr>"

definition demo_crowded :: worker_state where
  "demo_crowded = demo_worker\<lparr>ws_queue := \<lparr>q_maxsize = 1, q_items = [\<lparr>sc_transaction = demo_txn, sc_score =
     \<lparr>fs_transaction_id = ''t0'', fs_worker_id = ''fraud-1'', fs_score = 0, fs_is_fraud = False, fs_reasons = [], fs_scored_at = 0\<rparr>\<rparr>]\<rparr>\<rparr>"

lemma demo_worker_ok:
  "weights_ok (rs_config (ws_scorer demo_worker))" "log_ok (ws_log demo_worker)" "offsets_ok demo_members (ws_log demo_worker)"
  "balanced demo_members" "cg_num_partitions demo_members = num_partitions (ws_log demo_worker)" "''fraud-0'' \<in> set (group_members demo_members)"
  "num_partitions (ws_log demo_worker) = 1"
  by (simp_all add: demo_worker_def demo_scorer_def RuleBasedScorer_def ScorerConfig_def weights_ok_def demo_records_def log_ok_def
      num_partitions_def offsets_ok_def offset_of_def dict_get_default_def balanced_def demo_members_def group_members_def
      assignment_for_def owner_of_def)

text \<open>
  The scorer never raises when no weight is negative: the score is the sum of the weights of the
  rules that fire, capped at one, and the flag says whether it reaches the threshold.
\<close>

lemma score_total:
  assumes "weights_ok (rs_config s)"
  shows "\<exists>fs. score txn now scored_at s = (Inr fs, snd (record_and_count txn now s)) \<and>
    fs_transaction_id fs = txn_id txn \<and> fs_worker_id fs = rs_worker_id s \<and> 0 \<le> fs_score fs \<and> fs_score fs \<le> 1 \<and>
    fs_score fs = min (rule_weight (rs_config s) txn (fst (record_and_count txn now s))) 1 \<and>
    (fs_is_fraud fs \<longleftrightarrow> cf_fraud_threshold (rs_config s) \<le> fs_score fs)"
  using score_result [OF assms, of txn now scored_at] by blast

text \<open>
  With the default configuration a transaction is flagged exactly when its amount is 10000 or more,
  its device is flagged, or it is at least the sixth of its account in the window.
\<close>

lemma default_flagging:
  assumes "rs_config s = ScorerConfig" "score txn now scored_at s = (Inr fs, s')"
  shows "fs_is_fraud fs \<longleftrightarrow> 10000 \<le> dec_val (txn_amount txn) \<or>
    dict_get (txn_metadata txn) ''device_flagged'' = Some ''true'' \<or> 6 \<le> fst (record_and_count txn now s)"
  using default_rules [OF assms] by auto

text \<open>
  C34: The velocity a worker's scorer sees is the number of transactions of the account, this one
  included, whose reading is at most one window old, as long as the clock does not go back.
\<close>

theorem velocity_window:
  assumes "sorted (map snd (hist @ [(txn, now)]))"
  shows "fst (record_and_count txn now (record_all hist (RuleBasedScorer wid config))) =
    int (length (filter (\<lambda>t. now - timedelta_seconds (cf_velocity_window_seconds config) \<le> t)
      (times_of (txn_account_id txn) (hist @ [(txn, now)]))))"
  using velocity_count [OF assms, of "RuleBasedScorer wid config"] by (simp add: RuleBasedScorer_def)

theorem velocity_window_witness:
  "fst (record_and_count demo_txn 70000000 (record_all [(demo_txn, 0), (demo_txn, 20000000)] (RuleBasedScorer ''fraud-0'' ScorerConfig))) =
    int (length (filter (\<lambda>t. 70000000 - timedelta_seconds (cf_velocity_window_seconds ScorerConfig) \<le> t)
      (times_of ''acct'' [(demo_txn, 0), (demo_txn, 20000000), (demo_txn, 70000000)])))"
  using velocity_window [of "[(demo_txn, 0), (demo_txn, 20000000)]" demo_txn 70000000 "''fraud-0''" ScorerConfig]
  by (simp add: demo_txn_def)



text \<open>
  C37: The room for a turn is read once, at its start. When another worker fills the shared queue in
  between, the turn raises queue.Full on the first record it scores, and the record is not committed.
\<close>

theorem shared_queue_raises:
  assumes "weights_ok (rs_config (ws_scorer ws))" "log_ok (ws_log ws)" "offsets_ok g (ws_log ws)"
    "0 \<le> p" "p < num_partitions (ws_log ws)" "0 < cap" "next_records g (ws_log ws) p (nat cap) \<noteq> []"
    "0 < q_maxsize (ws_queue ws)" "q_maxsize (ws_queue ws) \<le> int (length (q_items (ws_queue ws)))"
  shows "run_partitions clock g (p # ps) cap [] ws = Inl QueueFull"
  by (rule shared_queue_full [OF assms])

theorem shared_queue_raises_witness:
  "available_capacity 50 (ws_queue demo_worker) = 1 \<and>
   run_partitions (\<lambda>k. int k) demo_members [0] 1 [] demo_crowded = Inl QueueFull"
proof -
  have "next_records demo_members (ws_log demo_crowded) 0 (nat 1) \<noteq> []"
    by (simp add: next_records_def offset_of_def demo_crowded_def demo_worker_def demo_records_def dict_get_default_def)
  then have "run_partitions (\<lambda>k. int k) demo_members [0] 1 [] demo_crowded = Inl QueueFull"
    using demo_worker_ok by (intro shared_queue_raises) (simp_all add: demo_crowded_def)
  then show ?thesis by (simp add: available_capacity_def demo_worker_def)
qed

end
