(* ===== verification/Fraud_Threads.thy ===== *)
theory Fraud_Threads
  imports Fraud
begin

text \<open>
  The threads of the fraud stage (coordinator/fraud_runtime.py): each drives one worker over the shared
  log, group and queue. A step of a thread is what it does between two of the locks it takes, so that the
  steps of all threads, of the health check and of the producers may interleave in any order.
\<close>

section \<open>Threads\<close>

text \<open>Where a thread stands: before its loop, at the head of the loop, and inside \<open>run_once\<close>.\<close>

datatype worker_pc =
    Idle
  | Turn
  | Capacity
  | Assigned int
  | Partitions "int list" int
  | ReadAt int int "int list" int
  | Records "transaction log_record list" "int list" int
  | Committing "transaction log_record" "transaction log_record list" "int list" int
  | Died py_error

record worker_thread =
  wt_member :: string
  wt_scorer :: scorer
  wt_max_batch :: int
  wt_heartbeat_interval :: rat
  wt_last_heartbeat :: rat
  wt_stop :: bool
  wt_pc :: worker_pc

text \<open>What the threads share. \<open>pi_taken\<close> are the items that were taken from the queue, in order; no operation reads it.\<close>

record pipeline =
  pi_log :: "transaction partitioned_log"
  pi_group :: consumer_group
  pi_queue :: out_queue
  pi_taken :: "scored_transaction list"

definition FraudWorkerRuntime :: "string \<Rightarrow> scorer \<Rightarrow> worker_thread" where
  "FraudWorkerRuntime member scorer =
     \<lparr>wt_member = member, wt_scorer = scorer, wt_max_batch = 50, wt_heartbeat_interval = 5/100, wt_last_heartbeat = 0,
      wt_stop = False, wt_pc = Idle\<rparr>"

definition runtime_member_id :: "worker_thread \<Rightarrow> string" where
  [simp]: "runtime_member_id th = wt_member th"

text \<open>\<open>start\<close> joins the group and starts the thread; \<open>stop\<close> asks it to end at the head of its loop.\<close>

definition runtime_start_worker :: "rat \<Rightarrow> worker_thread \<Rightarrow> pipeline \<Rightarrow> (worker_thread \<times> pipeline) result" where
  "runtime_start_worker now th pl =
     rbind (worker_join (runtime_member_id th) now (pi_group pl)) (\<lambda>(ps, g).
       Inr (th\<lparr>wt_stop := False, wt_last_heartbeat := 0, wt_pc := Turn\<rparr>, pl\<lparr>pi_group := g\<rparr>))"

definition runtime_stop_worker :: "worker_thread \<Rightarrow> worker_thread" where
  "runtime_stop_worker th = th\<lparr>wt_stop := True\<rparr>"

text \<open>The clock readings of a step: the loop's, the group's, and the two of a score.\<close>

record readings =
  rd_now :: rat
  rd_group :: rat
  rd_score :: int
  rd_scored_at :: int

definition die :: "py_error \<Rightarrow> worker_thread \<Rightarrow> worker_thread" where
  "die e th = th\<lparr>wt_pc := Died e\<rparr>"

definition thread_step :: "readings \<Rightarrow> worker_thread \<times> pipeline \<Rightarrow> worker_thread \<times> pipeline" where
  "thread_step rd tp = (case tp of (th, pl) \<Rightarrow>
     (case wt_pc th of
        Idle \<Rightarrow> (th, pl)
      | Died e \<Rightarrow> (th, pl)
      | Turn \<Rightarrow>
          if wt_stop th then (th\<lparr>wt_pc := Idle\<rparr>, pl)
          else if rd_now rd - wt_last_heartbeat th \<ge> wt_heartbeat_interval th then
            (case worker_heartbeat (wt_member th) (rd_group rd) (pi_group pl) of
               Inl e \<Rightarrow> (die e th, pl)
             | Inr g \<Rightarrow> (th\<lparr>wt_last_heartbeat := rd_now rd, wt_pc := Capacity\<rparr>, pl\<lparr>pi_group := g\<rparr>))
          else (th\<lparr>wt_pc := Capacity\<rparr>, pl)
      | Capacity \<Rightarrow>
          (let capacity = available_capacity (wt_max_batch th) (pi_queue pl)
           in (th\<lparr>wt_pc := if capacity \<le> 0 then Turn else Assigned capacity\<rparr>, pl))
      | Assigned capacity \<Rightarrow> (th\<lparr>wt_pc := Partitions (assigned_partitions (wt_member th) (pi_group pl)) capacity\<rparr>, pl)
      | Partitions [] capacity \<Rightarrow> (th\<lparr>wt_pc := Turn\<rparr>, pl)
      | Partitions (p # ps) capacity \<Rightarrow>
          if capacity \<le> 0 then (th\<lparr>wt_pc := Turn\<rparr>, pl)
          else
            (case committed_offset (cg_group_id (pi_group pl)) p (pi_log pl) of
               Inl e \<Rightarrow> (die e th, pl)
             | Inr offset \<Rightarrow> (th\<lparr>wt_pc := ReadAt p offset ps capacity\<rparr>, pl))
      | ReadAt p offset ps capacity \<Rightarrow>
          (case read_records p offset capacity (pi_log pl) of
             Inl e \<Rightarrow> (die e th, pl)
           | Inr records \<Rightarrow> (th\<lparr>wt_pc := Records records ps capacity\<rparr>, pl))
      | Records [] ps capacity \<Rightarrow> (th\<lparr>wt_pc := Partitions ps capacity\<rparr>, pl)
      | Records (r # rs) ps capacity \<Rightarrow>
          (let (sc, scorer) = score (lr_value r) (rd_score rd) (rd_scored_at rd) (wt_scorer th);
               th = th\<lparr>wt_scorer := scorer\<rparr>
           in case rbind sc (\<lambda>sc. put_nowait \<lparr>sc_transaction = lr_value r, sc_score = sc\<rparr> (pi_queue pl)) of
                Inl e \<Rightarrow> (die e th, pl)
              | Inr q \<Rightarrow> (th\<lparr>wt_pc := Committing r rs ps capacity\<rparr>, pl\<lparr>pi_queue := q\<rparr>))
      | Committing r rs ps capacity \<Rightarrow>
          (case group_commit (pi_group pl) r (pi_log pl) of
             Inl e \<Rightarrow> (die e th, pl)
           | Inr l \<Rightarrow> (th\<lparr>wt_pc := Records rs ps (capacity - 1)\<rparr>, pl\<lparr>pi_log := l\<rparr>))))"

section \<open>Nothing below a committed offset is missing\<close>

abbreviation part :: "pipeline \<Rightarrow> int \<Rightarrow> transaction log_record list" where
  "part pl p \<equiv> pl_partitions (pi_log pl) ! nat p"

abbreviation in_range :: "pipeline \<Rightarrow> int \<Rightarrow> bool" where
  "in_range pl p \<equiv> 0 \<le> p \<and> p < num_partitions (pi_log pl)"

definition handed_on :: "pipeline \<Rightarrow> scored_transaction list" where
  "handed_on pl = pi_taken pl @ q_items (pi_queue pl)"

text \<open>The first \<open>n\<close> records of a partition were all handed on.\<close>

definition delivered :: "pipeline \<Rightarrow> int \<Rightarrow> nat \<Rightarrow> bool" where
  "delivered pl p n \<longleftrightarrow> n \<le> length (part pl p) \<and>
     (\<forall>r \<in> set (take n (part pl p)). lr_value r \<in> sc_transaction ` set (handed_on pl))"

definition pc_ok :: "pipeline \<Rightarrow> worker_pc \<Rightarrow> bool" where
  "pc_ok pl pc \<longleftrightarrow>
     (case pc of
        Partitions ps capacity \<Rightarrow> list_all (in_range pl) ps
      | Assigned capacity \<Rightarrow> 0 < capacity
      | ReadAt p offset ps capacity \<Rightarrow> in_range pl p \<and> list_all (in_range pl) ps \<and> 0 \<le> offset \<and> 0 < capacity \<and> delivered pl p (nat offset)
      | Records rs ps capacity \<Rightarrow> list_all (in_range pl) ps \<and>
          (\<exists>p n. in_range pl p \<and> delivered pl p n \<and> prefix rs (drop n (part pl p)))
      | Committing r rs ps capacity \<Rightarrow> list_all (in_range pl) ps \<and>
          (\<exists>p n. in_range pl p \<and> delivered pl p (Suc n) \<and> prefix (r # rs) (drop n (part pl p)))
      | Died e \<Rightarrow> e = ValueError \<or> e = QueueFull
      | _ \<Rightarrow> True)"

definition from_log :: "pipeline \<Rightarrow> bool" where
  "from_log pl \<longleftrightarrow> (\<forall>s \<in> set (handed_on pl). \<exists>rs \<in> set (pl_partitions (pi_log pl)). sc_transaction s \<in> lr_value ` set rs)"

definition pipeline_ok :: "pipeline \<Rightarrow> bool" where
  "pipeline_ok pl \<longleftrightarrow> log_ok (pi_log pl) \<and> balanced (pi_group pl) \<and>
     cg_num_partitions (pi_group pl) = num_partitions (pi_log pl) \<and> from_log pl \<and>
     (\<forall>p. in_range pl p \<longrightarrow> 0 \<le> offset_of (pi_group pl) (pi_log pl) p \<and> delivered pl p (nat (offset_of (pi_group pl) (pi_log pl) p)))"

definition thread_ok :: "pipeline \<Rightarrow> worker_thread \<Rightarrow> bool" where
  "thread_ok pl th \<longleftrightarrow> weights_ok (rs_config (wt_scorer th)) \<and> pc_ok pl (wt_pc th)"

text \<open>Logs and the list of what was handed on only grow.\<close>

definition pipe_grows :: "pipeline \<Rightarrow> pipeline \<Rightarrow> bool" where
  "pipe_grows pl pl' \<longleftrightarrow> num_partitions (pi_log pl') = num_partitions (pi_log pl) \<and>
     (\<forall>p. in_range pl p \<longrightarrow> prefix (part pl p) (part pl' p)) \<and> set (handed_on pl) \<subseteq> set (handed_on pl')"

lemma pipe_grows_refl [simp]: "pipe_grows pl pl"
  by (simp add: pipe_grows_def)

lemma pipe_grows_trans: "pipe_grows pl pl1 \<Longrightarrow> pipe_grows pl1 pl2 \<Longrightarrow> pipe_grows pl pl2"
  by (auto simp: pipe_grows_def intro: prefix_order.trans)

lemma delivered_grows: "pipe_grows pl pl' \<Longrightarrow> in_range pl p \<Longrightarrow> delivered pl p n \<Longrightarrow> delivered pl' p n"
  by (fastforce simp: pipe_grows_def delivered_def prefix_def)

lemma prefix_drop_grows:
  assumes "prefix xs ys" "n \<le> length xs" "prefix rs (drop n xs)"
  shows "prefix rs (drop n ys)"
  using assms by (auto simp: prefix_def)

lemma pc_ok_grows:
  assumes g: "pipe_grows pl pl'" and ok: "pc_ok pl pc"
  shows "pc_ok pl' pc"
proof -
  have n: "num_partitions (pi_log pl') = num_partitions (pi_log pl)" using g by (simp add: pipe_grows_def)
  have pre: "prefix rs (drop n (part pl' p))" if "in_range pl p" "delivered pl p k" "n \<le> k" "prefix rs (drop n (part pl p))" for p n k rs
    using prefix_drop_grows [of "part pl p" "part pl' p" n rs] g that by (auto simp: pipe_grows_def delivered_def)
  show ?thesis
    using ok delivered_grows [OF g] pre
    by (cases pc) (auto simp: pc_ok_def n list_all_iff, blast, metis le_Suc_eq order_refl)
qed

lemma thread_ok_grows: "pipe_grows pl pl' \<Longrightarrow> thread_ok pl th \<Longrightarrow> thread_ok pl' th"
  by (simp add: thread_ok_def pc_ok_grows)

section \<open>What changes the pipeline\<close>

lemma pipeline_ok_group:
  assumes "pipeline_ok pl" "balanced g" "cg_num_partitions g = cg_num_partitions (pi_group pl)" "cg_group_id g = cg_group_id (pi_group pl)"
  shows "pipeline_ok (pl\<lparr>pi_group := g\<rparr>)" "pipe_grows pl (pl\<lparr>pi_group := g\<rparr>)"
  using assms by (simp_all add: pipeline_ok_def pipe_grows_def handed_on_def from_log_def delivered_def offset_of_def)

lemma group_ops_keep:
  assumes "balanced g"
  shows "heartbeat m now g = Inr g1 \<Longrightarrow> balanced g1 \<and> cg_num_partitions g1 = cg_num_partitions g \<and> cg_group_id g1 = cg_group_id g"
    and "heartbeat m now g = Inl e \<Longrightarrow> e = ValueError \<and> m \<notin> set (group_members g)"
    and "join m now g = Inr (ps, g2) \<Longrightarrow> balanced g2 \<and> cg_num_partitions g2 = cg_num_partitions g \<and> cg_group_id g2 = cg_group_id g"
    and "check_expired_members now g = (ms, g3) \<Longrightarrow> balanced g3 \<and> cg_num_partitions g3 = cg_num_partitions g \<and> cg_group_id g3 = cg_group_id g"
  using heartbeat_ok [OF assms, of m now] join_ok [OF assms, of m now] check_expired_ok [OF assms, of now ms g3]
  by (auto simp: heartbeat_def split: sum.splits option.splits)

lemma pipeline_ok_put:
  assumes ok: "pipeline_ok pl" and p: "in_range pl p" and r: "r \<in> set (part pl p)"
    and put: "put_nowait \<lparr>sc_transaction = lr_value r, sc_score = fs\<rparr> (pi_queue pl) = Inr q"
  shows "pipeline_ok (pl\<lparr>pi_queue := q\<rparr>)" "pipe_grows pl (pl\<lparr>pi_queue := q\<rparr>)"
    "lr_value r \<in> sc_transaction ` set (handed_on (pl\<lparr>pi_queue := q\<rparr>))"
proof -
  let ?pl = "pl\<lparr>pi_queue := q\<rparr>"
  have h: "handed_on ?pl = handed_on pl @ [\<lparr>sc_transaction = lr_value r, sc_score = fs\<rparr>]"
    using put by (auto simp: put_nowait_def handed_on_def split: if_splits)
  then show g: "pipe_grows pl ?pl" by (simp add: pipe_grows_def) blast
  show "lr_value r \<in> sc_transaction ` set (handed_on ?pl)" by (simp add: h)
  have "part pl p \<in> set (pl_partitions (pi_log pl))" using p by (simp add: num_partitions_def nat_less_iff)
  then have "from_log ?pl" using ok r by (auto simp: pipeline_ok_def from_log_def h)
  then show "pipeline_ok ?pl" using ok delivered_grows [OF g] by (simp add: pipeline_ok_def)
qed

lemma delivered_log: "pl_partitions l = pl_partitions (pi_log pl) \<Longrightarrow> delivered (pl\<lparr>pi_log := l\<rparr>) p n \<longleftrightarrow> delivered pl p n"
  by (simp add: delivered_def handed_on_def)

lemma pipeline_ok_commit:
  assumes ok: "pipeline_ok pl" and p: "in_range pl p" and r: "n < length (part pl p)" "r = part pl p ! n"
    and del: "delivered pl p (Suc n)"
  obtains l where "group_commit (pi_group pl) r (pi_log pl) = Inr l" "pipeline_ok (pl\<lparr>pi_log := l\<rparr>)" "pipe_grows pl (pl\<lparr>pi_log := l\<rparr>)"
    "pl_partitions l = pl_partitions (pi_log pl)"
proof -
  let ?g = "pi_group pl"
  have "nat p < length (pl_partitions (pi_log pl))" using p by (simp add: num_partitions_def nat_less_iff)
  then have pos: "lr_partition r = p" "lr_offset r = int n"
    using ok r p by (auto simp: pipeline_ok_def log_ok_def)
  obtain l where l: "group_commit ?g r (pi_log pl) = Inr l"
    using p by (simp add: group_commit_def commit_offset_def check_partition_def pos Let_def)
  have parts: "pl_partitions l = pl_partitions (pi_log pl)"
    and offs: "\<And>q. offset_of ?g l q = (if q = p then max (offset_of ?g (pi_log pl) p) (int n + 1) else offset_of ?g (pi_log pl) q)"
    using l p by (auto simp: group_commit_def commit_offset_def check_partition_def pos Let_def offset_of_def dict_get_default_def)
  have np: "num_partitions l = num_partitions (pi_log pl)" by (simp add: num_partitions_def parts)
  have "0 \<le> offset_of ?g l q \<and> delivered pl q (nat (offset_of ?g l q))" if "in_range pl q" for q
    using ok that del by (auto simp: pipeline_ok_def offs max_def nat_add_distrib)
  then have "pipeline_ok (pl\<lparr>pi_log := l\<rparr>)"
    using ok delivered_log [OF parts] by (simp add: pipeline_ok_def np log_ok_def parts from_log_def handed_on_def)
  moreover have "pipe_grows pl (pl\<lparr>pi_log := l\<rparr>)" by (simp add: pipe_grows_def np parts handed_on_def)
  ultimately show thesis using that l parts by blast
qed

lemma assignment_range:
  assumes "pipeline_ok pl"
  shows "list_all (in_range pl) (assignment_for m (pi_group pl))"
proof (cases "m \<in> set (group_members (pi_group pl))")
  case True
  then show ?thesis using assms by (auto simp: pipeline_ok_def balanced_def list_all_iff)
next
  case False
  then have "dict_get (cg_assignment (pi_group pl)) m = None" using assms by (simp add: pipeline_ok_def balanced_def map_of_eq_None_iff flip: set_map)
  then show ?thesis by (simp add: assignment_for_def dict_get_default_def)
qed

section \<open>A step of a thread\<close>

definition step_ok :: "pipeline \<Rightarrow> worker_thread \<Rightarrow> worker_thread \<times> pipeline \<Rightarrow> bool" where
  "step_ok pl th tp \<longleftrightarrow> pipeline_ok (snd tp) \<and> pipe_grows pl (snd tp) \<and> thread_ok (snd tp) (fst tp) \<and> wt_member (fst tp) = wt_member th \<and>
     pi_taken (snd tp) = pi_taken pl \<and> cg_group_id (pi_group (snd tp)) = cg_group_id (pi_group pl)"

lemma step_same: "pipeline_ok pl \<Longrightarrow> thread_ok pl th \<Longrightarrow> pc_ok pl pc \<Longrightarrow> step_ok pl th (th\<lparr>wt_pc := pc\<rparr>, pl)"
  by (simp add: step_ok_def thread_ok_def)

lemma step_records:
  assumes ok: "pipeline_ok pl" and th: "thread_ok pl th" and pc: "wt_pc th = Records (r # rs) ps capacity"
  shows "step_ok pl th (thread_step rd (th, pl))"
proof -
  obtain p n where p: "in_range pl p" and del: "delivered pl p n" and pre: "prefix (r # rs) (drop n (part pl p))"
    and ps: "list_all (in_range pl) ps"
    using th pc by (auto simp: thread_ok_def pc_ok_def)
  have w: "weights_ok (rs_config (wt_scorer th))" using th by (simp add: thread_ok_def)
  obtain fs sc where sc: "score (lr_value r) (rd_score rd) (rd_scored_at rd) (wt_scorer th) = (Inr fs, sc)"
    and cfg: "rs_config sc = rs_config (wt_scorer th)"
    using score_result [OF w] score_keeps by (metis snd_conv)
  have rn: "n < length (part pl p)" "part pl p ! n = r" using pre by (auto simp: prefix_def) (metis drop_all leI list.distinct(1), metis append_Cons drop_eq_Nil hd_drop_conv_nth leI list.distinct(1) list.sel(1))
  then have r: "r \<in> set (part pl p)" by (metis nth_mem)
  show ?thesis
  proof (cases "put_nowait \<lparr>sc_transaction = lr_value r, sc_score = fs\<rparr> (pi_queue pl)")
    case (Inl e)
    then have "e = QueueFull" by (simp add: put_nowait_def split: if_splits)
    then show ?thesis using pc sc Inl ok w cfg by (simp add: thread_step_def die_def step_ok_def thread_ok_def pc_ok_def)
  next
    case (Inr q)
    let ?pl = "pl\<lparr>pi_queue := q\<rparr>"
    note put = pipeline_ok_put [OF ok p r Inr]
    have "delivered ?pl p n" by (rule delivered_grows [OF put(2) p del])
    then have "delivered ?pl p (Suc n)" using put(3) rn by (auto simp: delivered_def take_Suc_conv_app_nth)
    then have "pc_ok ?pl (Committing r rs ps capacity)" using p ps pre by (auto simp: pc_ok_def)
    then show ?thesis using pc sc Inr put(1,2) w cfg by (simp add: thread_step_def step_ok_def thread_ok_def)
  qed
qed

lemma step_commit:
  assumes ok: "pipeline_ok pl" and th: "thread_ok pl th" and pc: "wt_pc th = Committing r rs ps capacity"
  shows "step_ok pl th (thread_step rd (th, pl))"
proof -
  obtain p n where p: "in_range pl p" and del: "delivered pl p (Suc n)" and pre: "prefix (r # rs) (drop n (part pl p))"
    and ps: "list_all (in_range pl) ps"
    using th pc by (auto simp: thread_ok_def pc_ok_def)
  have n: "n < length (part pl p)" using del by (simp add: delivered_def)
  then have d: "drop n (part pl p) = part pl p ! n # drop (Suc n) (part pl p)" by (simp add: Cons_nth_drop_Suc)
  then have r: "r = part pl p ! n" and rs: "prefix rs (drop (Suc n) (part pl p))" using pre by auto
  obtain l where l: "group_commit (pi_group pl) r (pi_log pl) = Inr l" "pipeline_ok (pl\<lparr>pi_log := l\<rparr>)" "pipe_grows pl (pl\<lparr>pi_log := l\<rparr>)"
    "pl_partitions l = pl_partitions (pi_log pl)"
    by (rule pipeline_ok_commit [OF ok p n r del])
  have "pc_ok pl (Records rs ps (capacity - 1))" using p ps del rs by (auto simp: pc_ok_def)
  from pc_ok_grows [OF l(3) this] show ?thesis
    using pc l th by (simp add: thread_step_def step_ok_def thread_ok_def)
qed

lemma step_turn:
  assumes ok: "pipeline_ok pl" and th: "thread_ok pl th" and Turn: "wt_pc th = Turn"
  shows "step_ok pl th (thread_step rd (th, pl))"
proof (cases "\<not> wt_stop th \<and> rd_now rd - wt_last_heartbeat th \<ge> wt_heartbeat_interval th")
  case True
  have bal: "balanced (pi_group pl)" using ok by (simp add: pipeline_ok_def)
  show ?thesis
  proof (cases "heartbeat (wt_member th) (rd_group rd) (pi_group pl)")
    case (Inl e)
    then show ?thesis
      using Turn True th ok group_ops_keep(2) [OF bal Inl] by (simp add: thread_step_def die_def step_ok_def thread_ok_def pc_ok_def)
  next
    case (Inr g)
    then show ?thesis
      using Turn True th pipeline_ok_group [OF ok, of g] group_ops_keep(1) [OF bal Inr]
      by (simp add: thread_step_def step_ok_def thread_ok_def pc_ok_def)
  qed
next
  case False
  then show ?thesis using Turn ok th by (auto simp: thread_step_def step_ok_def thread_ok_def pc_ok_def)
qed

lemma step_read:
  assumes ok: "pipeline_ok pl" and th: "thread_ok pl th" and ReadAt: "wt_pc th = ReadAt p offset ps capacity"
  shows "step_ok pl th (thread_step rd (th, pl))"
proof -
  have p: "in_range pl p" "list_all (in_range pl) ps" "0 \<le> offset" "0 < capacity" "delivered pl p (nat offset)"
    using th ReadAt by (auto simp: thread_ok_def pc_ok_def)
  then have "pc_ok pl (Records (take (nat capacity) (drop (nat offset) (part pl p))) ps capacity)"
    by (auto simp: pc_ok_def intro!: exI [of _ p] exI [of _ "nat offset"] take_is_prefix)
  then show ?thesis
    using ReadAt p ok th by (simp add: thread_step_def read_records_ok step_ok_def thread_ok_def)
qed

lemma thread_step_ok:
  assumes ok: "pipeline_ok pl" and th: "thread_ok pl th"
  shows "step_ok pl th (thread_step rd (th, pl))"
proof (cases "wt_pc th")
  case Turn
  then show ?thesis by (rule step_turn [OF ok th])
next
  case (Partitions ps capacity)
  show ?thesis
  proof (cases ps)
    case (Cons p rest)
    then have p: "in_range pl p" "list_all (in_range pl) rest" using th Partitions by (auto simp: thread_ok_def pc_ok_def)
    moreover have "committed_offset (cg_group_id (pi_group pl)) p (pi_log pl) = Inr (offset_of (pi_group pl) (pi_log pl) p)"
      using p by (simp add: committed_offset_def check_partition_def offset_of_def)
    ultimately show ?thesis
      using Partitions Cons ok th by (auto simp: thread_step_def step_ok_def thread_ok_def pc_ok_def pipeline_ok_def)
  qed (use Partitions ok th in \<open>simp add: thread_step_def step_ok_def thread_ok_def pc_ok_def\<close>)
next
  case (ReadAt p offset ps capacity)
  then show ?thesis by (rule step_read [OF ok th])
next
  case (Records rs ps capacity)
  show ?thesis
  proof (cases rs)
    case Nil
    then show ?thesis using Records ok th by (auto simp: thread_step_def step_ok_def thread_ok_def pc_ok_def)
  qed (use step_records [OF ok th] Records in blast)
next
  case (Committing r rs ps capacity)
  then show ?thesis by (rule step_commit [OF ok th])
qed (use ok th assignment_range [OF ok] in \<open>auto simp: thread_step_def step_ok_def thread_ok_def pc_ok_def Let_def\<close>)

section \<open>A thread on its own does what run_once does\<close>

text \<open>The worker's view of the pipeline, as \<open>worker_run_once\<close> sees it.\<close>

definition view :: "worker_thread \<Rightarrow> pipeline \<Rightarrow> nat \<Rightarrow> worker_state" where
  "view th pl k = \<lparr>ws_log = pi_log pl, ws_scorer = wt_scorer th, ws_queue = pi_queue pl, ws_reads = k\<rparr>"

definition after :: "worker_thread \<Rightarrow> pipeline \<Rightarrow> worker_state \<Rightarrow> worker_pc \<Rightarrow> worker_thread \<times> pipeline" where
  "after th pl ws pc = (th\<lparr>wt_scorer := ws_scorer ws, wt_pc := pc\<rparr>, pl\<lparr>pi_log := ws_log ws, pi_queue := ws_queue ws\<rparr>)"

lemma after_view [simp]: "view (fst (after th pl ws pc)) (snd (after th pl ws pc)) (ws_reads ws) = ws"
  "wt_pc (fst (after th pl ws pc)) = pc" "pi_group (snd (after th pl ws pc)) = pi_group pl"
  "after (fst (after th pl ws pc)) (snd (after th pl ws pc)) ws2 pc2 = after th pl ws2 pc2"
  "wt_member (fst (after th pl ws pc)) = wt_member th" "wt_max_batch (fst (after th pl ws pc)) = wt_max_batch th"
  by (simp_all add: view_def after_def)

definition runs_to :: "worker_thread \<Rightarrow> pipeline \<Rightarrow> (worker_thread \<times> pipeline \<Rightarrow> bool) \<Rightarrow> bool" where
  "runs_to th pl P \<longleftrightarrow> (\<exists>rds. P (fold thread_step rds (th, pl)))"

lemma runs_to_now: "P (th, pl) \<Longrightarrow> runs_to th pl P"
  unfolding runs_to_def by (rule exI [of _ "[]"]) simp

lemma runs_to_one: "P (thread_step rd (th, pl)) \<Longrightarrow> runs_to th pl P"
  unfolding runs_to_def by (rule exI [of _ "[rd]"]) simp

lemma runs_to_two: "P (thread_step rd' (thread_step rd (th, pl))) \<Longrightarrow> runs_to th pl P"
  unfolding runs_to_def by (rule exI [of _ "[rd, rd']"]) simp

lemma runs_to_from:
  assumes "thread_step rd' (thread_step rd (th, pl)) = (th', pl')" "runs_to th' pl' P"
  shows "runs_to th pl P"
proof -
  obtain rds where "P (fold thread_step rds (th', pl'))" using assms(2) by (auto simp: runs_to_def)
  then show ?thesis unfolding runs_to_def using assms(1) by (intro exI [of _ "rd # rd' # rds"]) simp
qed

lemma runs_to_trans:
  assumes "runs_to th pl Q" "\<And>th' pl'. Q (th', pl') \<Longrightarrow> runs_to th' pl' P"
  shows "runs_to th pl P"
proof -
  obtain rds where "Q (fold thread_step rds (th, pl))" using assms(1) by (auto simp: runs_to_def)
  then obtain rds' where "P (fold thread_step rds' (fold thread_step rds (th, pl)))"
    using assms(2) by (metis prod.collapse runs_to_def)
  then show ?thesis unfolding runs_to_def by (intro exI [of _ "rds @ rds'"]) simp
qed

definition no_readings :: readings where
  "no_readings = \<lparr>rd_now = 0, rd_group = 0, rd_score = 0, rd_scored_at = 0\<rparr>"

text \<open>How a call of the worker ends: with an exception that ends the thread, or with a new state at a given place.\<close>

definition ends :: "worker_thread \<Rightarrow> pipeline \<Rightarrow> (worker_state \<times> worker_pc) result \<Rightarrow> worker_thread \<times> pipeline \<Rightarrow> bool" where
  "ends th pl r tp \<longleftrightarrow> (case r of Inl e \<Rightarrow> wt_pc (fst tp) = Died e | Inr (ws, pc) \<Rightarrow> tp = after th pl ws pc)"

lemma solo_records:
  assumes "wt_pc th = Records rs ps capacity"
  shows "runs_to th pl (ends th pl (rbind (process_records clock (pi_group pl) rs capacity produced (view th pl k))
    (\<lambda>(capacity, produced, ws). Inr (ws, Partitions ps capacity))))"
  using assms
proof (induction rs arbitrary: th pl capacity produced k)
  case Nil
  then show ?case
    by (intro runs_to_one [of _ no_readings]) (simp add: thread_step_def ends_def after_def view_def)
next
  case (Cons r rs)
  let ?rd = "\<lparr>rd_now = 0, rd_group = 0, rd_score = clock k, rd_scored_at = clock (Suc k)\<rparr>"
  obtain sc scorer where sc: "score (lr_value r) (clock k) (clock (Suc k)) (wt_scorer th) = (sc, scorer)" by force
  let ?put = "rbind sc (\<lambda>sc. put_nowait \<lparr>sc_transaction = lr_value r, sc_score = sc\<rparr> (pi_queue pl))"
  show ?case
  proof (cases ?put)
    case (Inl e)
    then show ?thesis
      using Cons.prems sc by (intro runs_to_one [of _ ?rd])
        (auto simp: thread_step_def ends_def view_def die_def rbind_Inl_conv Let_def)
  next
    case (Inr q)
    then obtain fs where fs: "sc = Inr fs" "put_nowait \<lparr>sc_transaction = lr_value r, sc_score = fs\<rparr> (pi_queue pl) = Inr q"
      by (auto simp: rbind_Inr_conv)
    let ?th = "th\<lparr>wt_scorer := scorer, wt_pc := Committing r rs ps capacity\<rparr>" and ?pl = "pl\<lparr>pi_queue := q\<rparr>"
    have step: "thread_step ?rd (th, pl) = (?th, ?pl)" using Cons.prems sc fs by (simp add: thread_step_def)
    show ?thesis
    proof (cases "group_commit (pi_group pl) r (pi_log pl)")
      case (Inl e)
      then show ?thesis
        by (intro runs_to_two [of _ no_readings ?rd], unfold step) (simp add: thread_step_def ends_def view_def die_def sc fs)
    next
      case (Inr l)
      let ?th2 = "th\<lparr>wt_scorer := scorer, wt_pc := Records rs ps (capacity - 1)\<rparr>" and ?pl2 = "pl\<lparr>pi_log := l, pi_queue := q\<rparr>"
      let ?x = "\<lparr>sc_transaction = lr_value r, sc_score = fs\<rparr>"
      have "process_records clock (pi_group pl) (r # rs) capacity produced (view th pl k) =
          process_records clock (pi_group ?pl2) rs (capacity - 1) (produced @ [?x]) (view ?th2 ?pl2 (k + 2))"
        using sc fs Inr by (simp add: view_def)
      moreover have "ends ?th2 ?pl2 r = ends th pl r" for r
        by (simp add: ends_def after_def fun_eq_iff split: sum.split)
      moreover have "thread_step no_readings (?th, ?pl) = (?th2, ?pl2)" using Inr by (simp add: thread_step_def)
      ultimately show ?thesis
        using Cons.IH [of ?th2 "capacity - 1" ?pl2 "produced @ [?x]" "k + 2"] step
        by (intro runs_to_from [of no_readings ?rd th pl ?th2 ?pl2]) simp_all
    qed
  qed
qed

text \<open>The records of one partition, and the other partitions after them.\<close>

lemma solo_partition:
  assumes IH: "\<And>th pl capacity produced k. wt_pc th = Partitions ps capacity \<Longrightarrow>
      runs_to th pl (ends th pl (rbind (run_partitions clock (pi_group pl) ps capacity produced (view th pl k)) (\<lambda>(produced, ws). Inr (ws, Turn))))"
  shows "runs_to (th\<lparr>wt_pc := Records rs ps capacity\<rparr>) pl
    (ends th pl (rbind (rbind (process_records clock (pi_group pl) rs capacity produced (view th pl k))
      (\<lambda>(capacity, produced, ws). run_partitions clock (pi_group pl) ps capacity produced ws)) (\<lambda>(produced, ws). Inr (ws, Turn))))"
    (is "runs_to ?th pl (ends th pl ?end)")
proof -
  let ?pr = "process_records clock (pi_group pl) rs capacity produced (view ?th pl k)"
  have v: "view ?th pl k = view th pl k" by (simp add: view_def)
  show ?thesis
  proof (rule runs_to_trans [OF solo_records [of ?th rs ps capacity pl clock produced k]])
    fix th' pl'
    assume q: "ends ?th pl (rbind ?pr (\<lambda>(capacity, produced, ws). Inr (ws, Partitions ps capacity))) (th', pl')"
    show "runs_to th' pl' (ends th pl ?end)"
    proof (cases ?pr)
      case (Inl er)
      then show ?thesis using q by (intro runs_to_now) (simp add: v ends_def)
    next
      case (Inr x)
      obtain cap2 prod2 ws2 where x: "x = (cap2, prod2, ws2)" by (cases x)
      have tp: "th' = fst (after th pl ws2 (Partitions ps cap2))" "pl' = snd (after th pl ws2 (Partitions ps cap2))"
        using q Inr x by (simp_all add: ends_def after_def)
      have "ends th' pl' r = ends th pl r" for r by (simp add: ends_def tp fun_eq_iff split: sum.split)
      then show ?thesis
        using IH [of th' cap2 pl' prod2 "ws_reads ws2"] Inr by (simp add: tp v x)
    qed
  qed simp
qed

lemma solo_partitions:
  assumes "wt_pc th = Partitions ps capacity"
  shows "runs_to th pl (ends th pl (rbind (run_partitions clock (pi_group pl) ps capacity produced (view th pl k))
    (\<lambda>(produced, ws). Inr (ws, Turn))))"
  using assms
proof (induction ps arbitrary: th pl capacity produced k)
  case Nil
  then show ?case
    by (intro runs_to_one [of _ no_readings]) (simp add: thread_step_def ends_def after_def view_def)
next
  case (Cons p ps)
  let ?off = "committed_offset (cg_group_id (pi_group pl)) p (pi_log pl)"
  consider "capacity \<le> 0" | e where "\<not> capacity \<le> 0" "?off = Inl e"
    | off e where "\<not> capacity \<le> 0" "?off = Inr off" "read_records p off capacity (pi_log pl) = Inl e"
    | off rs where "\<not> capacity \<le> 0" "?off = Inr off" "read_records p off capacity (pi_log pl) = Inr rs"
    by (metis sum.exhaust_sel)
  then show ?case
  proof cases
    case 1
    then show ?thesis using Cons.prems by (intro runs_to_one [of _ no_readings]) (simp add: thread_step_def ends_def after_def view_def)
  next
    case 2
    then show ?thesis
      using Cons.prems by (intro runs_to_one [of _ no_readings]) (simp add: thread_step_def ends_def die_def poll_partition_def view_def)
  next
    case 3
    then show ?thesis
      using Cons.prems by (intro runs_to_two [of _ no_readings no_readings]) (simp add: thread_step_def ends_def die_def poll_partition_def view_def)
  next
    case 4
    let ?th = "th\<lparr>wt_pc := Records rs ps capacity\<rparr>"
    have "runs_to ?th pl (ends th pl (rbind (rbind (process_records clock (pi_group pl) rs capacity produced (view th pl k))
        (\<lambda>(capacity, produced, ws). run_partitions clock (pi_group pl) ps capacity produced ws)) (\<lambda>(produced, ws). Inr (ws, Turn))))"
      by (rule solo_partition [OF Cons.IH])
    moreover have "run_partitions clock (pi_group pl) (p # ps) capacity produced (view th pl k) =
        rbind (process_records clock (pi_group pl) rs capacity produced (view th pl k))
          (\<lambda>(capacity, produced, ws). run_partitions clock (pi_group pl) ps capacity produced ws)"
      using 4 by (simp add: poll_partition_def view_def)
    ultimately have "runs_to ?th pl (ends th pl (rbind (run_partitions clock (pi_group pl) (p # ps) capacity produced (view th pl k))
        (\<lambda>(produced, ws). Inr (ws, Turn))))" by (simp only:)
    then show ?thesis
      using 4 Cons.prems by (intro runs_to_from [of no_readings no_readings th pl ?th pl]) (simp_all add: thread_step_def)
  qed
qed

lemma solo_turn:
  assumes "wt_pc th = Capacity"
  shows "runs_to th pl (ends th pl (rbind (worker_run_once clock (pi_group pl) (wt_member th) (wt_max_batch th) (view th pl k))
    (\<lambda>(produced, ws). Inr (ws, Turn))))"
proof (cases "available_capacity (wt_max_batch th) (pi_queue pl) \<le> 0")
  case True
  then show ?thesis
    using assms by (intro runs_to_one [of _ no_readings]) (simp add: thread_step_def worker_run_once_def ends_def after_def view_def)
next
  case False
  let ?cap = "available_capacity (wt_max_batch th) (pi_queue pl)"
  let ?th = "th\<lparr>wt_pc := Partitions (assignment_for (wt_member th) (pi_group pl)) ?cap\<rparr>"
  have v: "view ?th pl k = view th pl k" by (simp add: view_def)
  have e: "ends ?th pl r = ends th pl r" for r by (simp add: ends_def after_def fun_eq_iff split: sum.split)
  have "runs_to ?th pl (ends th pl (rbind (worker_run_once clock (pi_group pl) (wt_member th) (wt_max_batch th) (view th pl k))
      (\<lambda>(produced, ws). Inr (ws, Turn))))"
    using solo_partitions [of ?th "assignment_for (wt_member th) (pi_group pl)" ?cap pl clock "[]" k] False
    unfolding v e by (simp add: worker_run_once_def view_def)
  then show ?thesis
    using assms False by (intro runs_to_from [of no_readings no_readings th pl ?th pl]) (simp_all add: thread_step_def)
qed

section \<open>Properties\<close>

text \<open>
  C33: A thread whose steps nobody interrupts does in one turn exactly what run_once does in one call: it ends
  at the head of its loop with the same log, queue and scorer, or it dies with the same exception.
\<close>

theorem thread_does_run_once:
  assumes "wt_pc th = Capacity"
  shows "\<exists>rds. case worker_run_once clock (pi_group pl) (wt_member th) (wt_max_batch th)
        \<lparr>ws_log = pi_log pl, ws_scorer = wt_scorer th, ws_queue = pi_queue pl, ws_reads = k\<rparr> of
      Inl e \<Rightarrow> wt_pc (fst (fold thread_step rds (th, pl))) = Died e
    | Inr (produced, ws) \<Rightarrow> fold thread_step rds (th, pl) =
        (th\<lparr>wt_scorer := ws_scorer ws, wt_pc := Turn\<rparr>, pl\<lparr>pi_log := ws_log ws, pi_queue := ws_queue ws\<rparr>)"
proof -
  let ?r = "worker_run_once clock (pi_group pl) (wt_member th) (wt_max_batch th) (view th pl k)"
  obtain rds where "ends th pl (rbind ?r (\<lambda>(produced, ws). Inr (ws, Turn))) (fold thread_step rds (th, pl))"
    using solo_turn [OF assms, of pl clock k] by (auto simp: runs_to_def)
  then show ?thesis
    unfolding view_def by (intro exI [of _ rds]) (auto simp: ends_def after_def split: sum.splits)
qed

definition demo_pipeline :: pipeline where
  "demo_pipeline = \<lparr>pi_log = demo_records, pi_group = demo_members, pi_queue = \<lparr>q_maxsize = 1, q_items = []\<rparr>, pi_taken = []\<rparr>"

definition demo_thread :: worker_thread where
  "demo_thread = (FraudWorkerRuntime ''fraud-0'' demo_scorer)\<lparr>wt_pc := Capacity\<rparr>"

theorem thread_does_run_once_witness:
  "\<exists>rds. wt_pc (fst (fold thread_step rds (demo_thread, demo_pipeline))) = Turn \<and>
     length (q_items (pi_queue (snd (fold thread_step rds (demo_thread, demo_pipeline))))) = 1"
proof -
  have pc: "wt_pc demo_thread = Capacity" by (simp add: demo_thread_def)
  let ?r = "worker_run_once int (pi_group demo_pipeline) (wt_member demo_thread) (wt_max_batch demo_thread)
    \<lparr>ws_log = pi_log demo_pipeline, ws_scorer = wt_scorer demo_thread, ws_queue = pi_queue demo_pipeline, ws_reads = 0\<rparr>"
  have "(case ?r of Inl e \<Rightarrow> False | Inr (produced, ws) \<Rightarrow> length (q_items (ws_queue ws)) = 1)" by code_simp
  then obtain produced ws where r: "?r = Inr (produced, ws)" "length (q_items (ws_queue ws)) = 1" by (auto split: sum.splits)
  then obtain rds where "fold thread_step rds (demo_thread, demo_pipeline) =
      (demo_thread\<lparr>wt_scorer := ws_scorer ws, wt_pc := Turn\<rparr>, demo_pipeline\<lparr>pi_log := ws_log ws, pi_queue := ws_queue ws\<rparr>)"
    using thread_does_run_once [OF pc, where clock = int and pl = demo_pipeline and k = 0] unfolding r(1) by auto
  then show ?thesis using r(2) by (intro exI [of _ rds]) simp
qed

text \<open>
  C36: A member that the health check has evicted does not come back: the next heartbeat that is due raises
  ValueError, which ends its thread, and no later step of the thread does anything.
\<close>

theorem evicted_worker_stops:
  assumes "balanced (pi_group pl)" "check_expired_members now (pi_group pl) = (expired, g)" "wt_member th \<in> set expired"
    "wt_pc th = Turn" "\<not> wt_stop th" "wt_heartbeat_interval th \<le> rd_now rd - wt_last_heartbeat th"
  shows "fold thread_step (rd # rds) (th, pl\<lparr>pi_group := g\<rparr>) = (th\<lparr>wt_pc := Died ValueError\<rparr>, pl\<lparr>pi_group := g\<rparr>)"
proof -
  have g: "balanced g" "wt_member th \<notin> set (group_members g)"
    using check_expired_ok(1,2) [OF assms(1,2)] assms(3) by auto
  then have none: "dict_get (cg_members g) (wt_member th) = None"
    by (simp add: group_members_def map_of_eq_None_iff)
  have dead: "fold thread_step rds (th, pl) = (th, pl)" if "wt_pc th = Died ValueError" for th pl
    by (induction rds) (simp_all add: thread_step_def that)
  have "thread_step rd (th, pl\<lparr>pi_group := g\<rparr>) = (th\<lparr>wt_pc := Died ValueError\<rparr>, pl\<lparr>pi_group := g\<rparr>)"
    using assms(4-6) none by (simp add: thread_step_def heartbeat_def die_def)
  then show ?thesis using dead by simp
qed

theorem evicted_worker_stops_witness:
  "wt_pc (fst (fold thread_step [no_readings\<lparr>rd_now := 3\<rparr>, no_readings] (demo_thread\<lparr>wt_pc := Turn\<rparr>,
      demo_pipeline\<lparr>pi_group := snd (check_expired_members 3 demo_members)\<rparr>))) = Died ValueError"
proof -
  have e: "check_expired_members 3 (pi_group demo_pipeline) = ([''fraud-0''], snd (check_expired_members 3 demo_members))"
    by (simp add: demo_pipeline_def check_expired_members_def demo_members_def Let_def)
  show ?thesis
    using evicted_worker_stops [OF _ e, of "demo_thread\<lparr>wt_pc := Turn\<rparr>" "no_readings\<lparr>rd_now := 3\<rparr>" "[no_readings]"] demo_worker_ok(4)
    by (simp add: demo_pipeline_def demo_thread_def FraudWorkerRuntime_def no_readings_def)
qed

end
