(* ===== verification/Ledger.thy ===== *)
theory Ledger
  imports Models Raft_Network
begin

text \<open>
  The ledger of settlement/ledger_state_machine.py: balances and the cached result of every entry
  it has seen. It meets the contract of a replicated state machine, never lets a balance go below
  zero, and answers a replayed entry with the first answer.
\<close>

record apply_result =
  ar_entry_id :: string
  ar_accepted :: bool
  ar_resulting_balance :: decimal
  ar_reason :: string

record ledger =
  balances :: "(string, decimal) dict"
  results :: "(string, apply_result) dict"

definition LedgerStateMachine :: "(string, decimal) dict \<Rightarrow> ledger" where
  "LedgerStateMachine initial_balances = \<lparr>balances = initial_balances, results = []\<rparr>"

definition balance :: "string \<Rightarrow> ledger \<Rightarrow> decimal" where
  "balance a sm = dict_get_default (balances sm) a (dec_of_int 0)"

definition ledger_apply :: "ledger_entry \<Rightarrow> ledger \<Rightarrow> apply_result \<times> ledger" where
  "ledger_apply command sm =
     (case dict_get (results sm) (le_entry_id command) of
        Some cached \<Rightarrow> (cached, sm)
      | None \<Rightarrow>
          (let current = dict_get_default (balances sm) (le_account_id command) (dec_of_int 0);
               new_balance = dec_add current (le_delta command);
               (result, sm) =
                 (if dec_less new_balance (dec_of_int 0) then
                    (\<lparr>ar_entry_id = le_entry_id command, ar_accepted = False, ar_resulting_balance = current,
                      ar_reason = ''insufficient funds: balance '' @ dec_str current @ '' + delta '' @
                                  dec_str (le_delta command) @ '' < 0''\<rparr>, sm)
                  else
                    (\<lparr>ar_entry_id = le_entry_id command, ar_accepted = True,
                      ar_resulting_balance = new_balance, ar_reason = ''''\<rparr>,
                     sm\<lparr>balances := dict_set (le_account_id command) new_balance (balances sm)\<rparr>))
           in (result, sm\<lparr>results := dict_set (le_entry_id command) result (results sm)\<rparr>)))"

definition ledger_step :: "ledger_entry \<Rightarrow> ledger \<Rightarrow> ledger" where
  "ledger_step command sm = snd (ledger_apply command sm)"

section \<open>One entry\<close>

text \<open>An entry is accepted when the exact sum is not negative, whatever rounding does to the new balance.\<close>

lemma ledger_apply_new:
  assumes "dict_get (results sm) (le_entry_id c) = None"
  shows "ar_accepted (fst (ledger_apply c sm)) \<longleftrightarrow> 0 \<le> dec_val (balance (le_account_id c) sm) + dec_val (le_delta c)"
    and "dict_get (results (ledger_step c sm)) k = (if k = le_entry_id c then Some (fst (ledger_apply c sm)) else dict_get (results sm) k)"
    and "balance a (ledger_step c sm) =
      (if a = le_account_id c \<and> ar_accepted (fst (ledger_apply c sm)) then dec_add (balance a sm) (le_delta c) else balance a sm)"
    and "ar_resulting_balance (fst (ledger_apply c sm)) = balance (le_account_id c) (ledger_step c sm)"
  using assms dec_add_neg_iff [of "balance (le_account_id c) sm" "le_delta c"]
  by (auto simp: ledger_apply_def ledger_step_def balance_def Let_def dec_less_val dict_get_default_def not_less)

lemma ledger_apply_seen:
  "dict_get (results sm) (le_entry_id c) = Some r \<Longrightarrow> ledger_apply c sm = (r, sm)"
  by (simp add: ledger_apply_def)

lemma ledger_step_result:
  "dict_get (results (ledger_step c sm)) (le_entry_id c) = Some (fst (ledger_apply c sm))"
  using ledger_apply_new(2) [of sm c] ledger_apply_seen [of sm c]
  by (cases "dict_get (results sm) (le_entry_id c)") (simp_all add: ledger_step_def)

lemma results_keep:
  "dict_get (results sm) k = Some r \<Longrightarrow> dict_get (results (ledger_step c sm)) k = Some r"
  using ledger_apply_new(2) [of sm c k] ledger_apply_seen [of sm c]
  by (cases "dict_get (results sm) (le_entry_id c)") (auto simp: ledger_step_def)

lemma results_keep_all:
  "dict_get (results sm) k = Some r \<Longrightarrow> dict_get (results (fold ledger_step cs sm)) k = Some r"
  by (induction cs arbitrary: sm) (simp_all add: results_keep)

section \<open>The replay contract\<close>

lemma results_present:
  "c \<in> set cs \<Longrightarrow> \<exists>r. dict_get (results (fold ledger_step cs sm)) (le_entry_id c) = Some r"
proof (induction cs arbitrary: sm)
  case (Cons d cs)
  then show ?case
    using ledger_step_result [of c sm] results_keep_all [of "ledger_step c sm"] by auto
qed simp

interpretation ledger_machine: idempotent_machine ledger_step "LedgerStateMachine init" for init
proof unfold_locales
  fix c and cs :: "ledger_entry list"
  assume "c \<in> set cs"
  then obtain r where "dict_get (results (fold ledger_step cs (LedgerStateMachine init))) (le_entry_id c) = Some r"
    using results_present by blast
  then show "ledger_step c (fold ledger_step cs (LedgerStateMachine init)) = fold ledger_step cs (LedgerStateMachine init)"
    by (simp add: ledger_step_def ledger_apply_seen)
qed

section \<open>No account is overdrawn\<close>

definition solvent :: "ledger \<Rightarrow> bool" where
  "solvent sm \<longleftrightarrow> (\<forall>a. 0 \<le> dec_val (balance a sm))"

lemma solvent_step:
  assumes "solvent sm"
  shows "solvent (ledger_step c sm)"
proof (cases "dict_get (results sm) (le_entry_id c)")
  case None
  have "0 \<le> dec_val (dec_add x y)" if "0 \<le> dec_val x + dec_val y" for x y
    using that dec_add_neg_iff [of x y] by (simp add: not_less [symmetric])
  then show ?thesis
    using assms ledger_apply_new(1,3) [OF None] by (auto simp: solvent_def)
next
  case (Some r)
  then show ?thesis using assms by (simp add: ledger_step_def ledger_apply_seen)
qed

lemma solvent_run: "solvent sm \<Longrightarrow> solvent (fold ledger_step cs sm)"
  by (induction cs arbitrary: sm) (simp_all add: solvent_step)

lemma solvent_init:
  assumes "\<forall>x \<in> set (dict_values init). 0 \<le> dec_val x"
  shows "solvent (LedgerStateMachine init)"
  unfolding solvent_def
proof
  fix a
  have "dict_get init a = Some x \<Longrightarrow> 0 \<le> dec_val x" for x
    using assms map_of_SomeD [of init a x] by force
  then show "0 \<le> dec_val (balance a (LedgerStateMachine init))"
    by (auto simp: balance_def LedgerStateMachine_def dict_get_default_def split: option.splits)
qed

section \<open>Accounting\<close>

text \<open>
  The accepted entries of a history, in order, with the sum of their deltas per account. As long
  as no sum needs rounding, a balance is the initial balance plus the accepted deltas.
\<close>

fun accepted :: "ledger \<Rightarrow> ledger_entry list \<Rightarrow> ledger_entry list" where
  "accepted sm [] = []"
| "accepted sm (c # cs) =
     (if dict_get (results sm) (le_entry_id c) = None \<and> ar_accepted (fst (ledger_apply c sm)) then [c] else []) @
     accepted (ledger_step c sm) cs"

definition on_account :: "string \<Rightarrow> ledger_entry list \<Rightarrow> ledger_entry list" where
  "on_account a cs = filter (\<lambda>c. le_account_id c = a) cs"

definition total :: "ledger_entry list \<Rightarrow> rat" where
  "total cs = sum_list (map (\<lambda>c. dec_val (le_delta c)) cs)"

definition exact_at :: "ledger_entry \<Rightarrow> ledger \<Rightarrow> bool" where
  "exact_at c sm \<longleftrightarrow> dec_val (dec_add (balance (le_account_id c) sm) (le_delta c)) =
     dec_val (balance (le_account_id c) sm) + dec_val (le_delta c)"

fun exact_run :: "ledger \<Rightarrow> ledger_entry list \<Rightarrow> bool" where
  "exact_run sm [] \<longleftrightarrow> True"
| "exact_run sm (c # cs) \<longleftrightarrow> exact_at c sm \<and> exact_run (ledger_step c sm) cs"

lemma balance_run:
  "exact_run sm cs \<Longrightarrow>
     dec_val (balance a (fold ledger_step cs sm)) = dec_val (balance a sm) + total (on_account a (accepted sm cs))"
proof (induction cs arbitrary: sm)
  case (Cons c cs)
  show ?case
  proof (cases "dict_get (results sm) (le_entry_id c)")
    case None
    then show ?thesis
      using Cons ledger_apply_new(3) [OF None, of a] by (simp add: exact_at_def total_def on_account_def)
  next
    case (Some r)
    then show ?thesis using Cons by (simp add: ledger_step_def ledger_apply_seen on_account_def)
  qed
qed (simp add: total_def on_account_def)

text \<open>An entry is accepted at most once.\<close>

lemma accepted_distinct:
  "distinct (map le_entry_id (accepted sm cs)) \<and> (\<forall>c \<in> set (accepted sm cs). dict_get (results sm) (le_entry_id c) = None)"
proof (induction cs arbitrary: sm)
  case (Cons c cs)
  have "dict_get (results sm) (le_entry_id d) = None \<and> le_entry_id d \<noteq> le_entry_id c"
    if "d \<in> set (accepted (ledger_step c sm) cs)" for d
    using Cons [of "ledger_step c sm"] that ledger_step_result [of c sm] results_keep [of sm "le_entry_id d" _ c]
    by (metis option.distinct(1) option.exhaust)
  then show ?case using Cons [of "ledger_step c sm"] by fastforce
qed simp

text \<open>The answer to an entry is the one it got first, whatever is applied before, in between and after.\<close>

lemma first_answer:
  "dict_get (results (fold ledger_step (cs @ c # ds) sm)) (le_entry_id c) = Some (fst (ledger_apply c (fold ledger_step cs sm)))"
  using results_keep_all [OF ledger_step_result] by simp

text \<open>Only entries that were applied have an answer.\<close>

lemma results_from:
  "dict_get (results (fold ledger_step cs sm)) k = Some r \<Longrightarrow>
     dict_get (results sm) k \<noteq> None \<or> (\<exists>c \<in> set cs. le_entry_id c = k)"
proof (induction cs arbitrary: sm)
  case (Cons c cs)
  have "dict_get (results (ledger_step c sm)) k \<noteq> None \<or> (\<exists>d \<in> set cs. le_entry_id d = k)"
    using Cons.IH [of "ledger_step c sm"] Cons.prems by simp
  moreover have "dict_get (results sm) k \<noteq> None \<or> k = le_entry_id c" if "dict_get (results (ledger_step c sm)) k \<noteq> None"
  proof (cases "dict_get (results sm) (le_entry_id c)")
    case None
    show ?thesis using that unfolding ledger_apply_new(2) [OF None] by (cases "k = le_entry_id c") simp_all
  qed (use that in \<open>simp add: ledger_step_def ledger_apply_seen\<close>)
  ultimately show ?case by fastforce
qed simp

section \<open>Amounts that need no rounding\<close>

text \<open>Every balance is a multiple of \<open>10 ^ e\<close>, for an \<open>e\<close> that is not positive, and at most \<open>B\<close> of them.\<close>

definition scaled_ok :: "int \<Rightarrow> int \<Rightarrow> ledger \<Rightarrow> bool" where
  "scaled_ok e B sm \<longleftrightarrow> (\<forall>a. e \<le> dec_exp (balance a sm) \<and> \<bar>dec_scaled (balance a sm) e\<bar> \<le> B)"

lemma dec_add_scaled:
  assumes x: "e \<le> dec_exp x" and d: "dec_exp d = e" and small: "\<bar>dec_scaled x e\<bar> + \<bar>dec_coef d\<bar> < 10 ^ 28"
  shows "dec_add x d = Dec (dec_scaled x e + dec_coef d) e"
proof -
  have "dec_add x d = dec_fix (Dec (dec_scaled x e + dec_coef d) e)"
    using x d by (simp add: dec_add_def min_def dec_scaled_def [of d])
  then show ?thesis using small by (simp add: dec_fix_exact)
qed

lemma scaled_step:
  assumes ok: "scaled_ok e B sm" and d: "dec_exp (le_delta c) = e" and small: "B + \<bar>dec_coef (le_delta c)\<bar> < 10 ^ 28"
  shows "exact_at c sm" and "scaled_ok e (B + \<bar>dec_coef (le_delta c)\<bar>) (ledger_step c sm)"
proof -
  let ?x = "balance (le_account_id c) sm"
  have x: "e \<le> dec_exp ?x" "\<bar>dec_scaled ?x e\<bar> \<le> B" using ok by (auto simp: scaled_ok_def)
  then have add: "dec_add ?x (le_delta c) = Dec (dec_scaled ?x e + dec_coef (le_delta c)) e"
    using d small by (intro dec_add_scaled) auto
  show "exact_at c sm"
    using dec_scaled_val [OF x(1)] d by (simp add: exact_at_def add dec_val_def distrib_right)
  show "scaled_ok e (B + \<bar>dec_coef (le_delta c)\<bar>) (ledger_step c sm)"
  proof (cases "dict_get (results sm) (le_entry_id c)")
    case None
    have own: "\<bar>dec_scaled (dec_add ?x (le_delta c)) e\<bar> \<le> B + \<bar>dec_coef (le_delta c)\<bar>" "dec_exp (dec_add ?x (le_delta c)) = e"
      using x(2) by (simp_all add: add dec_scaled_def)
    have "e \<le> dec_exp (balance a (ledger_step c sm)) \<and> \<bar>dec_scaled (balance a (ledger_step c sm)) e\<bar> \<le> B + \<bar>dec_coef (le_delta c)\<bar>" for a
    proof -
      have "e \<le> dec_exp (balance a sm)" "\<bar>dec_scaled (balance a sm) e\<bar> \<le> B" using ok by (auto simp: scaled_ok_def)
      then show ?thesis using own unfolding ledger_apply_new(3) [OF None] by auto
    qed
    then show ?thesis by (simp add: scaled_ok_def)
  next
    case (Some r)
    have "\<bar>dec_scaled (balance a sm) e\<bar> \<le> B" for a using ok by (simp add: scaled_ok_def)
    then have "\<bar>dec_scaled (balance a sm) e\<bar> \<le> B + \<bar>dec_coef (le_delta c)\<bar>" for a
      by (rule order_trans) simp
    then show ?thesis using ok Some by (simp add: scaled_ok_def ledger_step_def ledger_apply_seen)
  qed
qed

lemma exact_scaled:
  assumes "scaled_ok e B sm" "\<And>c. c \<in> set cs \<Longrightarrow> dec_exp (le_delta c) = e"
    "B + (\<Sum>c \<leftarrow> cs. \<bar>dec_coef (le_delta c)\<bar>) < 10 ^ 28"
  shows "exact_run sm cs"
  using assms
proof (induction cs arbitrary: sm B)
  case (Cons c cs)
  have nn: "0 \<le> (\<Sum>c \<leftarrow> cs. \<bar>dec_coef (le_delta c)\<bar>)" by (rule sum_list_nonneg) auto
  have c: "dec_exp (le_delta c) = e" "B + \<bar>dec_coef (le_delta c)\<bar> < 10 ^ 28" using Cons.prems(2,3) nn by auto
  note one = scaled_step [OF Cons.prems(1) c]
  show ?case using one(1) Cons.IH [OF one(2)] Cons.prems(2,3) by (simp add: add.assoc)
qed simp

lemma scaled_init:
  assumes "\<forall>x \<in> set (dict_values init). dec_exp x = e \<and> \<bar>dec_coef x\<bar> \<le> B" "e \<le> 0" "0 \<le> B"
  shows "scaled_ok e B (LedgerStateMachine init)"
  unfolding scaled_ok_def
proof
  fix a
  have "dict_get init a = Some x \<Longrightarrow> dec_exp x = e \<and> \<bar>dec_coef x\<bar> \<le> B" for x
    using assms(1) map_of_SomeD [of init a x] by force
  then show "e \<le> dec_exp (balance a (LedgerStateMachine init)) \<and> \<bar>dec_scaled (balance a (LedgerStateMachine init)) e\<bar> \<le> B"
    using assms(2,3)
    by (cases "dict_get init a") (auto simp: balance_def LedgerStateMachine_def dict_get_default_def dec_of_int_def dec_scaled_def)
qed

section \<open>Properties\<close>

text \<open>Two debits of 7 against a balance of 10.\<close>

definition demo_debit :: ledger_entry where
  "demo_debit = \<lparr>le_transaction_id = ''t1'', le_account_id = ''acct'', le_delta = Dec (-7) 0, le_entry_id = ''t1'', le_created_at = 0\<rparr>"

definition demo_debit2 :: ledger_entry where
  "demo_debit2 = \<lparr>le_transaction_id = ''t2'', le_account_id = ''acct'', le_delta = Dec (-7) 0, le_entry_id = ''t2'', le_created_at = 1\<rparr>"

definition demo_balances :: "(string, decimal) dict" where
  "demo_balances = [(''acct'', Dec 10 0)]"

text \<open>
  C24: What one entry does, on every branch of apply: an entry seen before changes nothing and gets the
  cached answer; a new one is accepted exactly when the exact sum of balance and delta is not negative,
  moves only the account it names, and its answer is cached.
\<close>

theorem ledger_apply_spec:
  "case dict_get (results sm) (le_entry_id c) of
     Some r \<Rightarrow> ledger_apply c sm = (r, sm)
   | None \<Rightarrow> (case ledger_apply c sm of (r, sm') \<Rightarrow>
       (ar_accepted r \<longleftrightarrow> 0 \<le> dec_val (balance (le_account_id c) sm) + dec_val (le_delta c)) \<and>
       ar_resulting_balance r = balance (le_account_id c) sm' \<and>
       (\<forall>k. dict_get (results sm') k = (if k = le_entry_id c then Some r else dict_get (results sm) k)) \<and>
       (\<forall>a. balance a sm' = (if a = le_account_id c \<and> ar_accepted r then dec_add (balance a sm) (le_delta c) else balance a sm)))"
proof (cases "dict_get (results sm) (le_entry_id c)")
  case None
  obtain r sm' where r: "ledger_apply c sm = (r, sm')" by force
  then have "ledger_step c sm = sm'" by (simp add: ledger_step_def)
  then show ?thesis
    unfolding None r option.case prod.case using ledger_apply_new [OF None] r by simp
qed (simp add: ledger_apply_seen)

text \<open>
  A ledger that starts without a debt never has one: after any history, every balance is at least
  zero, rounding included.
\<close>

lemma ledger_never_overdrawn:
  assumes "\<forall>x \<in> set (dict_values init). 0 \<le> dec_val x"
  shows "0 \<le> dec_val (balance a (fold ledger_step cs (LedgerStateMachine init)))"
  using solvent_run [OF solvent_init [OF assms]] by (simp add: solvent_def)

text \<open>
  C11: However often and in whatever order entries arrive, each entry id is accepted at most once, and
  every entry's recorded answer is the answer to its first arrival.
\<close>

theorem settled_once:
  "distinct (map le_entry_id (accepted (LedgerStateMachine init) cs)) \<and>
   dict_get (results (fold ledger_step (cs @ c # ds) (LedgerStateMachine init))) (le_entry_id c) =
     Some (fst (ledger_apply c (fold ledger_step cs (LedgerStateMachine init))))"
  using accepted_distinct first_answer by blast

text \<open>
  C25: When all initial balances and deltas are given with the same number of decimals and sum up to
  less than 28 digits, no balance is ever rounded: it is the initial balance plus the accepted deltas.
\<close>

theorem ledger_accounting:
  assumes "\<forall>x \<in> set (dict_values init). dec_exp x = e \<and> \<bar>dec_coef x\<bar> \<le> B"
    "\<forall>c \<in> set cs. dec_exp (le_delta c) = e"
    "e \<le> 0" "0 \<le> B" "B + (\<Sum>c \<leftarrow> cs. \<bar>dec_coef (le_delta c)\<bar>) < 10 ^ 28"
  shows "dec_val (balance a (fold ledger_step cs (LedgerStateMachine init))) =
    dec_val (balance a (LedgerStateMachine init)) + total (on_account a (accepted (LedgerStateMachine init) cs))"
  using exact_scaled [OF scaled_init [OF assms(1,3,4)], of cs] assms(2,5) by (intro balance_run) blast

theorem ledger_accounting_witness:
  "dec_val (balance ''acct'' (fold ledger_step [demo_debit, demo_debit2] (LedgerStateMachine demo_balances))) =
   dec_val (balance ''acct'' (LedgerStateMachine demo_balances)) +
     total (on_account ''acct'' (accepted (LedgerStateMachine demo_balances) [demo_debit, demo_debit2]))"
  by (rule ledger_accounting [where e = 0 and B = 10])
    (simp_all add: demo_balances_def demo_debit_def demo_debit2_def)

end
