(* ===== verification/Submitter.thy ===== *)
theory Submitter
  imports Raft_Client Ledger
begin

text \<open>
  settlement/submitter.py: scored transactions become ledger entries and are proposed to the
  cluster. \<open>propose_fn\<close> is the cluster's \<open>propose\<close> on a state of its own (None when it does not
  return); an exception other than the time-out escapes, as it does in the source.
\<close>

definition delta_for :: "transaction \<Rightarrow> decimal" where
  "delta_for t = (if txn_type t = CREDIT then txn_amount t else dec_neg (txn_amount t))"

record submitter =
  submitted_count :: nat
  fraud_flagged_count :: nat
  failed_transaction_ids :: "string list"

definition SettlementSubmitter :: submitter where
  "SettlementSubmitter = \<lparr>submitted_count = 0, fraud_flagged_count = 0, failed_transaction_ids = []\<rparr>"

definition entry_of :: "int \<Rightarrow> transaction \<Rightarrow> ledger_entry result" where
  "entry_of now t = LedgerEntry \<lparr>le_transaction_id = txn_id t, le_account_id = txn_account_id t,
     le_delta = delta_for t, le_entry_id = '''', le_created_at = now\<rparr>"

definition handle_scored ::
  "(ledger_entry \<Rightarrow> 'w \<Rightarrow> (ledger_entry log_entry result \<times> 'w) option) \<Rightarrow> int \<Rightarrow> scored_transaction
   \<Rightarrow> submitter \<times> 'w \<Rightarrow> (submitter \<times> 'w) result option" where
  "handle_scored propose_fn now scored sw =
     (let (s, w) = sw in
      if fs_is_fraud (sc_score scored) then Some (Inr (s\<lparr>fraud_flagged_count := fraud_flagged_count s + 1\<rparr>, w))
      else
        (case entry_of now (sc_transaction scored) of
           Inl e \<Rightarrow> Some (Inl e)
         | Inr entry \<Rightarrow>
             Option.bind (propose_fn entry w) (\<lambda>(r, w).
               case r of
                 Inr _ \<Rightarrow> Some (Inr (s\<lparr>submitted_count := submitted_count s + 1\<rparr>, w))
               | Inl TimeoutError \<Rightarrow>
                   Some (Inr (s\<lparr>failed_transaction_ids := failed_transaction_ids s @ [txn_id (sc_transaction scored)]\<rparr>, w))
               | Inl e \<Rightarrow> Some (Inl e))))"

text \<open>The loop of the submitter's thread over what it takes from the queue, in order.\<close>

fun submit_all ::
  "(ledger_entry \<Rightarrow> 'w \<Rightarrow> (ledger_entry log_entry result \<times> 'w) option) \<Rightarrow> (scored_transaction \<times> int) list
   \<Rightarrow> submitter \<times> 'w \<Rightarrow> (submitter \<times> 'w) result option" where
  "submit_all propose_fn [] sw = Some (Inr sw)"
| "submit_all propose_fn ((scored, now) # rest) sw =
     (case handle_scored propose_fn now scored sw of
        None \<Rightarrow> None
      | Some (Inl e) \<Rightarrow> Some (Inl e)
      | Some (Inr sw) \<Rightarrow> submit_all propose_fn rest sw)"

section \<open>Entries\<close>

lemma delta_for_sgn: "sgn (dec_val (delta_for t)) = (if txn_type t = CREDIT then 1 else -1) * sgn (dec_val (txn_amount t))"
  by (simp add: delta_for_def dec_neg_sgn)

text \<open>A valid transaction always gives a ledger entry: it is keyed by the transaction and moves the account the right way.\<close>

lemma entry_of_valid:
  assumes "valid_transaction t"
  shows "\<exists>e. entry_of now t = Inr e \<and> le_entry_id e = txn_id t \<and> le_transaction_id e = txn_id t \<and>
    le_account_id e = txn_account_id t \<and> le_delta e = delta_for t \<and>
    (txn_type t = CREDIT \<longrightarrow> dec_val (le_delta e) = dec_val (txn_amount t)) \<and>
    (txn_type t \<noteq> CREDIT \<longrightarrow> dec_val (le_delta e) < 0)"
proof -
  have pos: "0 < dec_val (txn_amount t)" using assms by (simp add: valid_transaction_def)
  have "sgn (dec_val (delta_for t)) = (if txn_type t = CREDIT then 1 else -1)"
    using pos by (simp add: delta_for_sgn)
  then have "dec_val (delta_for t) \<noteq> 0" "txn_type t \<noteq> CREDIT \<longrightarrow> dec_val (delta_for t) < 0"
    by (auto simp: sgn_if split: if_splits)
  then show ?thesis by (auto simp: entry_of_def LedgerEntry_def dec_eq_val Let_def delta_for_def)
qed

text \<open>A second proposal of the same transaction changes nothing and gets the first answer.\<close>

lemma resubmission:
  assumes "entry_of now t = Inr e" "entry_of now' t = Inr e'"
  shows "ledger_apply e' (fold ledger_step cs (ledger_step e sm)) =
    (fst (ledger_apply e sm), fold ledger_step cs (ledger_step e sm))"
proof -
  have "le_entry_id e' = le_entry_id e"
    using assms by (auto simp: entry_of_def LedgerEntry_Inr)
  then show ?thesis
    using ledger_apply_seen results_keep_all [OF ledger_step_result] by metis
qed

section \<open>Counting and forwarding\<close>

definition handled :: "submitter \<Rightarrow> nat" where
  "handled s = submitted_count s + fraud_flagged_count s + length (failed_transaction_ids s)"

definition flagged :: "(scored_transaction \<times> int) list \<Rightarrow> nat" where
  "flagged work = length (filter (\<lambda>(scored, now). fs_is_fraud (sc_score scored)) work)"

text \<open>The entries of the transactions that were not flagged.\<close>

definition cleared :: "(scored_transaction \<times> int) list \<Rightarrow> ledger_entry set" where
  "cleared work = {e. \<exists>(scored, now) \<in> set work. \<not> fs_is_fraud (sc_score scored) \<and> entry_of now (sc_transaction scored) = Inr e}"

definition work_ok :: "(scored_transaction \<times> int) list \<Rightarrow> bool" where
  "work_ok work \<longleftrightarrow> list_all (\<lambda>(scored, now). valid_transaction (sc_transaction scored)) work"

text \<open>
  Over any proposer that keeps its contract, every transaction taken from the queue is counted
  exactly once, as flagged, submitted or failed, and only cleared transactions are proposed.
\<close>

locale ledger_proposer = proposer propose_fn w_ok bg reach
  for propose_fn :: "ledger_entry \<Rightarrow> 'w \<Rightarrow> (ledger_entry log_entry result \<times> 'w) option"
    and w_ok :: "'w \<Rightarrow> bool" and bg :: "ledger_entry set" and reach :: "ledger_entry set \<Rightarrow> 'w \<Rightarrow> 'w \<Rightarrow> bool"
begin

lemma handle_scored_ok:
  assumes ok: "w_ok w" and bg: "bg \<subseteq> C" and valid: "valid_transaction (sc_transaction scored)"
    and clr: "\<And>e. \<not> fs_is_fraud (sc_score scored) \<Longrightarrow> entry_of now (sc_transaction scored) = Inr e \<Longrightarrow> e \<in> C"
  shows "\<exists>s' w'. handle_scored propose_fn now scored (s, w) = Some (Inr (s', w')) \<and> w_ok w' \<and> reach C w w' \<and>
    handled s' = handled s + 1 \<and>
    fraud_flagged_count s' = fraud_flagged_count s + (if fs_is_fraud (sc_score scored) then 1 else 0)"
proof (cases "fs_is_fraud (sc_score scored)")
  case True
  then show ?thesis using ok by (simp add: handle_scored_def handled_def reach_refl)
next
  case False
  obtain e where e: "entry_of now (sc_transaction scored) = Inr e" using entry_of_valid [OF valid] by blast
  have "insert e bg \<subseteq> C" using clr [OF False e] bg by blast
  then obtain r w' where r: "propose_fn e w = Some (r, w')" "w_ok w'" "reach C w w'" "\<And>err. r = Inl err \<Longrightarrow> err = TimeoutError"
    using answers [OF ok] by blast
  show ?thesis
  proof (cases r)
    case (Inl err)
    then have "err = TimeoutError" using r(4) by simp
    then show ?thesis using False e r(1-3) Inl by (simp add: handle_scored_def handled_def)
  next
    case (Inr le)
    then show ?thesis using False e r(1-3) by (simp add: handle_scored_def handled_def)
  qed
qed

lemma submit_all_ok:
  assumes "w_ok w" "work_ok work" "cleared work \<union> bg \<subseteq> C"
  shows "\<exists>s' w'. submit_all propose_fn work (s, w) = Some (Inr (s', w')) \<and> w_ok w' \<and> reach C w w' \<and>
    handled s' = handled s + length work \<and> fraud_flagged_count s' = fraud_flagged_count s + flagged work"
  using assms
proof (induction work arbitrary: s w)
  case Nil
  then show ?case by (simp add: reach_refl flagged_def)
next
  case (Cons x work)
  obtain scored now where x: "x = (scored, now)" by force
  have valid: "valid_transaction (sc_transaction scored)" and rest: "work_ok work"
    using Cons.prems(2) by (auto simp: x work_ok_def)
  have clr: "e \<in> C" if "\<not> fs_is_fraud (sc_score scored)" "entry_of now (sc_transaction scored) = Inr e" for e
    using Cons.prems(3) that by (auto simp: cleared_def x)
  have sub: "bg \<subseteq> C" "cleared work \<union> bg \<subseteq> C"
    using Cons.prems(3) by (auto simp: cleared_def x)
  obtain s1 w1 where one: "handle_scored propose_fn now scored (s, w) = Some (Inr (s1, w1))" "w_ok w1" "reach C w w1"
      "handled s1 = handled s + 1"
      "fraud_flagged_count s1 = fraud_flagged_count s + (if fs_is_fraud (sc_score scored) then 1 else 0)"
    using handle_scored_ok [OF Cons.prems(1) sub(1) valid clr] by blast
  then show ?case
    using Cons.IH [OF one(2) rest sub(2), of s1] reach_trans [OF one(3)] by (auto simp: x flagged_def)
qed

end

interpretation cluster_submitter: ledger_proposer "client_propose apl sched timeout" "\<lambda>cw. clock_ok (fst cw)" "sched_cmds sched"
  "\<lambda>C cw cw'. continues apl C (w_cluster (snd cw)) (w_cluster (snd cw'))" for apl sched timeout
  by (rule ledger_proposer.intro) (rule cluster_client.proposer_axioms)

end
