(* ===== verification/Settlement.thy ===== *)
theory Settlement
  imports Raft_Turns Submitter
begin

text \<open>
  The ledger as the state machine of a cluster, and the submitter in front of it: what holds of the
  balances and answers of all replicas, whatever the threads, the crashes and the partitions do.
\<close>

section \<open>Replicated ledgers\<close>

lemma ledger_cluster_histories:
  assumes "distinct ids" "cluster_run ledger_step acts (RaftCluster ids (LedgerStateMachine init) rnd tmin tmax hb interval) = Inr c"
  obtains h where "\<And>n. n \<in> set ids \<Longrightarrow> state_machine (node_of c n) = fold ledger_step (h n) (LedgerStateMachine init)"
    "\<And>n. n \<in> set ids \<Longrightarrow> set (h n) \<subseteq> proposals acts"
    "\<And>n m. n \<in> set ids \<Longrightarrow> m \<in> set ids \<Longrightarrow> prefix (h n) (h m) \<or> prefix (h m) (h n)"
  using cluster_machines [OF ledger_machine.idempotent_machine_axioms assms] by blast

text \<open>
  Three replicas with 10 on an account; the leader is asked for two debits of 7, replicates
  both and commits them.
\<close>

definition ledger_actions :: "ledger_entry action list" where
  "ledger_actions = [Start ''a'' 0, Start ''b'' 0, Start ''c'' 0,
     Tick ''a'' 5, Deliver ''b'' 6, Deliver ''a'' 7, Deliver ''b'' 8, Deliver ''a'' 9,
     Propose ''a'' demo_debit 10, Propose ''a'' demo_debit2 10, Deliver ''b'' 11, Deliver ''b'' 11, Deliver ''b'' 11,
     Deliver ''a'' 12, Deliver ''a'' 12, Deliver ''a'' 12, Tick ''a'' 15, Deliver ''b'' 16]"

definition ledger_start :: "(ledger_entry, ledger) raft_cluster" where
  "ledger_start = RaftCluster demo_ids (LedgerStateMachine demo_balances) demo_random 3 6 1 1"

definition ledger_end :: "(ledger_entry, ledger) raft_cluster" where
  "ledger_end = (case cluster_run ledger_step ledger_actions ledger_start of Inr c \<Rightarrow> c | Inl _ \<Rightarrow> ledger_start)"

lemma ledger_run: "cluster_run ledger_step ledger_actions (RaftCluster demo_ids (LedgerStateMachine demo_balances) demo_random 3 6 1 1) = Inr ledger_end"
proof -
  have "\<forall>a \<in> set ledger_actions. names_nodes demo_ids a" by (simp add: demo_ids_def ledger_actions_def)
  then obtain c where "cluster_run ledger_step ledger_actions ledger_start = Inr c"
    unfolding ledger_start_def by (rule cluster_execution [OF demo_names(1)])
  then show ?thesis unfolding ledger_start_def [symmetric] by (simp add: ledger_end_def)
qed

text \<open>
  After any execution of a cluster of ledgers, two replicas that have an answer to an entry have the
  same answer to it: accepted or not, with the same resulting balance.
\<close>

lemma ledger_answers_agree:
  assumes "distinct ids" "cluster_run ledger_step acts (RaftCluster ids (LedgerStateMachine init) rnd tmin tmax hb interval) = Inr c"
    "n \<in> set ids" "m \<in> set ids"
    "dict_get (results (state_machine (node_of c n))) k = Some r" "dict_get (results (state_machine (node_of c m))) k = Some r'"
  shows "r = r'"
proof -
  obtain h where h: "\<And>n. n \<in> set ids \<Longrightarrow> state_machine (node_of c n) = fold ledger_step (h n) (LedgerStateMachine init)"
    "\<And>n m. n \<in> set ids \<Longrightarrow> m \<in> set ids \<Longrightarrow> prefix (h n) (h m) \<or> prefix (h m) (h n)"
    using ledger_cluster_histories [OF assms(1,2)] by metis
  have keep: "dict_get (results (fold ledger_step ys sm)) k = Some r"
    if "prefix xs ys" "dict_get (results (fold ledger_step xs sm)) k = Some r" for xs ys sm r
    using that results_keep_all by (auto simp: prefix_def)
  show ?thesis
    using h(2) [OF assms(3,4)] keep [of "h n" "h m"] keep [of "h m" "h n"] assms(5,6) h(1) [OF assms(3)] h(1) [OF assms(4)] by fastforce
qed

text \<open>
  C10: After any execution of a cluster whose ledgers start without a debt, no replica shows an account
  below zero: conflicting debits are never both accepted beyond the funds, on any replica.
\<close>

theorem ledger_cluster_solvent:
  assumes "distinct ids" "cluster_run ledger_step acts (RaftCluster ids (LedgerStateMachine init) rnd tmin tmax hb interval) = Inr c"
    "n \<in> set ids" "\<forall>x \<in> set (dict_values init). 0 \<le> dec_val x"
  shows "0 \<le> dec_val (balance a (state_machine (node_of c n)))"
  using ledger_cluster_histories [OF assms(1,2)] solvent_run [OF solvent_init [OF assms(4)]] assms(3)
  by (metis solvent_def)

theorem ledger_cluster_solvent_witness:
  "0 \<le> dec_val (balance ''acct'' (state_machine (node_of ledger_end ''b'')))"
  by (rule ledger_cluster_solvent [OF demo_names(1) ledger_run]) (simp_all add: demo_ids_def demo_balances_def dec_val_def)

section \<open>From scored transactions to the ledgers\<close>

lemma cluster_applied:
  assumes "distinct ids" "continues ledger_step C (RaftCluster ids (LedgerStateMachine init) rnd tmin tmax hb interval) c" "m \<in> set ids"
  shows "\<exists>h. state_machine (node_of c m) = fold ledger_step h (LedgerStateMachine init) \<and> set h \<subseteq> C"
proof -
  let ?c0 = "RaftCluster ids (LedgerStateMachine init) rnd tmin tmax hb interval :: (ledger_entry, ledger) raft_cluster"
  obtain acts where acts: "cluster_run ledger_step acts (forget ?c0) = Inr (forget c)" "proposals acts \<subseteq> C"
    using assms(2) by (auto simp: continues_def)
  have "forget ?c0 = ?c0" by (simp add: forget_def RaftCluster_def Let_def)
  then have "cluster_run ledger_step acts ?c0 = Inr (forget c)" using acts(1) by simp
  from ledger_cluster_histories [OF assms(1) this]
  obtain h where h: "\<And>n. n \<in> set ids \<Longrightarrow> state_machine (node_of (forget c) n) = fold ledger_step (h n) (LedgerStateMachine init)"
    "\<And>n. n \<in> set ids \<Longrightarrow> set (h n) \<subseteq> proposals acts" by metis
  then show ?thesis using h(1) [OF assms(3)] subset_trans [OF h(2) [OF assms(3)] acts(2)] by auto
qed

text \<open>
  The submitter over a cluster of ledgers, with node threads and faults going on beside it: it works
  off every queue of valid scored transactions, counts each exactly once as submitted, flagged or failed,
  and at the end every replica is the result of applying entries of transactions that were not flagged.
\<close>

lemma settlement_end_to_end:
  assumes "distinct ids" "clock_ok clock" "work_ok work" "sched_cmds sched = {}"
  shows "\<exists>s' w'. submit_all (client_propose ledger_step sched timeout) work
      (SettlementSubmitter, clock, \<lparr>w_cluster = RaftCluster ids (LedgerStateMachine init) rnd tmin tmax hb interval, w_reads = 0\<rparr>) =
      Some (Inr (s', w')) \<and>
    submitted_count s' + fraud_flagged_count s' + length (failed_transaction_ids s') = length work \<and>
    fraud_flagged_count s' = flagged work \<and>
    (\<forall>n. n \<notin> set ids \<or> (\<exists>h. set h \<subseteq> cleared work \<and>
      state_machine (node_of (w_cluster (snd w')) n) = fold ledger_step h (LedgerStateMachine init)))"
proof -
  let ?c = "RaftCluster ids (LedgerStateMachine init) rnd tmin tmax hb interval :: (ledger_entry, ledger) raft_cluster"
  obtain s' w' where s': "submit_all (client_propose ledger_step sched timeout) work
      (SettlementSubmitter, clock, \<lparr>w_cluster = ?c, w_reads = 0\<rparr>) = Some (Inr (s', w'))"
    "handled s' = handled SettlementSubmitter + length work"
    "fraud_flagged_count s' = fraud_flagged_count SettlementSubmitter + flagged work"
    "continues ledger_step (cleared work) ?c (w_cluster (snd w'))"
    using cluster_submitter.submit_all_ok [of "(clock, \<lparr>w_cluster = ?c, w_reads = 0\<rparr>)" work sched "cleared work"
        ledger_step timeout SettlementSubmitter] assms by auto
  have "n \<notin> set ids \<or> (\<exists>h. set h \<subseteq> cleared work \<and>
      state_machine (node_of (w_cluster (snd w')) n) = fold ledger_step h (LedgerStateMachine init))" for n
    using cluster_applied [OF assms(1) s'(4)] by blast
  then show ?thesis using s'(1-3) by (intro exI [of _ s'] exI [of _ w']) (simp add: handled_def SettlementSubmitter_def)
qed

end
