(* ===== verification/Coordinator.thy ===== *)
theory Coordinator
  imports Fraud_Threads Settlement
begin

text \<open>
  The coordinator (coordinator/coordinator.py): it owns the stream, the group, the queue, the threads of
  the fraud workers and the submitter in front of a Raft cluster, and evicts workers that fall silent.
  The cluster is the state of type \<open>'w\<close>; \<open>propose_fn\<close> is its \<open>propose\<close>, \<open>env\<close> what its own threads and fault
  injection do to it.
\<close>

section \<open>The coordinator\<close>

text \<open>\<open>fraud_runtimes\<close> maps a member to its runtime, whose thread is the one at that place of \<open>co_threads\<close>.\<close>

record 'w coordinator =
  co_pipeline :: pipeline
  co_threads :: "worker_thread list"
  co_runtimes :: "(string, nat) dict"
  co_scorer_config :: scorer_config
  co_submitter :: submitter
  co_submitter_error :: "py_error option"
  co_running :: bool
  co_owns_raft_cluster :: bool
  co_raft_cluster :: 'w

definition spawn_fraud_worker :: "string \<Rightarrow> 'w coordinator \<Rightarrow> 'w coordinator" where
  "spawn_fraud_worker member co =
     co\<lparr>co_threads := co_threads co @ [FraudWorkerRuntime member (RuleBasedScorer member (co_scorer_config co))],
        co_runtimes := dict_set member (length (co_threads co)) (co_runtimes co)\<rparr>"

definition member_name :: "nat \<Rightarrow> string" where
  "member_name i = ''fraud-'' @ int_str (int i)"

definition Coordinator :: "int \<Rightarrow> nat \<Rightarrow> rat \<Rightarrow> scorer_config \<Rightarrow> bool \<Rightarrow> 'w \<Rightarrow> 'w coordinator result" where
  "Coordinator n num_fraud_workers session_timeout config owns w =
     rbind (PartitionedLog ''transactions'' n) (\<lambda>l.
       rbind (ConsumerGroup ''fraud-workers'' n session_timeout) (\<lambda>g.
         Inr (fold (\<lambda>i. spawn_fraud_worker (member_name i)) [0..<num_fraud_workers]
           \<lparr>co_pipeline = \<lparr>pi_log = l, pi_group = g, pi_queue = \<lparr>q_maxsize = 1000, q_items = []\<rparr>, pi_taken = []\<rparr>,
            co_threads = [], co_runtimes = [], co_scorer_config = config, co_submitter = SettlementSubmitter,
            co_submitter_error = None, co_running = False, co_owns_raft_cluster = owns, co_raft_cluster = w\<rparr>)))"

definition start_runtime :: "rat \<Rightarrow> nat \<Rightarrow> 'w coordinator \<Rightarrow> 'w coordinator result" where
  "start_runtime now i co =
     rbind (runtime_start_worker now (co_threads co ! i) (co_pipeline co)) (\<lambda>(th, pl).
       Inr (co\<lparr>co_threads := (co_threads co)[i := th], co_pipeline := pl\<rparr>))"

fun start_runtimes :: "(nat \<Rightarrow> rat) \<Rightarrow> nat list \<Rightarrow> 'w coordinator \<Rightarrow> 'w coordinator result" where
  "start_runtimes nows [] co = Inr co"
| "start_runtimes nows (i # is) co = rbind (start_runtime (nows i) i co) (start_runtimes nows is)"

text \<open>\<open>start_w\<close> and \<open>stop_w\<close> are \<open>start\<close> and \<open>stop\<close> of the cluster.\<close>

definition coordinator_start :: "('w \<Rightarrow> 'w) \<Rightarrow> (nat \<Rightarrow> rat) \<Rightarrow> 'w coordinator \<Rightarrow> 'w coordinator result" where
  "coordinator_start start_w nows co =
     (let co = (if co_owns_raft_cluster co then co\<lparr>co_raft_cluster := start_w (co_raft_cluster co)\<rparr> else co)
      in rbind (start_runtimes nows (dict_values (co_runtimes co)) co) (\<lambda>co. Inr (co\<lparr>co_running := True\<rparr>)))"

definition stop_runtime :: "nat \<Rightarrow> 'w coordinator \<Rightarrow> 'w coordinator" where
  "stop_runtime i co = co\<lparr>co_threads := (co_threads co)[i := runtime_stop_worker (co_threads co ! i)]\<rparr>"

definition coordinator_stop :: "('w \<Rightarrow> 'w) \<Rightarrow> 'w coordinator \<Rightarrow> 'w coordinator" where
  "coordinator_stop stop_w co =
     (let co = fold stop_runtime (dict_values (co_runtimes co)) (co\<lparr>co_running := False\<rparr>)
      in if co_owns_raft_cluster co then co\<lparr>co_raft_cluster := stop_w (co_raft_cluster co)\<rparr> else co)"

definition submit_transaction :: "(string \<Rightarrow> nat list) \<Rightarrow> transaction \<Rightarrow> int \<Rightarrow> 'w coordinator \<Rightarrow> 'w coordinator result" where
  "submit_transaction md5 t now co =
     rbind (produce md5 (partition_key t) t now (pi_log (co_pipeline co))) (\<lambda>(r, l).
       Inr (co\<lparr>co_pipeline := (co_pipeline co)\<lparr>pi_log := l\<rparr>\<rparr>))"

definition kill_fraud_worker :: "string \<Rightarrow> 'w coordinator \<Rightarrow> 'w coordinator result" where
  "kill_fraud_worker member co =
     (case dict_get (co_runtimes co) member of None \<Rightarrow> Inl KeyError | Some i \<Rightarrow> Inr (stop_runtime i co))"

definition revive_fraud_worker :: "string \<Rightarrow> rat \<Rightarrow> 'w coordinator \<Rightarrow> 'w coordinator result" where
  "revive_fraud_worker member now co = start_runtime now (length (co_threads co)) (spawn_fraud_worker member co)"

text \<open>A turn of the health check's loop.\<close>

definition health_check :: "rat \<Rightarrow> 'w coordinator \<Rightarrow> 'w coordinator" where
  "health_check now co =
     (if co_running co then
        co\<lparr>co_pipeline := (co_pipeline co)\<lparr>pi_group := snd (check_expired_members now (pi_group (co_pipeline co)))\<rparr>\<rparr>
      else co)"

text \<open>A turn of the submitter's loop: it takes what is first in the queue, if anything is, and handles it.\<close>

definition submitter_turn ::
  "(ledger_entry \<Rightarrow> 'w \<Rightarrow> (ledger_entry log_entry result \<times> 'w) option) \<Rightarrow> int \<Rightarrow> 'w coordinator \<Rightarrow> 'w coordinator option" where
  "submitter_turn propose_fn now co =
     (if \<not> co_running co \<or> co_submitter_error co \<noteq> None then Some co
      else case q_items (pi_queue (co_pipeline co)) of
             [] \<Rightarrow> Some co
           | scored # rest \<Rightarrow>
               (let pl = co_pipeline co;
                    co = co\<lparr>co_pipeline := pl\<lparr>pi_queue := (pi_queue pl)\<lparr>q_items := rest\<rparr>, pi_taken := pi_taken pl @ [scored]\<rparr>\<rparr>
                in case handle_scored propose_fn now scored (co_submitter co, co_raft_cluster co) of
                     None \<Rightarrow> None
                   | Some (Inl e) \<Rightarrow> Some (co\<lparr>co_submitter_error := Some e\<rparr>)
                   | Some (Inr (s, w)) \<Rightarrow> Some (co\<lparr>co_submitter := s, co_raft_cluster := w\<rparr>)))"

definition worker_step :: "nat \<Rightarrow> readings \<Rightarrow> 'w coordinator \<Rightarrow> 'w coordinator" where
  "worker_step i rd co =
     (if i < length (co_threads co) then
        (let (th, pl) = thread_step rd (co_threads co ! i, co_pipeline co)
         in co\<lparr>co_threads := (co_threads co)[i := th], co_pipeline := pl\<rparr>)
      else co)"

section \<open>Executions\<close>

text \<open>
  What can happen next: a call of the coordinator, a step of one of its threads, or something in the
  cluster. A call that raises tells its caller and leaves the coordinator as it is.
\<close>

datatype 'e co_action =
    CoStart 'e "nat \<Rightarrow> rat"
  | CoStop 'e
  | CoSubmit transaction int
  | CoKill string
  | CoRevive string rat
  | CoWorker nat readings
  | CoHealth rat
  | CoSettle int
  | CoCluster 'e

definition on_error :: "'a \<Rightarrow> 'a result \<Rightarrow> 'a" where
  "on_error x r = (case r of Inl e \<Rightarrow> x | Inr y \<Rightarrow> y)"

fun coordinator_act ::
  "(string \<Rightarrow> nat list) \<Rightarrow> (ledger_entry \<Rightarrow> 'w \<Rightarrow> (ledger_entry log_entry result \<times> 'w) option) \<Rightarrow> ('e \<Rightarrow> 'w \<Rightarrow> 'w)
   \<Rightarrow> 'e co_action \<Rightarrow> 'w coordinator \<Rightarrow> 'w coordinator option" where
  "coordinator_act md5 propose_fn env (CoStart e nows) co = Some (on_error co (coordinator_start (env e) nows co))"
| "coordinator_act md5 propose_fn env (CoStop e) co = Some (coordinator_stop (env e) co)"
| "coordinator_act md5 propose_fn env (CoSubmit t now) co = Some (on_error co (submit_transaction md5 t now co))"
| "coordinator_act md5 propose_fn env (CoKill m) co = Some (on_error co (kill_fraud_worker m co))"
| "coordinator_act md5 propose_fn env (CoRevive m now) co = Some (on_error co (revive_fraud_worker m now co))"
| "coordinator_act md5 propose_fn env (CoWorker i rd) co = Some (worker_step i rd co)"
| "coordinator_act md5 propose_fn env (CoHealth now) co = Some (health_check now co)"
| "coordinator_act md5 propose_fn env (CoSettle now) co = submitter_turn propose_fn now co"
| "coordinator_act md5 propose_fn env (CoCluster e) co = Some (co\<lparr>co_raft_cluster := env e (co_raft_cluster co)\<rparr>)"

fun coordinator_run ::
  "(string \<Rightarrow> nat list) \<Rightarrow> (ledger_entry \<Rightarrow> 'w \<Rightarrow> (ledger_entry log_entry result \<times> 'w) option) \<Rightarrow> ('e \<Rightarrow> 'w \<Rightarrow> 'w)
   \<Rightarrow> 'e co_action list \<Rightarrow> 'w coordinator \<Rightarrow> 'w coordinator option" where
  "coordinator_run md5 propose_fn env [] co = Some co"
| "coordinator_run md5 propose_fn env (a # acts) co =
     Option.bind (coordinator_act md5 propose_fn env a co) (coordinator_run md5 propose_fn env acts)"

text \<open>The transactions of an execution; the caller has built each of them, so that each is valid.\<close>

fun submissions :: "'e co_action list \<Rightarrow> transaction list" where
  "submissions [] = []"
| "submissions (CoSubmit t now # acts) = t # submissions acts"
| "submissions (_ # acts) = submissions acts"

section \<open>The invariant\<close>

text \<open>The transactions of the stream.\<close>

definition logged_txns :: "pipeline \<Rightarrow> transaction set" where
  "logged_txns pl = \<Union> ((\<lambda>rs. lr_value ` set rs) ` set (pl_partitions (pi_log pl)))"

text \<open>The ledger entries of what was taken from the queue and not flagged.\<close>

definition cleared_entries :: "scored_transaction list \<Rightarrow> ledger_entry set" where
  "cleared_entries xs = {e. \<exists>s \<in> set xs. \<exists>now. \<not> fs_is_fraud (sc_score s) \<and> entry_of now (sc_transaction s) = Inr e}"

definition co_pipe_ok :: "transaction set \<Rightarrow> 'w coordinator \<Rightarrow> bool" where
  "co_pipe_ok T co \<longleftrightarrow> pipeline_ok (co_pipeline co) \<and> (\<forall>th \<in> set (co_threads co). thread_ok (co_pipeline co) th) \<and>
     weights_ok (co_scorer_config co) \<and> (\<forall>i \<in> set (dict_values (co_runtimes co)). i < length (co_threads co)) \<and>
     logged_txns (co_pipeline co) \<subseteq> T"

definition same_settlement :: "'w coordinator \<Rightarrow> 'w coordinator \<Rightarrow> bool" where
  "same_settlement co co' \<longleftrightarrow> co_submitter co' = co_submitter co \<and> co_submitter_error co' = co_submitter_error co \<and>
     pi_taken (co_pipeline co') = pi_taken (co_pipeline co)"

lemma same_settlement_trans: "same_settlement co co1 \<Longrightarrow> same_settlement co1 co2 \<Longrightarrow> same_settlement co co2"
  by (simp add: same_settlement_def)

lemma taken_logged: "pipeline_ok pl \<Longrightarrow> s \<in> set (handed_on pl) \<Longrightarrow> sc_transaction s \<in> logged_txns pl"
  by (fastforce simp: pipeline_ok_def from_log_def logged_txns_def)

lemma pipe_ok_update:
  assumes ok: "co_pipe_ok T co" and pl: "pipeline_ok pl" "pipe_grows (co_pipeline co) pl" and th: "thread_ok pl th"
    and txns: "logged_txns pl \<subseteq> T"
  shows "co_pipe_ok T (co\<lparr>co_threads := (co_threads co)[i := th], co_pipeline := pl\<rparr>)"
proof -
  have "thread_ok pl t" if "t \<in> set ((co_threads co)[i := th])" for t
    using that set_update_subset_insert [of "co_threads co" i th] ok thread_ok_grows [OF pl(2)] th by (auto simp: co_pipe_ok_def)
  then show ?thesis using ok pl txns by (simp add: co_pipe_ok_def)
qed

lemma pipe_ok_pipeline:
  assumes "co_pipe_ok T co" "pipeline_ok pl" "pipe_grows (co_pipeline co) pl" "logged_txns pl \<subseteq> T"
  shows "co_pipe_ok T (co\<lparr>co_pipeline := pl\<rparr>)"
  using assms thread_ok_grows [OF assms(3)] by (simp add: co_pipe_ok_def)

lemma logged_same: "pl_partitions (pi_log pl') = pl_partitions (pi_log pl) \<Longrightarrow> logged_txns pl' = logged_txns pl"
  by (simp add: logged_txns_def)

lemma thread_step_partitions: "pl_partitions (pi_log (snd (thread_step rd (th, pl)))) = pl_partitions (pi_log pl)"
  by (auto simp: thread_step_def die_def Let_def group_commit_def commit_offset_def check_partition_def
      split: worker_pc.splits list.splits sum.splits prod.splits if_splits)

lemma worker_step_ok:
  assumes "co_pipe_ok T co"
  shows "co_pipe_ok T (worker_step i rd co) \<and> same_settlement co (worker_step i rd co)"
proof (cases "i < length (co_threads co)")
  case True
  obtain th pl where tp: "thread_step rd (co_threads co ! i, co_pipeline co) = (th, pl)" by force
  have "step_ok (co_pipeline co) (co_threads co ! i) (th, pl)"
    using thread_step_ok [of "co_pipeline co" "co_threads co ! i" rd] assms True by (simp add: co_pipe_ok_def tp)
  then have s: "pipeline_ok pl" "pipe_grows (co_pipeline co) pl" "thread_ok pl th" "pi_taken pl = pi_taken (co_pipeline co)"
    by (auto simp: step_ok_def)
  have "logged_txns pl \<subseteq> T"
    using logged_same [OF thread_step_partitions [of rd "co_threads co ! i" "co_pipeline co"]] assms by (simp add: tp co_pipe_ok_def)
  then show ?thesis
    using pipe_ok_update [OF assms s(1-3)] True s(4) by (simp add: worker_step_def tp same_settlement_def)
qed (use assms in \<open>simp add: worker_step_def same_settlement_def\<close>)

lemma start_runtime_ok:
  assumes "co_pipe_ok T co" "i < length (co_threads co)"
  shows "\<exists>co'. start_runtime now i co = Inr co' \<and> co_pipe_ok T co' \<and> same_settlement co co' \<and>
    length (co_threads co') = length (co_threads co) \<and> co_runtimes co' = co_runtimes co \<and> co_raft_cluster co' = co_raft_cluster co"
proof -
  let ?th = "co_threads co ! i" and ?pl = "co_pipeline co"
  have bal: "balanced (pi_group ?pl)" and ok: "pipeline_ok ?pl" using assms(1) by (auto simp: co_pipe_ok_def pipeline_ok_def)
  obtain ps g where j: "join (wt_member ?th) now (pi_group ?pl) = Inr (ps, g)" using join_ok [OF bal] by blast
  note g = pipeline_ok_group [OF ok, of g] group_ops_keep(3) [OF bal j]
  have "thread_ok (?pl\<lparr>pi_group := g\<rparr>) (?th\<lparr>wt_stop := False, wt_last_heartbeat := 0, wt_pc := Turn\<rparr>)"
    using assms by (simp add: co_pipe_ok_def thread_ok_def pc_ok_def)
  then show ?thesis
    using pipe_ok_update [OF assms(1), of "?pl\<lparr>pi_group := g\<rparr>"] g assms(1)
    by (auto simp: start_runtime_def runtime_start_worker_def j same_settlement_def logged_txns_def co_pipe_ok_def)
qed

lemma start_runtimes_ok:
  assumes "co_pipe_ok T co" "\<forall>i \<in> set is. i < length (co_threads co)"
  shows "\<exists>co'. start_runtimes nows is co = Inr co' \<and> co_pipe_ok T co' \<and> same_settlement co co' \<and>
    length (co_threads co') = length (co_threads co) \<and> co_runtimes co' = co_runtimes co \<and> co_raft_cluster co' = co_raft_cluster co"
  using assms
proof (induction "is" arbitrary: co)
  case (Cons i "is")
  obtain co1 where c1: "start_runtime (nows i) i co = Inr co1" "co_pipe_ok T co1" "same_settlement co co1"
    "length (co_threads co1) = length (co_threads co)" "co_runtimes co1 = co_runtimes co" "co_raft_cluster co1 = co_raft_cluster co"
    using start_runtime_ok [OF Cons.prems(1), of i "nows i"] Cons.prems(2) by auto
  then show ?case using Cons.IH [OF c1(2)] Cons.prems(2) same_settlement_trans [OF c1(3)] by auto
qed (simp add: same_settlement_def)

lemma stop_runtime_ok:
  assumes "co_pipe_ok T co" "i < length (co_threads co)"
  shows "co_pipe_ok T (stop_runtime i co) \<and> same_settlement co (stop_runtime i co)"
proof -
  have "thread_ok (co_pipeline co) (runtime_stop_worker (co_threads co ! i))"
    using assms by (simp add: co_pipe_ok_def thread_ok_def runtime_stop_worker_def)
  moreover have "logged_txns (co_pipeline co) \<subseteq> T" "pipeline_ok (co_pipeline co)" using assms(1) by (auto simp: co_pipe_ok_def)
  ultimately show ?thesis
    using pipe_ok_update [OF assms(1), of "co_pipeline co" "runtime_stop_worker (co_threads co ! i)" i]
    by (simp add: stop_runtime_def same_settlement_def co_pipe_ok_def)
qed

lemma stop_runtimes_ok:
  assumes "co_pipe_ok T co" "\<forall>i \<in> set is. i < length (co_threads co)"
  shows "co_pipe_ok T (fold stop_runtime is co) \<and> same_settlement co (fold stop_runtime is co)"
  using assms
proof (induction "is" arbitrary: co)
  case (Cons i "is")
  have s: "co_pipe_ok T (stop_runtime i co)" "same_settlement co (stop_runtime i co)" using stop_runtime_ok [OF Cons.prems(1)] Cons.prems(2) by auto
  have "length (co_threads (stop_runtime i co)) = length (co_threads co)" by (simp add: stop_runtime_def)
  then show ?case using Cons.IH [OF s(1)] Cons.prems(2) same_settlement_trans [OF s(2)] by simp
qed (simp add: same_settlement_def)

lemma spawn_ok:
  assumes "co_pipe_ok T co"
  shows "co_pipe_ok T (spawn_fraud_worker m co) \<and> same_settlement co (spawn_fraud_worker m co)"
proof -
  let ?th = "FraudWorkerRuntime m (RuleBasedScorer m (co_scorer_config co))"
  have "thread_ok (co_pipeline co) ?th"
    using assms by (simp add: thread_ok_def FraudWorkerRuntime_def RuleBasedScorer_def pc_ok_def co_pipe_ok_def)
  moreover have "i < Suc (length (co_threads co))" if "i \<in> set (dict_values (dict_set m (length (co_threads co)) (co_runtimes co)))" for i
    using that assms dict_values_set [of m "length (co_threads co)" "co_runtimes co"] by (fastforce simp: co_pipe_ok_def)
  ultimately show ?thesis using assms by (auto simp: spawn_fraud_worker_def co_pipe_ok_def same_settlement_def)
qed

lemma partitions_mem: "rs \<in> set (pl_partitions l) \<longleftrightarrow> (\<exists>q. 0 \<le> q \<and> q < num_partitions l \<and> rs = pl_partitions l ! nat q)"
  by (auto simp: in_set_conv_nth num_partitions_def) (metis nat_int of_nat_0_le_iff of_nat_less_iff, metis nat_less_iff)

lemma logged_txns_iff: "t \<in> logged_txns pl \<longleftrightarrow> (\<exists>q r. in_range pl q \<and> r \<in> set (part pl q) \<and> t = lr_value r)"
  unfolding logged_txns_def using partitions_mem [of _ "pi_log pl"] by (auto simp: image_iff) blast+

lemma submit_ok:
  assumes ok: "co_pipe_ok T co"
  shows "\<exists>co'. submit_transaction md5 t now co = Inr co' \<and> co_pipe_ok (insert t T) co' \<and> same_settlement co co' \<and>
    co_raft_cluster co' = co_raft_cluster co \<and> logged_txns (co_pipeline co') = insert t (logged_txns (co_pipeline co))"
proof -
  let ?pl = "co_pipeline co"
  have lok: "log_ok (pi_log ?pl)" and pok: "pipeline_ok ?pl" using ok by (auto simp: co_pipe_ok_def pipeline_ok_def)
  obtain r l where p: "produce md5 (partition_key t) t now (pi_log ?pl) = Inr (r, l)" using produce_ends [OF lok] by blast
  let ?pl' = "?pl\<lparr>pi_log := l\<rparr>"
  note k = produce_key_order [OF lok p]
  have np: "num_partitions l = num_partitions (pi_log ?pl)" by (rule k(3))
  have rp: "in_range ?pl (lr_partition r)"
    using k(1) key_to_partition_range [of "num_partitions (pi_log ?pl)" md5 "partition_key t"] lok by (auto simp: log_ok_def)
  have parts: "part ?pl' q = part ?pl q @ (if q = lr_partition r then [r] else [])" if "in_range ?pl q" for q
    using k(6) k(7) [of q] that by auto
  have off: "offset_of (pi_group ?pl) l q = offset_of (pi_group ?pl) (pi_log ?pl) q" for q
    using p by (auto simp: produce_def append_record_def offset_of_def Let_def rbind_Inr_conv)
  have g: "pipe_grows ?pl ?pl'" using np parts by (simp add: pipe_grows_def handed_on_def)
  have "u \<in> logged_txns ?pl' \<longleftrightarrow> u = t \<or> u \<in> logged_txns ?pl" for u
  proof -
    have "u \<in> logged_txns ?pl' \<longleftrightarrow> (\<exists>q s. in_range ?pl q \<and> (s \<in> set (part ?pl q) \<or> q = lr_partition r \<and> s = r) \<and> u = lr_value s)"
      unfolding logged_txns_iff by (rule arg_cong [of _ _ Ex], rule ext, rule arg_cong [of _ _ Ex], rule ext) (use parts np in auto)
    then show ?thesis unfolding logged_txns_iff using rp k(4) by blast
  qed
  then have txns: "logged_txns ?pl' = insert t (logged_txns ?pl)" by blast
  have "from_log ?pl'"
    using pok txns by (fastforce simp: pipeline_ok_def from_log_def handed_on_def logged_txns_def)
  then have "pipeline_ok ?pl'"
    using pok delivered_grows [OF g] k(2) np by (auto simp: pipeline_ok_def off)
  then have "co_pipe_ok (insert t T) (co\<lparr>co_pipeline := ?pl'\<rparr>)"
    using pipe_ok_pipeline [OF _ _ g, of "insert t T"] ok txns by (auto simp: co_pipe_ok_def)
  then show ?thesis by (simp add: submit_transaction_def p same_settlement_def txns)
qed

lemma health_ok:
  assumes "co_pipe_ok T co"
  shows "co_pipe_ok T (health_check now co) \<and> same_settlement co (health_check now co)"
proof -
  have bal: "balanced (pi_group (co_pipeline co))" and ok: "pipeline_ok (co_pipeline co)"
    using assms by (auto simp: co_pipe_ok_def pipeline_ok_def)
  obtain ms g where e: "check_expired_members now (pi_group (co_pipeline co)) = (ms, g)" by force
  note g = pipeline_ok_group [OF ok, of g] group_ops_keep(4) [OF bal e]
  show ?thesis
    using assms g pipe_ok_pipeline [OF assms, of "(co_pipeline co)\<lparr>pi_group := g\<rparr>"]
    by (auto simp: health_check_def e same_settlement_def logged_txns_def co_pipe_ok_def)
qed

lemma take_ok:
  assumes "co_pipe_ok T co" "q_items (pi_queue (co_pipeline co)) = x # xs"
  defines "pl \<equiv> (co_pipeline co)\<lparr>pi_queue := (pi_queue (co_pipeline co))\<lparr>q_items := xs\<rparr>, pi_taken := pi_taken (co_pipeline co) @ [x]\<rparr>"
  shows "co_pipe_ok T (co\<lparr>co_pipeline := pl\<rparr>)"
proof -
  have h: "handed_on pl = handed_on (co_pipeline co)" by (simp add: pl_def handed_on_def assms(2))
  have g: "pipe_grows (co_pipeline co) pl" by (simp add: pipe_grows_def h) (simp add: pl_def)
  have "pipeline_ok pl"
    using assms(1) unfolding co_pipe_ok_def pipeline_ok_def from_log_def delivered_def h by (simp add: pl_def)
  moreover have "logged_txns pl = logged_txns (co_pipeline co)" by (simp add: pl_def logged_txns_def)
  ultimately show ?thesis using pipe_ok_pipeline [OF assms(1) _ g] assms(1) by (simp add: co_pipe_ok_def)
qed

section \<open>Over any cluster that keeps its contract\<close>

locale ledger_backend = ledger_proposer propose_fn w_ok bg reach
  for propose_fn :: "ledger_entry \<Rightarrow> 'w \<Rightarrow> (ledger_entry log_entry result \<times> 'w) option"
    and w_ok :: "'w \<Rightarrow> bool" and bg :: "ledger_entry set" and reach :: "ledger_entry set \<Rightarrow> 'w \<Rightarrow> 'w \<Rightarrow> bool" +
  fixes env :: "'e \<Rightarrow> 'w \<Rightarrow> 'w"
  assumes reach_mono: "C \<subseteq> D \<Longrightarrow> reach C w w' \<Longrightarrow> reach D w w'"
    and env_ok: "w_ok w \<Longrightarrow> w_ok (env e w)"
    and env_reach: "reach bg w (env e w)"
begin

definition settled :: "'w \<Rightarrow> 'w coordinator \<Rightarrow> bool" where
  "settled w0 co \<longleftrightarrow> w_ok (co_raft_cluster co) \<and> co_submitter_error co = None \<and>
     handled (co_submitter co) = length (pi_taken (co_pipeline co)) \<and>
     reach (cleared_entries (pi_taken (co_pipeline co)) \<union> bg) w0 (co_raft_cluster co)"

lemma settled_same: "settled w0 co \<Longrightarrow> same_settlement co co' \<Longrightarrow> co_raft_cluster co' = co_raft_cluster co \<Longrightarrow> settled w0 co'"
  by (simp add: settled_def same_settlement_def)

lemma settled_env: "settled w0 co \<Longrightarrow> settled w0 (co\<lparr>co_raft_cluster := env e (co_raft_cluster co)\<rparr>)"
  using reach_trans [OF _ reach_mono [OF Un_upper2 env_reach]] env_ok by (auto simp: settled_def)

lemma settle_ok:
  assumes ok: "co_pipe_ok T co" and set: "settled w0 co" and valid: "\<forall>t \<in> T. valid_transaction t"
  shows "\<exists>co'. submitter_turn propose_fn now co = Some co' \<and> co_pipe_ok T co' \<and> settled w0 co'"
proof (cases "co_running co \<and> q_items (pi_queue (co_pipeline co)) \<noteq> []")
  case True
  then obtain x xs where q: "q_items (pi_queue (co_pipeline co)) = x # xs" by (cases "q_items (pi_queue (co_pipeline co))") auto
  let ?pl = "(co_pipeline co)\<lparr>pi_queue := (pi_queue (co_pipeline co))\<lparr>q_items := xs\<rparr>, pi_taken := pi_taken (co_pipeline co) @ [x]\<rparr>"
  let ?C = "cleared_entries (pi_taken ?pl) \<union> bg"
  have w: "w_ok (co_raft_cluster co)" "co_submitter_error co = None" using set by (auto simp: settled_def)
  have "sc_transaction x \<in> logged_txns (co_pipeline co)"
    using ok q by (intro taken_logged) (auto simp: co_pipe_ok_def handed_on_def)
  then have v: "valid_transaction (sc_transaction x)" using ok valid by (auto simp: co_pipe_ok_def)
  have clr: "e \<in> ?C" if "\<not> fs_is_fraud (sc_score x)" "entry_of now (sc_transaction x) = Inr e" for e
    using that by (auto simp: cleared_entries_def)
  obtain s' w' where h: "handle_scored propose_fn now x (co_submitter co, co_raft_cluster co) = Some (Inr (s', w'))"
    "w_ok w'" "reach ?C (co_raft_cluster co) w'" "handled s' = handled (co_submitter co) + 1"
    using handle_scored_ok [OF w(1) _ v clr, where s = "co_submitter co"] by blast
  have "reach ?C w0 (co_raft_cluster co)"
    using set by (intro reach_mono [of "cleared_entries (pi_taken (co_pipeline co)) \<union> bg" ?C]) (auto simp: settled_def cleared_entries_def)
  then have "settled w0 (co\<lparr>co_pipeline := ?pl, co_submitter := s', co_raft_cluster := w'\<rparr>)"
    using h(2-4) set reach_trans by (auto simp: settled_def)
  moreover have "co_pipe_ok T (co\<lparr>co_pipeline := ?pl, co_submitter := s', co_raft_cluster := w'\<rparr>)"
    using take_ok [OF ok q] by (simp add: co_pipe_ok_def)
  ultimately show ?thesis using True w(2) q h(1) by (simp add: submitter_turn_def Let_def)
qed (use assms in \<open>auto simp: submitter_turn_def settled_def split: list.split\<close>)

definition co_ok :: "transaction set \<Rightarrow> 'w \<Rightarrow> 'w coordinator \<Rightarrow> bool" where
  "co_ok T w0 co \<longleftrightarrow> co_pipe_ok T co \<and> settled w0 co"

lemma co_ok_same: "co_ok T w0 co \<Longrightarrow> co_pipe_ok T' co' \<Longrightarrow> same_settlement co co' \<Longrightarrow> co_raft_cluster co' = co_raft_cluster co \<Longrightarrow> co_ok T' w0 co'"
  unfolding co_ok_def using settled_same by blast

lemma co_ok_env: "co_ok T w0 co \<Longrightarrow> co_ok T w0 (co\<lparr>co_raft_cluster := env e (co_raft_cluster co)\<rparr>)"
  using settled_env by (simp add: co_ok_def co_pipe_ok_def)

lemma co_ok_reach:
  assumes "co_ok T w0 co" "w_ok w" "reach bg (co_raft_cluster co) w"
  shows "co_ok T w0 (co\<lparr>co_raft_cluster := w\<rparr>)"
  using assms reach_trans [OF _ reach_mono [OF Un_upper2 assms(3)]] by (auto simp: co_ok_def settled_def co_pipe_ok_def)

lemma start_ok:
  assumes ok: "co_ok T w0 co"
  shows "\<exists>co'. coordinator_start (env e) nows co = Inr co' \<and> co_ok T w0 co'"
proof -
  let ?co = "if co_owns_raft_cluster co then co\<lparr>co_raft_cluster := env e (co_raft_cluster co)\<rparr> else co"
  have ok': "co_ok T w0 ?co" using ok co_ok_env by simp
  then have pok: "co_pipe_ok T ?co" by (simp add: co_ok_def)
  then have "\<forall>i \<in> set (dict_values (co_runtimes ?co)). i < length (co_threads ?co)" by (simp add: co_pipe_ok_def)
  from start_runtimes_ok [OF pok this, of nows] obtain co' where
    co': "start_runtimes nows (dict_values (co_runtimes ?co)) ?co = Inr co'" "co_pipe_ok T co'" "same_settlement ?co co'"
      "co_raft_cluster co' = co_raft_cluster ?co" by blast
  have "co_ok T w0 co'" by (rule co_ok_same [OF ok' co'(2-4)])
  then have "co_ok T w0 (co'\<lparr>co_running := True\<rparr>)" by (simp add: co_ok_def co_pipe_ok_def settled_def)
  then show ?thesis using co'(1) by (simp add: coordinator_start_def Let_def)
qed

lemma stop_ok:
  assumes ok: "co_ok T w0 co"
  shows "co_ok T w0 (coordinator_stop (env e) co)"
proof -
  let ?co = "fold stop_runtime (dict_values (co_runtimes co)) (co\<lparr>co_running := False\<rparr>)"
  have keep: "co_raft_cluster (fold stop_runtime is c) = co_raft_cluster c" for "is" and c :: "'w coordinator"
    by (induction "is" arbitrary: c) (simp_all add: stop_runtime_def)
  have "co_pipe_ok T ?co \<and> same_settlement (co\<lparr>co_running := False\<rparr>) ?co"
    using ok by (intro stop_runtimes_ok) (simp_all add: co_ok_def co_pipe_ok_def)
  then have "co_ok T w0 ?co" using ok keep by (intro co_ok_same [OF ok]) (simp_all add: same_settlement_def)
  then show ?thesis using co_ok_env by (simp add: coordinator_stop_def Let_def)
qed

lemma kill_ok:
  assumes ok: "co_ok T w0 co"
  shows "co_ok T w0 (on_error co (kill_fraud_worker m co))"
proof (cases "dict_get (co_runtimes co) m")
  case (Some i)
  have pok: "co_pipe_ok T co" using ok by (simp add: co_ok_def)
  have "i < length (co_threads co)" using pok map_of_SomeD [OF Some] by (force simp: co_pipe_ok_def)
  then show ?thesis
    using Some co_ok_same [OF ok, of T "stop_runtime i co"] stop_runtime_ok [OF pok]
    by (simp add: kill_fraud_worker_def on_error_def stop_runtime_def)
qed (use ok in \<open>simp add: kill_fraud_worker_def on_error_def\<close>)

lemma revive_ok:
  assumes ok: "co_ok T w0 co"
  shows "\<exists>co'. revive_fraud_worker m now co = Inr co' \<and> co_ok T w0 co'"
proof -
  let ?co = "spawn_fraud_worker m co"
  have pok: "co_pipe_ok T co" using ok by (simp add: co_ok_def)
  have sp: "co_pipe_ok T ?co" "same_settlement co ?co" using spawn_ok [OF pok, of m] by auto
  have "length (co_threads co) < length (co_threads ?co)" by (simp add: spawn_fraud_worker_def)
  from start_runtime_ok [OF sp(1) this, of now] obtain co' where
    "start_runtime now (length (co_threads co)) ?co = Inr co'" "co_pipe_ok T co'" "same_settlement ?co co'" "co_raft_cluster co' = co_raft_cluster ?co"
    by blast
  moreover have "co_raft_cluster ?co = co_raft_cluster co" by (simp add: spawn_fraud_worker_def)
  ultimately show ?thesis
    using co_ok_same [OF ok, of T co'] same_settlement_trans [OF sp(2)] by (simp add: revive_fraud_worker_def)
qed

lemma act_ok:
  assumes ok: "co_ok T w0 co" and valid: "\<forall>t \<in> T. valid_transaction t"
  shows "\<exists>co'. coordinator_act md5 propose_fn env a co = Some co' \<and> co_ok (set (submissions [a]) \<union> T) w0 co'"
proof -
  have pok: "co_pipe_ok T co" using ok by (simp add: co_ok_def)
  show ?thesis
  proof (cases a)
    case (CoStart e nows)
    then show ?thesis using start_ok [OF ok, of e nows] by (auto simp: on_error_def)
  next
    case (CoStop e)
    then show ?thesis using stop_ok [OF ok] by simp
  next
    case (CoSubmit t now)
    obtain co' where "submit_transaction md5 t now co = Inr co'" "co_pipe_ok (insert t T) co'" "same_settlement co co'"
      "co_raft_cluster co' = co_raft_cluster co" using submit_ok [OF pok] by blast
    then show ?thesis using co_ok_same [OF ok] by (simp add: CoSubmit on_error_def)
  next
    case (CoKill m)
    then show ?thesis using kill_ok [OF ok, of m] by simp
  next
    case (CoRevive m now)
    then show ?thesis using revive_ok [OF ok, of m now] by (auto simp: on_error_def)
  next
    case (CoWorker i rd)
    have "co_raft_cluster (worker_step i rd co) = co_raft_cluster co" by (simp add: worker_step_def split: prod.split)
    then show ?thesis using CoWorker worker_step_ok [OF pok, of i rd] co_ok_same [OF ok] by simp
  next
    case (CoHealth now)
    have "co_raft_cluster (health_check now co) = co_raft_cluster co" by (simp add: health_check_def)
    then show ?thesis using CoHealth health_ok [OF pok, of now] co_ok_same [OF ok] by simp
  next
    case (CoSettle now)
    then show ?thesis using settle_ok [OF pok _ valid] ok by (simp add: co_ok_def)
  next
    case (CoCluster e)
    then show ?thesis using co_ok_env [OF ok] by simp
  qed
qed

lemma submissions_Cons: "set (submissions (a # acts)) = set (submissions [a]) \<union> set (submissions acts)"
  by (cases a) auto

lemma run_ok:
  assumes "co_ok T w0 co" "\<forall>t \<in> T. valid_transaction t" "list_all valid_transaction (submissions acts)"
  shows "\<exists>co'. coordinator_run md5 propose_fn env acts co = Some co' \<and> co_ok (set (submissions acts) \<union> T) w0 co'"
  using assms
proof (induction acts arbitrary: T co)
  case (Cons a acts)
  obtain co1 where a: "coordinator_act md5 propose_fn env a co = Some co1" "co_ok (set (submissions [a]) \<union> T) w0 co1"
    using act_ok [OF Cons.prems(1,2)] by blast
  have "\<forall>t \<in> set (submissions [a]) \<union> T. valid_transaction t" "list_all valid_transaction (submissions acts)"
    using Cons.prems(2,3) submissions_Cons [of a acts] by (auto simp: list_all_iff)
  from Cons.IH [OF a(2) this] show ?case
    using a(1) submissions_Cons [of a acts] by (simp add: Un_ac)
qed simp

lemma Coordinator_ok:
  assumes "Coordinator n k session_timeout config owns w = Inr co" "w_ok w" "weights_ok config"
  shows "co_ok {} w co"
proof -
  let ?P = "\<lambda>co. co_pipe_ok {} co \<and> co_raft_cluster co = w \<and> co_submitter co = SettlementSubmitter \<and> co_submitter_error co = None \<and>
    pi_taken (co_pipeline co) = []"
  have spawn: "?P (spawn_fraud_worker m co)" if "?P co" for m co
    using that spawn_ok [of "{}" co m] by (auto simp: same_settlement_def) (simp add: spawn_fraud_worker_def)
  obtain l g where l: "PartitionedLog ''transactions'' n = Inr l" and g: "ConsumerGroup ''fraud-workers'' n session_timeout = Inr g"
    and co: "co = fold (\<lambda>i. spawn_fraud_worker (member_name i)) [0..<k]
      \<lparr>co_pipeline = \<lparr>pi_log = l, pi_group = g, pi_queue = \<lparr>q_maxsize = 1000, q_items = []\<rparr>, pi_taken = []\<rparr>,
       co_threads = [], co_runtimes = [], co_scorer_config = config, co_submitter = SettlementSubmitter,
       co_submitter_error = None, co_running = False, co_owns_raft_cluster = owns, co_raft_cluster = w\<rparr>"
    using assms(1) by (auto simp: Coordinator_def rbind_Inr_conv)
  have l0: "l = \<lparr>pl_topic = ''transactions'', pl_partitions = replicate (nat n) [], pl_committed = []\<rparr>"
    using l by (simp add: PartitionedLog_def split: if_splits)
  have "pipeline_ok \<lparr>pi_log = l, pi_group = g, pi_queue = \<lparr>q_maxsize = 1000, q_items = []\<rparr>, pi_taken = []\<rparr>"
    using PartitionedLog_ok [OF l] ConsumerGroup_balanced [OF g]
    by (simp add: pipeline_ok_def from_log_def handed_on_def delivered_def offset_of_def dict_get_default_def l0)
  then have base: "?P \<lparr>co_pipeline = \<lparr>pi_log = l, pi_group = g, pi_queue = \<lparr>q_maxsize = 1000, q_items = []\<rparr>, pi_taken = []\<rparr>,
       co_threads = [], co_runtimes = [], co_scorer_config = config, co_submitter = SettlementSubmitter,
       co_submitter_error = None, co_running = False, co_owns_raft_cluster = owns, co_raft_cluster = w\<rparr>"
    using assms(3) by (simp add: co_pipe_ok_def logged_txns_def l0)
  have "?P co" unfolding co by (rule fold_invariant [where Q = "\<lambda>_. True" and P = ?P], rule TrueI, rule base, rule spawn)
  then show ?thesis using assms(2) reach_refl by (simp add: co_ok_def settled_def handled_def SettlementSubmitter_def)
qed

end

section \<open>Over an in-process cluster\<close>

text \<open>What the nodes' threads and fault injection do to the cluster while the coordinator does not call it.\<close>

definition cluster_env :: "('c \<Rightarrow> 's \<Rightarrow> 's) \<Rightarrow> (nat \<Rightarrow> 'c action list) \<Rightarrow> nat \<Rightarrow> ('c, 's) client \<Rightarrow> ('c, 's) client" where
  "cluster_env apl sched k cw = (fst cw, (snd cw)\<lparr>w_cluster := others apl sched k (w_cluster (snd cw))\<rparr>)"

lemma continues_mono: "C \<subseteq> D \<Longrightarrow> continues apl C c c' \<Longrightarrow> continues apl D c c'"
  unfolding continues_def by blast

interpretation cluster_backend: ledger_backend "client_propose apl sched timeout" "\<lambda>cw. clock_ok (fst cw)" "sched_cmds sched"
  "\<lambda>C cw cw'. continues apl C (w_cluster (snd cw)) (w_cluster (snd cw'))" "cluster_env apl sched" for apl sched timeout
proof (rule ledger_backend.intro)
  show "ledger_proposer (client_propose apl sched timeout) (\<lambda>cw. clock_ok (fst cw)) (sched_cmds sched)
      (\<lambda>C cw cw'. continues apl C (w_cluster (snd cw)) (w_cluster (snd cw')))"
    by (rule cluster_submitter.ledger_proposer_axioms)
  show "ledger_backend_axioms (\<lambda>cw. clock_ok (fst cw)) (sched_cmds sched)
      (\<lambda>C cw cw'. continues apl C (w_cluster (snd cw)) (w_cluster (snd cw'))) (cluster_env apl sched)"
  proof
    fix w :: "(ledger_entry, 'a) client" and e
    have "proposals (sched e) \<subseteq> sched_cmds sched" by blast
    then show "continues apl (sched_cmds sched) (w_cluster (snd w)) (w_cluster (snd (cluster_env apl sched e w)))"
      by (simp add: cluster_env_def others_continues)
  qed (simp_all add: continues_mono cluster_env_def)
qed

end
