(* ===== verification/Deployments.thy ===== *)
theory Deployments
  imports Grpc_Client Coordinator
begin

text \<open>
  The whole pipeline, from the transactions that are submitted to the coordinator to the balances on the
  replicas, in its two deployments: with a cluster in the coordinator's process, and with a cluster of
  processes that are reached over gRPC.
\<close>

section \<open>A coordinator over any cluster\<close>

context ledger_backend
begin

lemma pipeline_run:
  assumes "Coordinator n k session_timeout config owns w = Inr co0" "w_ok w" "weights_ok config"
    "list_all valid_transaction (submissions acts)"
  obtains co where "coordinator_run md5 propose_fn env acts co0 = Some co" "co_pipe_ok (set (submissions acts)) co"
    "co_submitter_error co = None" "handled (co_submitter co) = length (pi_taken (co_pipeline co))"
    "reach (cleared_entries (pi_taken (co_pipeline co)) \<union> bg) w (co_raft_cluster co)"
  using run_ok [OF Coordinator_ok [OF assms(1-3)] _ assms(4), of md5] that by (auto simp: co_ok_def settled_def)

end

lemma pipe_delivered:
  assumes "co_pipe_ok T co" "committed_offset (cg_group_id (pi_group (co_pipeline co))) p (pi_log (co_pipeline co)) = Inr off"
  shows "0 \<le> off" "r \<in> set (take (nat off) (part (co_pipeline co) p)) \<Longrightarrow> lr_value r \<in> sc_transaction ` set (handed_on (co_pipeline co))"
proof -
  have p: "in_range (co_pipeline co) p" "off = offset_of (pi_group (co_pipeline co)) (pi_log (co_pipeline co)) p"
    using assms(2) by (auto simp: committed_offset_def offset_of_def rbind_Inr_conv)
  then show "0 \<le> off" "r \<in> set (take (nat off) (part (co_pipeline co) p)) \<Longrightarrow> lr_value r \<in> sc_transaction ` set (handed_on (co_pipeline co))"
    using assms(1) by (auto simp: co_pipe_ok_def pipeline_ok_def delivered_def)
qed

lemma pipe_taken: "co_pipe_ok T co \<Longrightarrow> sc_transaction ` set (handed_on (co_pipeline co)) \<subseteq> T"
  using taken_logged by (auto simp: co_pipe_ok_def)

lemma pipe_deaths: "co_pipe_ok T co \<Longrightarrow> th \<in> set (co_threads co) \<Longrightarrow> wt_pc th = Died e \<Longrightarrow> e \<in> {ValueError, QueueFull}"
  by (auto simp: co_pipe_ok_def thread_ok_def pc_ok_def)

section \<open>In one process\<close>

text \<open>
  C2: The stream loses nothing. Whatever the threads, the health check, kills and revivals do, and in whatever order,
  every record below a committed offset has been handed to the submitter's queue, nothing is in the
  queue that was not submitted, and the only exceptions that end a worker's thread are the ValueError of
  an evicted member and queue.Full.
\<close>

theorem at_least_once:
  assumes "clock_ok clock" "weights_ok config" "list_all valid_transaction (submissions acts)"
    "Coordinator n k session_timeout config True (clock, w0) = Inr co0"
  shows "\<exists>co. coordinator_run md5 (client_propose ledger_step sched timeout) (cluster_env ledger_step sched) acts co0 = Some co \<and>
    (\<forall>p off r. \<not> (committed_offset (cg_group_id (pi_group (co_pipeline co))) p (pi_log (co_pipeline co)) = Inr off \<and>
       r \<in> set (take (nat off) (part (co_pipeline co) p)) \<and>
       lr_value r \<notin> sc_transaction ` set (pi_taken (co_pipeline co) @ q_items (pi_queue (co_pipeline co))))) \<and>
    sc_transaction ` set (pi_taken (co_pipeline co) @ q_items (pi_queue (co_pipeline co))) \<subseteq> set (submissions acts) \<and>
    (\<forall>th e. \<not> (th \<in> set (co_threads co) \<and> wt_pc th = Died e \<and> e \<notin> {ValueError, QueueFull}))"
proof -
  obtain co where co: "coordinator_run md5 (client_propose ledger_step sched timeout) (cluster_env ledger_step sched) acts co0 = Some co"
    "co_pipe_ok (set (submissions acts)) co"
    using cluster_backend.pipeline_run [OF assms(4) _ assms(2,3), of md5 ledger_step sched timeout] assms(1) by auto
  show ?thesis
    using co(1) pipe_delivered(2) [OF co(2)] pipe_taken [OF co(2)] pipe_deaths [OF co(2)]
    unfolding handed_on_def [symmetric] by (intro exI [of _ co]) blast
qed


text \<open>Two submissions of the same transaction, which one worker scores; the submitter proposes both.\<close>

definition demo_acts :: "nat co_action list" where
  "demo_acts = CoStart 0 (\<lambda>i. 0) # CoSubmit demo_txn 1 # CoSubmit demo_txn 2 # replicate 11 (CoWorker 0 no_readings) @ [CoSettle 3, CoSettle 4]"

definition demo_quiet :: "nat \<Rightarrow> ledger_entry action list" where
  "demo_quiet k = [Tick ''a'' (demo_clock k)]"

definition demo_coordinator :: "(ledger_entry, ledger) client coordinator" where
  "demo_coordinator = (case Coordinator 1 1 1 ScorerConfig True
     (demo_clock, \<lparr>w_cluster = RaftCluster demo_ids (LedgerStateMachine demo_balances) demo_random 3 6 1 1, w_reads = 0\<rparr>) of Inr co \<Rightarrow> co)"

lemma demo_coordinator_ok:
  "Coordinator 1 1 1 ScorerConfig True
     (demo_clock, \<lparr>w_cluster = RaftCluster demo_ids (LedgerStateMachine demo_balances) demo_random 3 6 1 1, w_reads = 0\<rparr>) = Inr demo_coordinator"
  "weights_ok ScorerConfig" "list_all valid_transaction (submissions demo_acts)" "sched_cmds demo_quiet = {}"
  by (simp_all add: demo_coordinator_def Coordinator_def PartitionedLog_def ConsumerGroup_def weights_ok_def ScorerConfig_def
      demo_quiet_def demo_acts_def numeral_eq_Suc demo_txn_def valid_transaction_def dec_val_def)

theorem at_least_once_witness:
  "\<exists>co. coordinator_run demo_md5 (client_propose ledger_step demo_quiet 2) (cluster_env ledger_step demo_quiet) demo_acts demo_coordinator = Some co \<and>
     sc_transaction ` set (pi_taken (co_pipeline co) @ q_items (pi_queue (co_pipeline co))) \<subseteq> set (submissions demo_acts)"
  using at_least_once [OF demo_clock_ok demo_coordinator_ok(2,3,1), of demo_md5 demo_quiet 2] by (elim exE conjE) (intro exI conjI)


section \<open>Over gRPC\<close>

lemma grpc_continues_mono: "C \<subseteq> D \<Longrightarrow> grpc_continues dumps loads apl C w w' \<Longrightarrow> grpc_continues dumps loads apl D w w'"
  unfolding grpc_continues_def by blast

text \<open>The coordinator does not own the processes: they go on by themselves.\<close>

definition grpc_env ::
  "('c \<Rightarrow> 'b) \<Rightarrow> ('b \<Rightarrow> 'c result) \<Rightarrow> ('c \<Rightarrow> 's \<Rightarrow> 's) \<Rightarrow> 'c surroundings \<Rightarrow> nat \<Rightarrow> ('c, 's) client_world \<Rightarrow> ('c, 's) client_world" where
  "grpc_env dumps loads apl su k w = w\<lparr>cw_grpc := grpc_run dumps loads apl (su_sched su k) (cw_grpc w)\<rparr>"

lemma grpc_ledger_backend:
  fixes su :: "ledger_entry surroundings"
  assumes "pickling dumps loads"
  shows "ledger_backend (grpc_propose dumps loads apl su addrs timeout) (\<lambda>w. clock_ok (su_clock su)) (su_cmds su)
    (\<lambda>C w w'. grpc_continues dumps loads apl C (cw_grpc w) (cw_grpc w')) (grpc_env dumps loads apl su)"
proof (rule ledger_backend.intro)
  show "ledger_proposer (grpc_propose dumps loads apl su addrs timeout) (\<lambda>w. clock_ok (su_clock su)) (su_cmds su)
      (\<lambda>C w w'. grpc_continues dumps loads apl C (cw_grpc w) (cw_grpc w'))"
    by (rule ledger_proposer.intro) (rule pickling.grpc_proposer [OF assms])
  show "ledger_backend_axioms (\<lambda>w. clock_ok (su_clock su)) (su_cmds su)
      (\<lambda>C w w'. grpc_continues dumps loads apl C (cw_grpc w) (cw_grpc w')) (grpc_env dumps loads apl su)"
  proof
    fix w :: "(ledger_entry, 'b) client_world" and k
    show "grpc_continues dumps loads apl (su_cmds su) (cw_grpc w) (cw_grpc (grpc_env dumps loads apl su k w))"
      unfolding grpc_continues_def by (rule exI [of _ "su_sched su k"]) (auto simp: grpc_env_def)
  qed (simp_all add: grpc_continues_mono)
qed

interpretation grpc_backend: ledger_backend "grpc_propose Pickled pickle_loads apl su addrs timeout"
  "\<lambda>w. clock_ok (su_clock su)" "su_cmds su"
  "\<lambda>C w w'. grpc_continues Pickled pickle_loads apl C (cw_grpc w) (cw_grpc w')" "grpc_env Pickled pickle_loads apl su"
  for apl addrs timeout and su :: "ledger_entry surroundings"
  by (rule grpc_ledger_backend [OF pickle.pickling_axioms])

lemma grpc_applied:
  assumes "pickling dumps loads" "procs_ok procs"
    "grpc_continues dumps loads ledger_step C (grpc_cluster procs (LedgerStateMachine init) rnd) w" "m \<in> set (map fst procs)"
  shows "\<exists>h. state_machine (grpc_node w m) = fold ledger_step h (LedgerStateMachine init) \<and> set h \<subseteq> C"
proof -
  obtain acts where acts: "w = grpc_run dumps loads ledger_step acts (grpc_cluster procs (LedgerStateMachine init) rnd)"
    "\<Union> (grpc_proposed ` set acts) \<subseteq> C" using assms(3) by (auto simp: grpc_continues_def)
  from grpc_histories [OF assms(1) ledger_machine.idempotent_machine_axioms assms(2) acts(1)]
  obtain h where h: "\<And>n. n \<in> set (map fst procs) \<Longrightarrow> state_machine (grpc_node w n) = fold ledger_step (h n) (LedgerStateMachine init)"
    "\<And>n. n \<in> set (map fst procs) \<Longrightarrow> set (h n) \<subseteq> \<Union> (grpc_proposed ` set acts)" by metis
  then show ?thesis using h(1) [OF assms(4)] subset_trans [OF h(2) [OF assms(4)] acts(2)] by auto
qed

text \<open>
  Effectively once over gRPC. A coordinator that does not own the cluster and reaches it over a network that loses
  calls and answers keeps the same promises: nothing below a committed offset is lost, the submitter never
  fails and counts each transaction once, and every process has applied only entries of submitted transactions
  whose score cleared them, accepting each transaction at most once.
\<close>

lemma grpc_effectively_once:
  assumes "pickling dumps loads" "procs_ok procs" "clock_ok (su_clock su)" "weights_ok config" "su_cmds su = {}"
    "list_all valid_transaction (submissions acts)"
    "Coordinator n k session_timeout config False
       (GrpcRaftClusterClient (grpc_cluster procs (LedgerStateMachine init) rnd)) = Inr co0"
  shows "\<exists>co. coordinator_run md5 (grpc_propose dumps loads ledger_step su addrs timeout) (grpc_env dumps loads ledger_step su) acts co0 = Some co \<and>
    (\<forall>p off r. \<not> (committed_offset (cg_group_id (pi_group (co_pipeline co))) p (pi_log (co_pipeline co)) = Inr off \<and>
       r \<in> set (take (nat off) (part (co_pipeline co) p)) \<and>
       lr_value r \<notin> sc_transaction ` set (pi_taken (co_pipeline co) @ q_items (pi_queue (co_pipeline co))))) \<and>
    co_submitter_error co = None \<and>
    submitted_count (co_submitter co) + fraud_flagged_count (co_submitter co) + length (failed_transaction_ids (co_submitter co)) =
      length (pi_taken (co_pipeline co)) \<and>
    (\<forall>m. m \<notin> set (map fst procs) \<or> (\<exists>h.
      state_machine (grpc_node (cw_grpc (co_raft_cluster co)) m) = fold ledger_step h (LedgerStateMachine init) \<and>
      set h \<subseteq> cleared_entries (pi_taken (co_pipeline co)) \<and>
      distinct (map le_entry_id (accepted (LedgerStateMachine init) h))))"
proof -
  let ?w = "GrpcRaftClusterClient (grpc_cluster procs (LedgerStateMachine init) rnd) :: (ledger_entry, ledger) client_world"
  obtain co where co: "coordinator_run md5 (grpc_propose dumps loads ledger_step su addrs timeout) (grpc_env dumps loads ledger_step su) acts co0 = Some co"
    "co_pipe_ok (set (submissions acts)) co" "co_submitter_error co = None"
    "handled (co_submitter co) = length (pi_taken (co_pipeline co))"
    "grpc_continues dumps loads ledger_step (cleared_entries (pi_taken (co_pipeline co)) \<union> su_cmds su) (cw_grpc ?w) (cw_grpc (co_raft_cluster co))"
    by (rule ledger_backend.pipeline_run [OF grpc_ledger_backend [OF assms(1), where su = su and apl = ledger_step and addrs = addrs and timeout = timeout]
          assms(7,3,4,6)])
  have reach: "grpc_continues dumps loads ledger_step (cleared_entries (pi_taken (co_pipeline co)))
      (grpc_cluster procs (LedgerStateMachine init) rnd) (cw_grpc (co_raft_cluster co))"
    using co(5) unfolding assms(5) by simp
  have "\<exists>h. state_machine (grpc_node (cw_grpc (co_raft_cluster co)) m) = fold ledger_step h (LedgerStateMachine init) \<and>
      set h \<subseteq> cleared_entries (pi_taken (co_pipeline co)) \<and> distinct (map le_entry_id (accepted (LedgerStateMachine init) h))"
    if "m \<in> set (map fst procs)" for m
    using grpc_applied [OF assms(1,2) reach that] accepted_distinct by blast
  moreover note pipe_delivered(2) [OF co(2)]
  ultimately show ?thesis
    using co(1,3,4) unfolding handed_on_def by (intro exI [of _ co]) (auto simp: handled_def)
qed

end
