(* ===== verification/Fraud_Gate.thy ===== *)
theory Fraud_Gate
  imports Deployments
begin

text \<open>
  The fraud stage as a gate in front of the ledgers: everything that is handed to the submitter carries a
  score that the configured rules give, so that what the rules forbid is never applied on any replica.
\<close>

section \<open>Everything that is handed on was scored\<close>

definition scored_with :: "scorer_config \<Rightarrow> scored_transaction \<Rightarrow> bool" where
  "scored_with cf x \<longleftrightarrow> fs_transaction_id (sc_score x) = txn_id (sc_transaction x) \<and>
     (\<exists>v. fs_score (sc_score x) = min (rule_weight cf (sc_transaction x) v) 1) \<and>
     (fs_is_fraud (sc_score x) \<longleftrightarrow> cf_fraud_threshold cf \<le> fs_score (sc_score x))"

definition gate_ok :: "'w coordinator \<Rightarrow> bool" where
  "gate_ok co \<longleftrightarrow> weights_ok (co_scorer_config co) \<and>
     (\<forall>th \<in> set (co_threads co). rs_config (wt_scorer th) = co_scorer_config co) \<and>
     (\<forall>x \<in> set (handed_on (co_pipeline co)). scored_with (co_scorer_config co) x)"

lemma thread_step_gate:
  assumes "weights_ok (rs_config (wt_scorer th))" "thread_step rd (th, pl) = (th', pl')"
  shows "rs_config (wt_scorer th') = rs_config (wt_scorer th)" "cg_session_timeout (pi_group pl') = cg_session_timeout (pi_group pl)"
    "x \<in> set (handed_on pl') \<Longrightarrow> x \<in> set (handed_on pl) \<or> scored_with (rs_config (wt_scorer th)) x"
proof -
  show "cg_session_timeout (pi_group pl') = cg_session_timeout (pi_group pl)"
    using assms(2) by (auto simp: thread_step_def die_def Let_def heartbeat_def split: worker_pc.splits list.splits sum.splits option.splits if_splits prod.splits)
  have "rs_config (wt_scorer th') = rs_config (wt_scorer th) \<and>
    (x \<in> set (handed_on pl') \<longrightarrow> x \<in> set (handed_on pl) \<or> scored_with (rs_config (wt_scorer th)) x)"
  proof (cases "\<exists>r rs ps capacity. wt_pc th = Records (r # rs) ps capacity")
    case True
    then obtain r rs ps capacity where pc: "wt_pc th = Records (r # rs) ps capacity" by blast
    obtain fs where fs: "score (lr_value r) (rd_score rd) (rd_scored_at rd) (wt_scorer th) =
        (Inr fs, snd (score (lr_value r) (rd_score rd) (rd_scored_at rd) (wt_scorer th)))"
      "scored_with (rs_config (wt_scorer th)) \<lparr>sc_transaction = lr_value r, sc_score = fs\<rparr>"
      using score_result [OF assms(1), of "lr_value r" "rd_score rd" "rd_scored_at rd"] by (fastforce simp: scored_with_def)
    let ?x = "\<lparr>sc_transaction = lr_value r, sc_score = fs\<rparr>"
    have "set (handed_on pl') \<subseteq> insert ?x (set (handed_on pl)) \<and> rs_config (wt_scorer th') = rs_config (wt_scorer th)"
      using assms(2) pc fs(1) score_keeps [of "lr_value r" "rd_score rd" "rd_scored_at rd" "wt_scorer th"]
      by (cases "put_nowait ?x (pi_queue pl)")
        (auto simp: thread_step_def die_def handed_on_def put_nowait_def split: if_splits prod.splits)
    then show ?thesis using fs(2) by blast
  next
    case False
    then show ?thesis
      using assms(2) by (auto simp: thread_step_def die_def handed_on_def Let_def
        split: worker_pc.splits list.splits sum.splits if_splits)
  qed
  then show "rs_config (wt_scorer th') = rs_config (wt_scorer th)"
    "x \<in> set (handed_on pl') \<Longrightarrow> x \<in> set (handed_on pl) \<or> scored_with (rs_config (wt_scorer th)) x" by auto
qed

text \<open>What the constructor has fixed.\<close>

definition settings :: "'w coordinator \<Rightarrow> scorer_config \<times> bool \<times> rat" where
  "settings co = (co_scorer_config co, co_owns_raft_cluster co, cg_session_timeout (pi_group (co_pipeline co)))"

definition passes :: "'w coordinator \<Rightarrow> 'w coordinator \<Rightarrow> bool" where
  "passes co co' \<longleftrightarrow> gate_ok co' \<and> settings co' = settings co"

lemma passes_trans: "passes co co1 \<Longrightarrow> passes co1 co2 \<Longrightarrow> passes co co2"
  by (simp add: passes_def)

lemma passes_update:
  assumes "gate_ok co" "settings co' = settings co"
    "\<And>th. th \<in> set (co_threads co') \<Longrightarrow> th \<in> set (co_threads co) \<or> rs_config (wt_scorer th) = co_scorer_config co"
    "\<And>x. x \<in> set (handed_on (co_pipeline co')) \<Longrightarrow> x \<in> set (handed_on (co_pipeline co)) \<or> scored_with (co_scorer_config co) x"
  shows "passes co co'"
  using assms unfolding passes_def gate_ok_def settings_def by (metis prod.inject)

lemma passes_same: "gate_ok co \<Longrightarrow> settings co' = settings co \<Longrightarrow> co_threads co' = co_threads co \<Longrightarrow>
    set (handed_on (co_pipeline co')) = set (handed_on (co_pipeline co)) \<Longrightarrow> passes co co'"
  by (rule passes_update) auto

text \<open>A thread that is replaced by one with the same scorer configuration.\<close>

lemma updated_thread:
  assumes "gate_ok co" "th \<in> set ((co_threads co)[i := th'])"
    "i < length (co_threads co) \<Longrightarrow> rs_config (wt_scorer th') = rs_config (wt_scorer (co_threads co ! i))"
  shows "th \<in> set (co_threads co) \<or> rs_config (wt_scorer th) = co_scorer_config co"
proof (cases "i < length (co_threads co)")
  case True
  then show ?thesis using assms set_update_subset_insert [of "co_threads co" i th'] by (auto simp: gate_ok_def)
qed (use assms(2) in \<open>simp add: list_update_beyond not_less\<close>)

lemma passes_start_runtime:
  assumes ok: "gate_ok co" and "start_runtime now i co = Inr co'"
  shows "passes co co'"
proof -
  let ?th = "(co_threads co ! i)\<lparr>wt_stop := False, wt_last_heartbeat := 0, wt_pc := Turn\<rparr>"
  obtain g where co': "co' = co\<lparr>co_threads := (co_threads co)[i := ?th], co_pipeline := (co_pipeline co)\<lparr>pi_group := g\<rparr>\<rparr>"
    "cg_session_timeout g = cg_session_timeout (pi_group (co_pipeline co))"
    using assms(2) by (auto simp: start_runtime_def runtime_start_worker_def rbind_Inr_conv join_def rebalance_def Let_def split: option.splits)
  show ?thesis using updated_thread [OF ok, of _ i ?th] by (intro passes_update [OF ok]) (simp_all add: co' handed_on_def settings_def)
qed

lemma passes_start_runtimes: "gate_ok co \<Longrightarrow> start_runtimes nows is co = Inr co' \<Longrightarrow> passes co co'"
proof (induction "is" arbitrary: co)
  case (Cons i "is")
  then obtain co1 where "start_runtime (nows i) i co = Inr co1" "start_runtimes nows is co1 = Inr co'" by (auto simp: rbind_Inr_conv)
  then show ?case using Cons passes_start_runtime passes_trans by (metis passes_def)
qed (simp add: passes_def)

lemma passes_stop_runtime: "gate_ok co \<Longrightarrow> passes co (stop_runtime i co)"
  using updated_thread [of co _ i]
  by (intro passes_update) (auto simp: stop_runtime_def runtime_stop_worker_def settings_def)

lemma passes_stop_runtimes: "gate_ok co \<Longrightarrow> passes co (fold stop_runtime is co)"
proof (induction "is" arbitrary: co)
  case (Cons i "is")
  then show ?case using passes_stop_runtime passes_trans by (metis fold_simps(2) passes_def)
qed (simp add: passes_def)

lemma passes_spawn: "gate_ok co \<Longrightarrow> passes co (spawn_fraud_worker m co)"
  by (rule passes_update) (auto simp: spawn_fraud_worker_def FraudWorkerRuntime_def RuleBasedScorer_def settings_def)

lemma passes_worker: "gate_ok co \<Longrightarrow> passes co (worker_step i rd co)"
proof (cases "i < length (co_threads co)")
  case True
  assume ok: "gate_ok co"
  then have cfg: "rs_config (wt_scorer (co_threads co ! i)) = co_scorer_config co" "weights_ok (co_scorer_config co)"
    using True by (auto simp: gate_ok_def)
  obtain th pl where tp: "thread_step rd (co_threads co ! i, co_pipeline co) = (th, pl)" by force
  note g = thread_step_gate [OF _ tp, unfolded cfg(1), OF cfg(2)]
  show ?thesis
    using True tp g ok updated_thread [OF ok, of _ i th] cfg(1) by (intro passes_update) (auto simp: worker_step_def settings_def)
qed (simp add: worker_step_def passes_def)

lemma passes_settle: "gate_ok co \<Longrightarrow> submitter_turn propose_fn now co = Some co' \<Longrightarrow> passes co co'"
  by (rule passes_same) (auto simp: submitter_turn_def handed_on_def settings_def Let_def split: if_splits list.splits option.splits sum.splits prod.splits)

lemma passes_start:
  assumes ok: "gate_ok co" and run: "coordinator_start env nows co = Inr co'"
  shows "passes co co'"
proof -
  let ?co = "if co_owns_raft_cluster co then co\<lparr>co_raft_cluster := env (co_raft_cluster co)\<rparr> else co"
  have p: "passes co ?co" by (rule passes_same [OF ok]) (simp_all add: settings_def)
  obtain co1 where co1: "start_runtimes nows (dict_values (co_runtimes ?co)) ?co = Inr co1" "co' = co1\<lparr>co_running := True\<rparr>"
    using run by (auto simp: coordinator_start_def Let_def rbind_Inr_conv)
  have "gate_ok ?co" using p unfolding passes_def by blast
  then have "passes co co1" by (rule passes_trans [OF p passes_start_runtimes [OF _ co1(1)]])
  then show ?thesis by (auto simp: co1(2) passes_def gate_ok_def settings_def)
qed

lemma passes_stop:
  assumes ok: "gate_ok co"
  shows "passes co (coordinator_stop env co)"
proof -
  define co1 where "co1 = fold stop_runtime (dict_values (co_runtimes co)) (co\<lparr>co_running := False\<rparr>)"
  have "passes co (co\<lparr>co_running := False\<rparr>)" by (rule passes_same [OF ok]) (simp_all add: settings_def)
  then have p: "passes co co1" unfolding co1_def using passes_stop_runtimes passes_trans by (metis passes_def)
  have "coordinator_stop env co = (if co_owns_raft_cluster co1 then co1\<lparr>co_raft_cluster := env (co_raft_cluster co1)\<rparr> else co1)"
    unfolding coordinator_stop_def Let_def co1_def ..
  then have "passes co1 (coordinator_stop env co)" using p by (intro passes_same) (simp_all add: passes_def settings_def)
  then show ?thesis by (rule passes_trans [OF p])
qed

lemma passes_act:
  assumes ok: "gate_ok co" and a: "coordinator_act md5 propose_fn env a co = Some co'"
  shows "passes co co'"
proof (cases a)
  case (CoStart e nows)
  then show ?thesis using a ok passes_start [OF ok] by (auto simp: on_error_def passes_def split: sum.splits)
next
  case (CoStop e)
  then show ?thesis using a passes_stop [OF ok] by auto
next
  case (CoSubmit t now)
  then show ?thesis
    using a ok by (intro passes_same [OF ok]) (auto simp: on_error_def submit_transaction_def handed_on_def settings_def rbind_def split: sum.splits)
next
  case (CoKill m)
  then show ?thesis
    using a ok passes_stop_runtime by (auto simp: on_error_def kill_fraud_worker_def passes_def split: sum.splits option.splits)
next
  case (CoRevive m now)
  have p: "passes co (spawn_fraud_worker m co)" by (rule passes_spawn [OF ok])
  show ?thesis
  proof (cases "start_runtime now (length (co_threads co)) (spawn_fraud_worker m co)")
    case (Inr co1)
    then show ?thesis
      using a CoRevive passes_trans [OF p passes_start_runtime] p by (auto simp: on_error_def revive_fraud_worker_def passes_def)
  qed (use a CoRevive ok in \<open>simp add: on_error_def revive_fraud_worker_def passes_def\<close>)
next
  case (CoWorker i rd)
  then show ?thesis using a passes_worker [OF ok] by auto
next
  case (CoHealth now)
  have "cg_session_timeout (snd (check_expired_members now g)) = cg_session_timeout g" for g
    by (simp add: check_expired_members_def rebalance_def Let_def)
  then show ?thesis
    using a CoHealth by (intro passes_same [OF ok]) (auto simp: health_check_def handed_on_def settings_def split: if_splits)
next
  case (CoSettle now)
  then show ?thesis using a passes_settle [OF ok] by simp
next
  case (CoCluster e)
  then show ?thesis using a by (intro passes_same [OF ok]) (auto simp: settings_def)
qed

lemma passes_run:
  assumes "gate_ok co" "coordinator_run md5 propose_fn env acts co = Some co'"
  shows "passes co co'"
  using assms
proof (induction acts arbitrary: co)
  case (Cons a acts)
  then obtain co1 where "coordinator_act md5 propose_fn env a co = Some co1" "coordinator_run md5 propose_fn env acts co1 = Some co'"
    by (auto simp: bind_eq_Some_conv)
  then show ?case using Cons passes_act passes_trans by (metis passes_def)
qed (simp add: passes_def)

lemma Coordinator_gate:
  assumes "Coordinator n k session_timeout config owns w = Inr co" "weights_ok config"
  shows "gate_ok co \<and> settings co = (config, owns, session_timeout)"
proof -
  let ?P = "\<lambda>co. gate_ok co \<and> settings co = (config, owns, session_timeout)"
  obtain co1 where co: "co = fold (\<lambda>i. spawn_fraud_worker (member_name i)) [0..<k] co1" "?P co1"
    using assms by (auto simp: Coordinator_def ConsumerGroup_def rbind_Inr_conv gate_ok_def handed_on_def settings_def split: if_splits)
  show ?thesis
    unfolding co(1)
    by (rule fold_invariant [where Q = "\<lambda>_. True" and P = ?P]) (use co(2) passes_spawn [unfolded passes_def] in auto)
qed

section \<open>What is cleared\<close>

text \<open>The rules that look at the transaction alone do not reach the threshold.\<close>

definition clean :: "scorer_config \<Rightarrow> transaction \<Rightarrow> bool" where
  "clean cf t \<longleftrightarrow> min (rule_weight cf t (cf_velocity_max_transactions cf)) 1 < cf_fraud_threshold cf"

lemma cleared_clean:
  assumes "gate_ok co" "e \<in> cleared_entries (pi_taken (co_pipeline co))"
  obtains t now where "t \<in> sc_transaction ` set (pi_taken (co_pipeline co))" "entry_of now t = Inr e" "clean (co_scorer_config co) t"
proof -
  let ?cf = "co_scorer_config co"
  obtain x now where x: "x \<in> set (pi_taken (co_pipeline co))" "\<not> fs_is_fraud (sc_score x)" "entry_of now (sc_transaction x) = Inr e"
    using assms(2) by (auto simp: cleared_entries_def)
  have "scored_with ?cf x" using assms(1) x(1) by (simp add: gate_ok_def handed_on_def)
  then obtain v where v: "min (rule_weight ?cf (sc_transaction x) v) 1 < cf_fraud_threshold ?cf"
    using x(2) by (metis scored_with_def not_le)
  have "rule_weight ?cf t (cf_velocity_max_transactions ?cf) \<le> rule_weight ?cf t v" for t
    using assms(1) by (simp add: rule_weight_def gate_ok_def weights_ok_def)
  then have "clean ?cf (sc_transaction x)" using v unfolding clean_def by (meson le_less_trans min.mono order_refl)
  then show ?thesis using that x by blast
qed

text \<open>With the default configuration: an amount below 10000 from a device that is not flagged.\<close>

lemma clean_default:
  "clean ScorerConfig t \<longleftrightarrow> dec_val (txn_amount t) < 10000 \<and> dict_get (txn_metadata t) ''device_flagged'' \<noteq> Some ''true''"
  by (simp add: clean_def rule_weight_def ScorerConfig_def not_le)

text \<open>
  C4: Fraud never settles. In every execution of a coordinator with its own cluster, whatever is killed, revived, redelivered or
  scored again, every entry that any replica has applied belongs to a submitted transaction whose amount and device do not
  by themselves reach the threshold of the configured rules.
\<close>

theorem fraud_never_settles:
  assumes "distinct ids" "clock_ok clock" "weights_ok config" "sched_cmds sched = {}" "list_all valid_transaction (submissions acts)"
    "Coordinator n k session_timeout config True
       (clock, \<lparr>w_cluster = RaftCluster ids (LedgerStateMachine init) rnd tmin tmax hb interval, w_reads = 0\<rparr>) = Inr co0"
  shows "\<exists>co. coordinator_run md5 (client_propose ledger_step sched timeout) (cluster_env ledger_step sched) acts co0 = Some co \<and>
    (\<forall>m. m \<notin> set ids \<or> (\<exists>h.
      state_machine (node_of (w_cluster (snd (co_raft_cluster co))) m) = fold ledger_step h (LedgerStateMachine init) \<and>
      set h \<subseteq> {e. \<exists>t now. t \<in> set (submissions acts) \<and> entry_of now t = Inr e \<and> clean config t}))"
proof -
  let ?c = "RaftCluster ids (LedgerStateMachine init) rnd tmin tmax hb interval :: (ledger_entry, ledger) raft_cluster"
  have ok: "clock_ok (fst (clock, \<lparr>w_cluster = ?c, w_reads = 0\<rparr>))" using assms(2) by simp
  obtain co where co: "coordinator_run md5 (client_propose ledger_step sched timeout) (cluster_env ledger_step sched) acts co0 = Some co"
    "co_pipe_ok (set (submissions acts)) co"
    "continues ledger_step (cleared_entries (pi_taken (co_pipeline co)) \<union> sched_cmds sched) (w_cluster (snd (clock, \<lparr>w_cluster = ?c, w_reads = 0\<rparr>)))
       (w_cluster (snd (co_raft_cluster co)))"
    by (rule cluster_backend.pipeline_run [OF assms(6) ok assms(3,5), of md5 ledger_step sched timeout])
  have reach: "continues ledger_step (cleared_entries (pi_taken (co_pipeline co))) ?c (w_cluster (snd (co_raft_cluster co)))"
    using co(3) unfolding assms(4) by simp
  have gate: "gate_ok co" "co_scorer_config co = config"
    using passes_run [OF _ co(1)] Coordinator_gate [OF assms(6,3)] by (auto simp: passes_def settings_def)
  have "sc_transaction ` set (pi_taken (co_pipeline co)) \<subseteq> set (submissions acts)"
    using pipe_taken [OF co(2)] by (auto simp: handed_on_def)
  then have sub: "\<exists>t now. t \<in> set (submissions acts) \<and> entry_of now t = Inr e \<and> clean config t"
    if e: "e \<in> cleared_entries (pi_taken (co_pipeline co))" for e
    by - (rule cleared_clean [OF gate(1) e], unfold gate(2), blast)
  have "\<exists>h. state_machine (node_of (w_cluster (snd (co_raft_cluster co))) m) = fold ledger_step h (LedgerStateMachine init) \<and>
      set h \<subseteq> {e. \<exists>t now. t \<in> set (submissions acts) \<and> entry_of now t = Inr e \<and> clean config t}" if "m \<in> set ids" for m
    using cluster_applied [OF assms(1) reach that] sub by blast
  then show ?thesis using co(1) by (intro exI [of _ co]) blast
qed

theorem fraud_never_settles_witness:
  "\<exists>co. coordinator_run demo_md5 (client_propose ledger_step demo_quiet 2) (cluster_env ledger_step demo_quiet) demo_acts demo_coordinator = Some co \<and>
     (\<exists>h. state_machine (node_of (w_cluster (snd (co_raft_cluster co))) ''a'') = fold ledger_step h (LedgerStateMachine demo_balances) \<and>
       set h \<subseteq> {e. \<exists>t now. t \<in> set (submissions demo_acts) \<and> entry_of now t = Inr e \<and> clean ScorerConfig t})"
proof -
  have "''a'' \<in> set demo_ids" by (simp add: demo_ids_def)
  then show ?thesis
    using fraud_never_settles [OF demo_names(1) demo_clock_ok demo_coordinator_ok(2,4,3,1), of demo_md5 2] by blast
qed

end
