(* ===== verification/Operations.thy ===== *)
theory Operations
  imports Coordinator
begin

text \<open>
  What an operator sees and does: the reports of a cluster and of the coordinator
  (\<open>RaftCluster.snapshot\<close>, \<open>Coordinator.status\<close>, \<open>Coordinator.balance\<close>) and the faults that
  chaos/fault_injection.py injects.
\<close>

section \<open>Reports\<close>

record node_report =
  nr_is_leader :: bool
  nr_term :: int
  nr_leader_id :: "string option"

definition snapshot :: "('c, 's) raft_cluster \<Rightarrow> (string, node_report) dict" where
  "snapshot c = map (\<lambda>(n, rt). (n, \<lparr>nr_is_leader = runtime_is_leader rt, nr_term = runtime_current_term rt,
       nr_leader_id = runtime_leader_id rt\<rparr>)) (filter (\<lambda>(n, rt). is_alive n c) (rc_runtimes c))"

record status_report =
  sr_raft :: "(string, node_report) dict option"
  sr_fraud_partition_assignment :: "(string, int list) dict"
  sr_submitted_count :: nat
  sr_fraud_flagged_count :: nat
  sr_failed_transaction_ids :: "string list"

definition coordinator_status :: "('c, 's) client coordinator \<Rightarrow> status_report" where
  "coordinator_status co =
     \<lparr>sr_raft = (if co_owns_raft_cluster co then Some (snapshot (w_cluster (snd (co_raft_cluster co)))) else None),
      sr_fraud_partition_assignment = map (\<lambda>(m, i). (m, assignment_for m (pi_group (co_pipeline co)))) (co_runtimes co),
      sr_submitted_count = submitted_count (co_submitter co), sr_fraud_flagged_count = fraud_flagged_count (co_submitter co),
      sr_failed_transaction_ids = failed_transaction_ids (co_submitter co)\<rparr>"

type_synonym ledger_client = "(ledger_entry, ledger) client"

definition coordinator_balance ::
  "(nat \<Rightarrow> (ledger_entry, ledger) raft_cluster \<Rightarrow> (ledger_entry, ledger) raft_cluster) \<Rightarrow> string \<Rightarrow> rat
   \<Rightarrow> ledger_client coordinator \<Rightarrow> (decimal result \<times> ledger_client coordinator) option" where
  "coordinator_balance env account timeout co =
     (if \<not> co_owns_raft_cluster co then Some (Inl NotImplementedError, co)
      else
        (case find_leader (fst (co_raft_cluster co)) env timeout (snd (co_raft_cluster co)) of
           None \<Rightarrow> None
         | Some (l, w) \<Rightarrow>
             (let co = co\<lparr>co_raft_cluster := (fst (co_raft_cluster co), w)\<rparr>
              in case l of
                   None \<Rightarrow> Some (Inl TimeoutError, co)
                 | Some n \<Rightarrow> Some (Inr (balance account (state_machine (node_of (w_cluster w) n))), co))))"

section \<open>Faults (chaos/fault_injection.py)\<close>

definition kill_raft_leader ::
  "(nat \<Rightarrow> rat) \<Rightarrow> (nat \<Rightarrow> ('c, 's) raft_cluster \<Rightarrow> ('c, 's) raft_cluster) \<Rightarrow> rat \<Rightarrow> ('c, 's) world
   \<Rightarrow> (string result \<times> ('c, 's) world) option" where
  "kill_raft_leader clock env timeout w =
     (case find_leader clock env timeout w of
        None \<Rightarrow> None
      | Some (None, w) \<Rightarrow> Some (Inl TimeoutError, w)
      | Some (Some n, w) \<Rightarrow>
          (case kill n (w_cluster w) of
             Inl e \<Rightarrow> Some (Inl e, w)
           | Inr c \<Rightarrow> Some (Inr n, w\<lparr>w_cluster := c\<rparr>)))"

partial_function (option) wait_loop ::
  "(nat \<Rightarrow> rat) \<Rightarrow> (nat \<Rightarrow> ('c, 's) raft_cluster \<Rightarrow> ('c, 's) raft_cluster) \<Rightarrow> int \<Rightarrow> rat \<Rightarrow> ('c, 's) world
   \<Rightarrow> (string result \<times> ('c, 's) world) option" where
  "wait_loop clock env exclude_term deadline w =
     (let (now, w) = monotonic clock env w in
      if \<not> now < deadline then Some (Inl TimeoutError, w)
      else
        (case find_leader clock env (2/10) w of
           None \<Rightarrow> None
         | Some (None, w) \<Rightarrow> wait_loop clock env exclude_term deadline w
         | Some (Some n, w) \<Rightarrow>
             if current_term (node_of (w_cluster w) n) > exclude_term then Some (Inr n, w)
             else wait_loop clock env exclude_term deadline w))"

definition wait_for_new_leader ::
  "(nat \<Rightarrow> rat) \<Rightarrow> (nat \<Rightarrow> ('c, 's) raft_cluster \<Rightarrow> ('c, 's) raft_cluster) \<Rightarrow> int \<Rightarrow> rat \<Rightarrow> ('c, 's) world
   \<Rightarrow> (string result \<times> ('c, 's) world) option" where
  "wait_for_new_leader clock env exclude_term timeout w =
     (let (now, w) = monotonic clock env w in wait_loop clock env exclude_term (now + timeout) w)"

text \<open>The faults of the fraud stage are the coordinator's own operations.\<close>

definition chaos_kill_fraud_worker :: "'w coordinator \<Rightarrow> string \<Rightarrow> 'w coordinator result" where
  "chaos_kill_fraud_worker co member = kill_fraud_worker member co"

definition chaos_revive_fraud_worker :: "'w coordinator \<Rightarrow> string \<Rightarrow> rat \<Rightarrow> 'w coordinator result" where
  "chaos_revive_fraud_worker co member now = revive_fraud_worker member now co"

section \<open>They return\<close>

lemma find_leader_result:
  assumes "clock_ok clock"
  obtains l w' where "find_leader clock env timeout w = Some (l, w')" "w_reads w < w_reads w'"
    "\<And>n. l = Some n \<Longrightarrow> leads (w_cluster w') n"
  using find_leader_returns [OF assms, of env timeout w] that by (auto split: option.splits)

lemma wait_loop_ends:
  assumes ok: "clock_ok clock" and late: "\<And>k. K \<le> k \<Longrightarrow> deadline \<le> clock k"
  shows "\<exists>r w'. wait_loop clock env exclude_term deadline w = Some (r, w') \<and>
    (case r of Inl e \<Rightarrow> e = TimeoutError | Inr n \<Rightarrow> leads (w_cluster w') n \<and> exclude_term < current_term (node_of (w_cluster w') n))"
proof (induction "K - w_reads w" arbitrary: w rule: less_induct)
  case less
  note unf = wait_loop.simps [of clock env exclude_term deadline w]
  obtain now w1 where m: "monotonic clock env w = (now, w1)" by force
  have reads: "w_reads w1 = Suc (w_reads w)" "now = clock (w_reads w)" using m by (auto simp: monotonic_def)
  obtain l w2 where f: "find_leader clock env (2/10) w1 = Some (l, w2)" "w_reads w1 < w_reads w2" "\<And>n. l = Some n \<Longrightarrow> leads (w_cluster w2) n"
    using find_leader_result [OF ok, of env "2/10" w1] by blast
  show ?case
  proof (cases "now < deadline")
    case True
    then have dec: "K - w_reads w2 < K - w_reads w" using reads f(2) late [of "w_reads w"] by fastforce
    show ?thesis
    proof (cases "\<exists>n. l = Some n \<and> exclude_term < current_term (node_of (w_cluster w2) n)")
      case found: True
      then show ?thesis unfolding unf using True m f(1,3) by auto
    next
      case False
      then have "wait_loop clock env exclude_term deadline w = wait_loop clock env exclude_term deadline w2"
        unfolding unf using True m f(1) by (auto split: option.splits)
      then show ?thesis using less [OF dec] by simp
    qed
  qed (simp add: unf m)
qed

section \<open>The cluster goes on beside them\<close>

lemma kill_raft_leader_continues:
  assumes "sched_cmds sched \<subseteq> C" "kill_raft_leader clock (others apl sched) timeout w = Some (r, w')"
  shows "continues apl C (w_cluster w) (w_cluster w')"
proof -
  obtain l w1 where f: "find_leader clock (others apl sched) timeout w = Some (l, w1)"
    using assms(2) by (auto simp: kill_raft_leader_def split: option.splits)
  have c1: "continues apl C (w_cluster w) (w_cluster w1)" by (rule find_leader_continues [OF assms(1) f])
  have "continues apl C (w_cluster w1) c" if "kill n (w_cluster w1) = Inr c" for n c
    unfolding continues_def using cluster_act_forget [of apl "Kill n" "w_cluster w1"] that by (intro exI [of _ "[Kill n]"]) simp
  then show ?thesis
    using c1 continues_trans [OF c1] assms(2) f by (auto simp: kill_raft_leader_def split: option.splits sum.splits)
qed

lemma wait_loop_continues:
  assumes C: "sched_cmds sched \<subseteq> C"
  shows "wait_loop clock env exclude_term deadline w = Some res \<Longrightarrow> env = others apl sched \<longrightarrow> continues apl C (w_cluster w) (w_cluster (snd res))"
proof (induction rule: wait_loop.raw_induct [where P = "\<lambda>clock env exclude_term deadline w res. env = others apl sched \<longrightarrow>
    continues apl C (w_cluster w) (w_cluster (snd res))", rotated, consumes 1, case_names loop])
  case (loop loop clock env exclude_term deadline w res)
  show ?case
  proof
    assume env: "env = others apl sched"
    obtain now w1 where m: "monotonic clock env w = (now, w1)" by force
    then have c1: "continues apl C (w_cluster w) (w_cluster w1)" using monotonic_continues C env by blast
    show "continues apl C (w_cluster w) (w_cluster (snd res))"
    proof (cases "now < deadline")
      case True
      then obtain l w2 where f: "find_leader clock env (2/10) w1 = Some (l, w2)" using loop(2) m by (auto split: option.splits)
      have c2: "continues apl C (w_cluster w) (w_cluster w2)"
        using continues_trans [OF c1 find_leader_continues [OF C]] f env by blast
      show ?thesis
      proof (cases "\<exists>n. l = Some n \<and> exclude_term < current_term (node_of (w_cluster w2) n)")
        case found: True
        then show ?thesis using loop(2) m f True c2 by auto
      next
        case False
        then have "loop clock env exclude_term deadline w2 = Some res" using loop(2) m f True by (auto split: option.splits if_splits)
        then show ?thesis using loop(1) env continues_trans [OF c2] by blast
      qed
    qed (use loop(2) m c1 in auto)
  qed
qed

lemma wait_for_new_leader_continues:
  assumes "sched_cmds sched \<subseteq> C" "wait_for_new_leader clock (others apl sched) exclude_term timeout w = Some (r, w')"
  shows "continues apl C (w_cluster w) (w_cluster w')"
proof -
  obtain now w1 where m: "monotonic clock (others apl sched) w = (now, w1)" by force
  then have "wait_loop clock (others apl sched) exclude_term (now + timeout) w1 = Some (r, w')" using assms(2) by (simp add: wait_for_new_leader_def)
  then show ?thesis using continues_trans [OF monotonic_continues [OF m assms(1)]] wait_loop_continues [OF assms(1)] by fastforce
qed

section \<open>Properties\<close>

text \<open>
  A report of a cluster never shows two live nodes that lead the same term, and shows exactly the
  nodes that are not cut off.
\<close>

lemma snapshot_one_leader:
  assumes "distinct ids" "cluster_run apl acts (RaftCluster ids sm0 rnd tmin tmax hb interval) = Inr c"
  shows "dict_keys (snapshot c) = filter (\<lambda>n. is_alive n c) ids \<and>
    (\<forall>n m rn rm. \<not> (dict_get (snapshot c) n = Some rn \<and> dict_get (snapshot c) m = Some rm \<and>
      nr_is_leader rn \<and> nr_is_leader rm \<and> nr_term rn = nr_term rm \<and> n \<noteq> m))"
proof -
  obtain N p where N: "cluster_rel ids c N" and p: "simulates ids N p" by (rule cluster_reachable [OF assms])
  have keys: "dict_keys (rc_runtimes c) = ids" by (rule cluster_relD(1) [OF N])
  have alive: "dict_keys (snapshot c) = filter (\<lambda>n. is_alive n c) (dict_keys (rc_runtimes c))"
    by (simp add: snapshot_def filter_map comp_def case_prod_unfold)
  have rep: "n \<in> set ids \<and> r = \<lparr>nr_is_leader = is_leader (node_of c n), nr_term = current_term (node_of c n), nr_leader_id = leader_id (node_of c n)\<rparr>"
    if got: "dict_get (snapshot c) n = Some r" for n r
  proof -
    obtain rt where rt: "(n, rt) \<in> set (rc_runtimes c)"
      "r = \<lparr>nr_is_leader = is_leader (rt_node rt), nr_term = current_term (rt_node rt), nr_leader_id = leader_id (rt_node rt)\<rparr>"
      using map_of_SomeD [OF got] by (auto simp: snapshot_def)
    then have "dict_get (rc_runtimes c) n = Some rt" using assms(1) keys by (intro map_of_is_SomeI) auto
    then show ?thesis using rt keys by force
  qed
  have one: "n = m" if "n \<in> set ids" "m \<in> set ids" "is_leader (node_of c n)" "is_leader (node_of c m)"
    "current_term (node_of c n) = current_term (node_of c m)" for n m
    using simulates_one_leader [OF p that(1,2)] cluster_relD [OF N] that by (auto simp: is_leader_def)
  show ?thesis
  proof (intro conjI allI notI)
    show "dict_keys (snapshot c) = filter (\<lambda>n. is_alive n c) ids" using alive keys by simp
  next
    fix n m rn rm
    assume "dict_get (snapshot c) n = Some rn \<and> dict_get (snapshot c) m = Some rm \<and> nr_is_leader rn \<and> nr_is_leader rm \<and>
      nr_term rn = nr_term rm \<and> n \<noteq> m"
    then show False using rep [of n rn] rep [of m rm] one [of n m] by auto
  qed
qed

text \<open>
  The operation balance always returns. Without a cluster of its own it raises NotImplementedError; otherwise it answers
  with the balance that the replica of a live leader has, or raises TimeoutError.
\<close>

lemma balance_reads_leader:
  assumes "clock_ok (fst (co_raft_cluster co))"
  shows "\<exists>r co'. coordinator_balance env account timeout co = Some (r, co') \<and>
    (case r of
       Inl e \<Rightarrow> e = (if co_owns_raft_cluster co then TimeoutError else NotImplementedError)
     | Inr b \<Rightarrow> co_owns_raft_cluster co \<and> (\<exists>n. leads (w_cluster (snd (co_raft_cluster co'))) n \<and>
         b = balance account (state_machine (node_of (w_cluster (snd (co_raft_cluster co'))) n))))"
proof (cases "co_owns_raft_cluster co")
  case True
  obtain l w where f: "find_leader (fst (co_raft_cluster co)) env timeout (snd (co_raft_cluster co)) = Some (l, w)"
    "\<And>n. l = Some n \<Longrightarrow> leads (w_cluster w) n"
    using find_leader_result [OF assms, of env timeout "snd (co_raft_cluster co)"] by blast
  show ?thesis using True f by (cases l) (auto simp: coordinator_balance_def)
qed (simp add: coordinator_balance_def)

definition demo_owner :: "bool \<Rightarrow> ledger_client coordinator result" where
  "demo_owner owns = Coordinator 2 1 1 ScorerConfig owns (demo_clock, \<lparr>w_cluster = ledger_end, w_reads = 0\<rparr>)"

text \<open>
  \<open>kill_raft_leader\<close> always returns: with the name of a node that was alive and led, which is then stopped and
  cut off, or with TimeoutError.
\<close>

lemma kill_raft_leader_stops:
  assumes "clock_ok clock"
  shows "\<exists>r w'. kill_raft_leader clock env timeout w = Some (r, w') \<and>
    (case r of
       Inl e \<Rightarrow> e = TimeoutError
     | Inr n \<Rightarrow> \<not> is_alive n (w_cluster w') \<and> \<not> leads (w_cluster w') n \<and>
         (\<exists>rt. dict_get (rc_runtimes (w_cluster w')) n = Some rt \<and> \<not> rt_running rt \<and> is_leader (rt_node rt)))"
proof -
  obtain l w1 where f: "find_leader clock env timeout w = Some (l, w1)" "\<And>n. l = Some n \<Longrightarrow> leads (w_cluster w1) n"
    using find_leader_result [OF assms, of env timeout w] by blast
  show ?thesis
  proof (cases l)
    case (Some n)
    then obtain rt where rt: "dict_get (rc_runtimes (w_cluster w1)) n = Some rt" "is_leader (rt_node rt)"
      using f(2) by (auto simp: leads_def split: option.splits)
    then have "kill n (w_cluster w1) = Inr (put_runtime n (w_cluster w1) (partition_nodes [n] (rc_transport (w_cluster w1)), runtime_stop rt))"
      by (simp add: kill_def with_runtime_def)
    then show ?thesis
      using f(1) Some rt by (auto simp: kill_raft_leader_def put_runtime_def is_alive_def is_partitioned_def partition_nodes_def leads_def runtime_stop_def)
  qed (use f in \<open>simp add: kill_raft_leader_def\<close>)
qed

text \<open>
  \<open>wait_for_new_leader\<close> always returns: with a node that is alive and leads a term after the excluded one,
  or with TimeoutError.
\<close>

lemma wait_for_new_leader_returns:
  assumes "clock_ok clock"
  shows "\<exists>r w'. wait_for_new_leader clock env exclude_term timeout w = Some (r, w') \<and>
    (case r of Inl e \<Rightarrow> e = TimeoutError | Inr n \<Rightarrow> leads (w_cluster w') n \<and> exclude_term < current_term (node_of (w_cluster w') n))"
proof -
  obtain now w1 where m: "monotonic clock env w = (now, w1)" by force
  obtain K where K: "\<And>k. K \<le> k \<Longrightarrow> now + timeout \<le> clock k" using assms by (auto simp: clock_ok_def)
  show ?thesis using wait_loop_ends [OF assms K, where env = env and exclude_term = exclude_term and w = w1] m by (simp add: wait_for_new_leader_def)
qed

end
