(* ===== verification/Demos.thy ===== *)
theory Demos
  imports Fraud_Gate Operations
begin

text \<open>
  The demonstration scripts (scripts/) as programs over a coordinator whose threads go on beside them, and
  what they can print.
\<close>

section \<open>Scripts\<close>

text \<open>
  A script sees the coordinator and counts its own events. Everything beside it is a stage: the digest, what the
  nodes of the cluster do, what the coordinator's threads do up to the script's k-th event, which of the cluster's actions are
  its start and its stop, when the workers join, the clocks of the script and of the cluster's client, the randomness of the nodes, and
  the ids and times of the transactions it builds. Printing is left out.
\<close>

record script =
  sp_coordinator :: "ledger_client coordinator"
  sp_events :: nat

record stage =
  sg_md5 :: "string \<Rightarrow> nat list"
  sg_sched :: "nat \<Rightarrow> ledger_entry action list"
  sg_others :: "nat \<Rightarrow> nat co_action list"
  sg_start :: nat
  sg_stop :: nat
  sg_joins :: "nat \<Rightarrow> rat"
  sg_clock :: "nat \<Rightarrow> rat"
  sg_client_clock :: "nat \<Rightarrow> rat"
  sg_random :: "string \<Rightarrow> nat \<Rightarrow> rat \<Rightarrow> rat \<Rightarrow> rat"
  sg_uuid :: "nat \<Rightarrow> string"
  sg_wall :: "nat \<Rightarrow> int"

text \<open>A program of a script does not return, or returns or raises and leaves the script in a new state.\<close>

type_synonym 'a prog = "script \<Rightarrow> ('a result \<times> script) option"

definition give :: "'a result \<Rightarrow> 'a prog" where
  "give r s = Some (r, s)"

definition andthen :: "'a prog \<Rightarrow> ('a \<Rightarrow> 'b prog) \<Rightarrow> 'b prog" where
  "andthen m f s = Option.bind (m s) (\<lambda>(r, s). case r of Inl e \<Rightarrow> Some (Inl e, s) | Inr a \<Rightarrow> f a s)"

definition perform :: "stage \<Rightarrow> nat co_action list \<Rightarrow> unit prog" where
  "perform st acts s =
     map_option (\<lambda>co. (Inr (), s\<lparr>sp_coordinator := co\<rparr>))
       (coordinator_run (sg_md5 st) (client_propose ledger_step (sg_sched st) 2) (cluster_env ledger_step (sg_sched st)) acts (sp_coordinator s))"

text \<open>The other threads go on, and the script reads its clock.\<close>

definition read_clock :: "stage \<Rightarrow> rat prog" where
  "read_clock st = andthen (\<lambda>s. perform st (sg_others st (sp_events s)) s) (\<lambda>_ s.
     Some (Inr (sg_clock st (sp_events s)), s\<lparr>sp_events := Suc (sp_events s)\<rparr>))"

definition submit :: "stage \<Rightarrow> transaction \<Rightarrow> unit prog" where
  "submit st t = andthen (read_clock st) (\<lambda>_ s. perform st [CoSubmit t (sg_wall st (sp_events s))] s)"

definition get_balance :: "stage \<Rightarrow> string \<Rightarrow> decimal prog" where
  "get_balance st account s =
     map_option (\<lambda>(r, co). (r, s\<lparr>sp_coordinator := co\<rparr>)) (coordinator_balance (others ledger_step (sg_sched st)) account 2 (sp_coordinator s))"

definition on_cluster :: "((nat \<Rightarrow> rat) \<Rightarrow> (ledger_entry, ledger) world \<Rightarrow> ('a \<times> (ledger_entry, ledger) world) option) \<Rightarrow> ('a \<Rightarrow> 'b result) \<Rightarrow> 'b prog" where
  "on_cluster f g s =
     (let (clock, w) = co_raft_cluster (sp_coordinator s)
      in map_option (\<lambda>(r, w). (g r, s\<lparr>sp_coordinator := (sp_coordinator s)\<lparr>co_raft_cluster := (clock, w)\<rparr>\<rparr>)) (f clock w))"

text \<open>\<open>while time.monotonic() < deadline and waiting(balance): time.sleep(0.02); balance = coordinator.balance(account)\<close>\<close>

partial_function (option) poll_balance :: "stage \<Rightarrow> string \<Rightarrow> (decimal \<Rightarrow> bool) \<Rightarrow> rat \<Rightarrow> decimal \<Rightarrow> script \<Rightarrow> (decimal result \<times> script) option" where
  "poll_balance st account waiting deadline bal s =
     Option.bind (read_clock st s) (\<lambda>(now, s).
       case now of
         Inl e \<Rightarrow> Some (Inl e, s)
       | Inr now \<Rightarrow>
           if now < deadline \<and> waiting bal then
             Option.bind (get_balance st account s) (\<lambda>(r, s).
               case r of Inl e \<Rightarrow> Some (Inl e, s) | Inr bal \<Rightarrow> poll_balance st account waiting deadline bal s)
           else Some (Inr bal, s))"

text \<open>A deadline, a first reading and the loop, as the scripts write them.\<close>

definition wait_for_balance :: "stage \<Rightarrow> string \<Rightarrow> (decimal \<Rightarrow> bool) \<Rightarrow> rat \<Rightarrow> decimal prog" where
  "wait_for_balance st account waiting timeout =
     andthen (read_clock st) (\<lambda>now.
     andthen (get_balance st account) (\<lambda>bal. poll_balance st account waiting (now + timeout) bal))"

definition debit_of :: "stage \<Rightarrow> nat \<Rightarrow> string \<Rightarrow> int \<Rightarrow> transaction" where
  "debit_of st k account amount =
     \<lparr>txn_account_id = account, txn_type = DEBIT, txn_amount = dec_of_int amount, txn_counterparty = None, txn_currency = ''USD'',
       txn_region = ''us-east-1'', txn_status = PENDING, txn_id = sg_uuid st k, txn_created_at = sg_wall st k, txn_metadata = []\<rparr>"

definition debit :: "stage \<Rightarrow> nat \<Rightarrow> string \<Rightarrow> int \<Rightarrow> transaction result" where
  "debit st k account amount = Transaction (debit_of st k account amount)"

text \<open>A coordinator with its own cluster, with the defaults of both, and the two ends of every script.\<close>

definition new_demo :: "stage \<Rightarrow> int \<Rightarrow> nat \<Rightarrow> scorer_config \<Rightarrow> string list \<Rightarrow> (string, decimal) dict \<Rightarrow> script result" where
  "new_demo st n k config ids init =
     rbind (Coordinator n k 1 config True (sg_client_clock st,
       \<lparr>w_cluster = RaftCluster ids (LedgerStateMachine init) (sg_random st) (15/100) (3/10) (5/100) (1/100), w_reads = 0\<rparr>)) (\<lambda>co.
       Inr \<lparr>sp_coordinator = co, sp_events = 0\<rparr>)"

definition with_coordinator :: "stage \<Rightarrow> 'a prog \<Rightarrow> 'a prog" where
  "with_coordinator st body =
     andthen (perform st [CoStart (sg_start st) (sg_joins st)]) (\<lambda>_ s.
       Option.bind (body s) (\<lambda>(r, s). andthen (perform st [CoStop (sg_stop st)]) (\<lambda>_. give r) s))"

section \<open>The scripts\<close>

text \<open>scripts/demo\_conflicting\_transactions.py; the two threads submit in either order.\<close>

definition conflicting_script :: "stage \<Rightarrow> bool \<Rightarrow> decimal prog" where
  "conflicting_script st a_first =
     andthen (give (debit st 0 ''acct-1'' 80)) (\<lambda>txn_a.
     andthen (give (debit st 1 ''acct-1'' 80)) (\<lambda>txn_b.
     andthen (submit st (if a_first then txn_a else txn_b)) (\<lambda>_.
     andthen (submit st (if a_first then txn_b else txn_a)) (\<lambda>_.
       wait_for_balance st ''acct-1'' (\<lambda>b. dec_eq b (dec_of_int 100)) 5))))"

definition conflicting_main :: "stage \<Rightarrow> bool \<Rightarrow> (decimal result \<times> script) option result" where
  "conflicting_main st a_first =
     rbind (new_demo st 2 2 ScorerConfig [''raft-1'', ''raft-2'', ''raft-3''] [(''acct-1'', dec_of_int 100)]) (\<lambda>s.
       Inr (with_coordinator st (conflicting_script st a_first) s))"

text \<open>scripts/demo\_kill\_leader.py\<close>

definition kill_leader_script :: "stage \<Rightarrow> decimal prog" where
  "kill_leader_script st =
     (let env = others ledger_step (sg_sched st)
      in andthen (give (debit st 0 ''acct-1'' 100)) (\<lambda>txn.
         andthen (submit st txn) (\<lambda>_.
         andthen (wait_for_balance st ''acct-1'' (\<lambda>b. \<not> dec_eq b (dec_of_int 900)) 3) (\<lambda>bal.
         andthen (on_cluster (\<lambda>clock w. map_option (\<lambda>(l, w). (map_option (\<lambda>n. current_term (node_of (w_cluster w) n)) l, w))
             (find_leader clock env 2 w)) (\<lambda>old. case old of None \<Rightarrow> Inl AssertionError | Some term \<Rightarrow> Inr term)) (\<lambda>old_term.
         andthen (on_cluster (\<lambda>clock w. kill_raft_leader clock env 2 w) id) (\<lambda>killed_id.
         andthen (give (debit st 1 ''acct-1'' 200)) (\<lambda>txn.
         andthen (submit st txn) (\<lambda>_.
         andthen (on_cluster (\<lambda>clock w. wait_for_new_leader clock env old_term 3 w) id) (\<lambda>new_leader.
           wait_for_balance st ''acct-1'' (\<lambda>b. \<not> dec_eq b (dec_of_int 700)) 3)))))))))"

definition kill_leader_main :: "stage \<Rightarrow> (decimal result \<times> script) option result" where
  "kill_leader_main st =
     rbind (new_demo st 2 2 ScorerConfig [''raft-1'', ''raft-2'', ''raft-3'', ''raft-4'', ''raft-5''] [(''acct-1'', dec_of_int 1000)]) (\<lambda>s.
       Inr (with_coordinator st (kill_leader_script st) s))"

text \<open>scripts/demo\_fraud\_burst.py; the two clock readings that only time the printed rate are left out.\<close>

definition burst_config :: scorer_config where
  "burst_config = ScorerConfig\<lparr>cf_large_amount_threshold := dec_of_int 10000, cf_velocity_max_transactions := 5,
     cf_velocity_window_seconds := 5, cf_velocity_window_text := ''5.0''\<rparr>"

definition acct :: "nat \<Rightarrow> string" where
  "acct i = ''acct-'' @ int_str (int i)"

text \<open>Accounts and amounts in the order in which the script submits them: 60 normal ones, a burst of 25 and 25 large ones.\<close>

definition burst_orders :: "(string \<times> int) list" where
  "burst_orders =
     map (\<lambda>i. (acct (i mod 20), 25)) [0..<60] @ replicate 25 (''acct-victim'', 15) @ map (\<lambda>i. (acct (i mod 20), 25000)) [0..<25]"

fun submit_orders :: "stage \<Rightarrow> (string \<times> int) list \<Rightarrow> nat \<Rightarrow> unit prog" where
  "submit_orders st [] k = give (Inr ())"
| "submit_orders st ((account, amount) # rest) k =
     andthen (give (debit st k account amount)) (\<lambda>txn. andthen (submit st txn) (\<lambda>_. submit_orders st rest (Suc k)))"

definition get_counts :: "(nat \<times> nat) prog" where
  "get_counts s =
     (let status = coordinator_status (sp_coordinator s) in Some (Inr (sr_submitted_count status, sr_fraud_flagged_count status), s))"

partial_function (option) poll_counts :: "stage \<Rightarrow> nat \<Rightarrow> rat \<Rightarrow> script \<Rightarrow> (unit result \<times> script) option" where
  "poll_counts st wanted deadline s =
     Option.bind (read_clock st s) (\<lambda>(now, s).
       case now of
         Inl e \<Rightarrow> Some (Inl e, s)
       | Inr now \<Rightarrow>
           if now < deadline then
             Option.bind (get_counts s) (\<lambda>(r, s).
               case r of
                 Inl e \<Rightarrow> Some (Inl e, s)
               | Inr counts \<Rightarrow> if wanted \<le> fst counts + snd counts then Some (Inr (), s) else poll_counts st wanted deadline s)
           else Some (Inr (), s))"

definition burst_script :: "stage \<Rightarrow> (nat \<times> nat) prog" where
  "burst_script st =
     andthen (submit_orders st burst_orders 0) (\<lambda>_.
     andthen (read_clock st) (\<lambda>now.
     andthen (poll_counts st (length burst_orders) (now + 10)) (\<lambda>_. get_counts)))"

definition burst_main :: "stage \<Rightarrow> ((nat \<times> nat) result \<times> script) option result" where
  "burst_main st =
     rbind (new_demo st 4 3 burst_config [''raft-1'', ''raft-2'', ''raft-3''] (map (\<lambda>i. (acct i, dec_of_int 5000)) [0..<20])) (\<lambda>s.
       Inr (with_coordinator st (burst_script st) s))"

section \<open>Total correctness of scripts\<close>

text \<open>From every state with the invariant the program ends in one; it raises an exception of \<open>E\<close> or returns a value with \<open>Q\<close>.\<close>

definition achieves :: "(script \<Rightarrow> bool) \<Rightarrow> py_error set \<Rightarrow> 'a prog \<Rightarrow> ('a \<Rightarrow> bool) \<Rightarrow> bool" where
  "achieves I E m Q \<longleftrightarrow> (\<forall>s. I s \<longrightarrow> (\<exists>r s'. m s = Some (r, s') \<and> I s' \<and> (case r of Inl e \<Rightarrow> e \<in> E | Inr a \<Rightarrow> Q a)))"

lemma achievesD:
  assumes "achieves I E m Q" "I s"
  obtains r s' where "m s = Some (r, s')" "I s'" "case r of Inl e \<Rightarrow> e \<in> E | Inr a \<Rightarrow> Q a"
  using assms by (auto simp: achieves_def)

lemma achieves_mono:
  assumes "achieves I E m Q" "E \<subseteq> E'"
  shows "achieves I E' m Q"
proof -
  have "case r of Inl e \<Rightarrow> e \<in> E' | Inr a \<Rightarrow> Q a" if "case r of Inl e \<Rightarrow> e \<in> E | Inr a \<Rightarrow> Q a" for r
    using that assms(2) by (cases r) auto
  then show ?thesis using assms(1) unfolding achieves_def by blast
qed

lemma achieves_give: "(case r of Inl e \<Rightarrow> e \<in> E | Inr a \<Rightarrow> Q a) \<Longrightarrow> achieves I E (give r) Q"
  by (simp add: achieves_def give_def)

lemma achieves_andthen:
  assumes "achieves I E m Q" "\<And>a. Q a \<Longrightarrow> achieves I E (f a) R"
  shows "achieves I E (andthen m f) R"
  unfolding achieves_def
proof (intro allI impI)
  fix s assume "I s"
  then obtain r s1 where m: "m s = Some (r, s1)" "I s1" "case r of Inl e \<Rightarrow> e \<in> E | Inr a \<Rightarrow> Q a" by (rule achievesD [OF assms(1)])
  show "\<exists>r s'. andthen m f s = Some (r, s') \<and> I s' \<and> (case r of Inl e \<Rightarrow> e \<in> E | Inr a \<Rightarrow> R a)"
  proof (cases r)
    case (Inr a)
    then show ?thesis using m achievesD [OF assms(2), of a s1] by (fastforce simp: andthen_def)
  qed (use m in \<open>simp add: andthen_def\<close>)
qed

section \<open>The invariant of a demonstration\<close>

text \<open>The ledger entries that may be applied when exactly the transactions of \<open>T\<close> are submitted.\<close>

definition clean_entries :: "scorer_config \<Rightarrow> transaction set \<Rightarrow> ledger_entry set" where
  "clean_entries cf T = {e. \<exists>t now. t \<in> T \<and> entry_of now t = Inr e \<and> clean cf t}"

definition stage_ok :: "stage \<Rightarrow> bool" where
  "stage_ok st \<longleftrightarrow> clock_ok (sg_clock st) \<and> clock_ok (sg_client_clock st) \<and> sched_cmds (sg_sched st) = {} \<and>
     (\<forall>k. submissions (sg_others st k) = [])"

definition demo_world :: "stage \<Rightarrow> string list \<Rightarrow> (string, decimal) dict \<Rightarrow> ledger_client" where
  "demo_world st ids init = (sg_client_clock st,
     \<lparr>w_cluster = RaftCluster ids (LedgerStateMachine init) (sg_random st) (15/100) (3/10) (5/100) (1/100), w_reads = 0\<rparr>)"

definition demo_ok :: "stage \<Rightarrow> scorer_config \<Rightarrow> string list \<Rightarrow> (string, decimal) dict \<Rightarrow> transaction set \<Rightarrow> script \<Rightarrow> bool" where
  "demo_ok st cf ids init T s \<longleftrightarrow> cluster_backend.co_ok (sg_sched st) ledger_step T (demo_world st ids init) (sp_coordinator s) \<and>
     gate_ok (sp_coordinator s) \<and> co_scorer_config (sp_coordinator s) = cf \<and> co_owns_raft_cluster (sp_coordinator s)"

lemma demo_ok_cluster:
  assumes "demo_ok st cf ids init T s" "continues ledger_step {} (w_cluster (snd (co_raft_cluster (sp_coordinator s)))) (w_cluster w)"
  shows "demo_ok st cf ids init T (s\<lparr>sp_coordinator := (sp_coordinator s)\<lparr>co_raft_cluster := (fst (co_raft_cluster (sp_coordinator s)), w)\<rparr>\<rparr>)"
proof -
  have "continues ledger_step (sched_cmds (sg_sched st)) (w_cluster (snd (co_raft_cluster (sp_coordinator s)))) (w_cluster w)"
    by (rule continues_mono [OF _ assms(2)]) simp
  then show ?thesis
    using assms(1) cluster_backend.co_ok_reach [of "sg_sched st" ledger_step T _ "sp_coordinator s"]
    by (auto simp: demo_ok_def gate_ok_def cluster_backend.co_ok_def cluster_backend.settled_def)
qed

lemma demo_replica:
  assumes "demo_ok st cf ids init T s" "stage_ok st" "distinct ids" "m \<in> set ids"
  shows "\<exists>h. state_machine (node_of (w_cluster (snd (co_raft_cluster (sp_coordinator s)))) m) = fold ledger_step h (LedgerStateMachine init) \<and>
    set h \<subseteq> clean_entries cf T"
proof -
  let ?co = "sp_coordinator s"
  have co: "co_pipe_ok T ?co" "gate_ok ?co" "co_scorer_config ?co = cf"
    "continues ledger_step (cleared_entries (pi_taken (co_pipeline ?co)) \<union> sched_cmds (sg_sched st))
      (w_cluster (snd (demo_world st ids init))) (w_cluster (snd (co_raft_cluster ?co)))"
    using assms(1) by (auto simp: demo_ok_def cluster_backend.co_ok_def cluster_backend.settled_def)
  have "sc_transaction ` set (pi_taken (co_pipeline ?co)) \<subseteq> T" using pipe_taken [OF co(1)] by (auto simp: handed_on_def)
  then have sub: "e \<in> clean_entries cf T" if e: "e \<in> cleared_entries (pi_taken (co_pipeline ?co))" for e
    by - (rule cleared_clean [OF co(2) e], auto simp: clean_entries_def co(3))
  have quiet: "sched_cmds (sg_sched st) = {}" using assms(2) by (simp add: stage_ok_def)
  obtain h where "state_machine (node_of (w_cluster (snd (co_raft_cluster ?co))) m) = fold ledger_step h (LedgerStateMachine init)"
    "set h \<subseteq> cleared_entries (pi_taken (co_pipeline ?co))"
    using cluster_applied [OF assms(3) co(4) [unfolded demo_world_def snd_conv world.simps quiet] assms(4)] by auto
  then show ?thesis using sub by (intro exI [of _ h]) blast
qed

lemma perform_ok:
  assumes "stage_ok st" "\<forall>t \<in> T. valid_transaction t" "set (submissions acts) \<subseteq> T"
  shows "achieves (demo_ok st cf ids init T) {} (perform st acts) (\<lambda>_. True)"
  unfolding achieves_def
proof (intro allI impI)
  fix s assume ok: "demo_ok st cf ids init T s"
  have v: "list_all valid_transaction (submissions acts)" using assms(2,3) by (auto simp: list_all_iff)
  obtain co where co: "coordinator_run (sg_md5 st) (client_propose ledger_step (sg_sched st) 2) (cluster_env ledger_step (sg_sched st)) acts
      (sp_coordinator s) = Some co"
    "cluster_backend.co_ok (sg_sched st) ledger_step (set (submissions acts) \<union> T) (demo_world st ids init) co"
    using cluster_backend.run_ok [OF _ assms(2) v] ok unfolding demo_ok_def by blast
  have "passes (sp_coordinator s) co" using passes_run [OF _ co(1)] ok by (simp add: demo_ok_def)
  moreover have "set (submissions acts) \<union> T = T" using assms(3) by blast
  ultimately have "demo_ok st cf ids init T (s\<lparr>sp_coordinator := co\<rparr>)" using co(2) ok by (simp add: demo_ok_def passes_def settings_def)
  then show "\<exists>r s'. perform st acts s = Some (r, s') \<and> demo_ok st cf ids init T s' \<and> (case r of Inl e \<Rightarrow> e \<in> {} | Inr a \<Rightarrow> True)"
    by (intro exI [of _ "Inr ()"] exI [of _ "s\<lparr>sp_coordinator := co\<rparr>"]) (simp add: perform_def co(1))
qed

lemma read_clock_ok:
  assumes "stage_ok st" "\<forall>t \<in> T. valid_transaction t" "demo_ok st cf ids init T s"
  obtains s' where "read_clock st s = Some (Inr (sg_clock st (sp_events s)), s')" "demo_ok st cf ids init T s'" "sp_events s' = Suc (sp_events s)"
proof -
  have "set (submissions (sg_others st (sp_events s))) \<subseteq> T" using assms(1) by (simp add: stage_ok_def)
  from perform_ok [OF assms(1,2) this] assms(3)
  obtain r s1 where p: "perform st (sg_others st (sp_events s)) s = Some (r, s1)" "demo_ok st cf ids init T s1" "case r of Inl e \<Rightarrow> e \<in> {} | Inr a \<Rightarrow> True"
    by (rule achievesD)
  then obtain u where r: "r = Inr u" by (cases r) auto
  have "sp_events s1 = sp_events s" using p(1) by (auto simp: perform_def)
  then show ?thesis
    using p(1,2) r by (intro that [of "s1\<lparr>sp_events := Suc (sp_events s1)\<rparr>"]) (simp_all add: read_clock_def andthen_def demo_ok_def)
qed

lemma achieves_read_clock:
  assumes "stage_ok st" "\<forall>t \<in> T. valid_transaction t"
  shows "achieves (demo_ok st cf ids init T) {} (read_clock st) (\<lambda>_. True)"
  unfolding achieves_def
proof (intro allI impI)
  fix s assume "demo_ok st cf ids init T s"
  then show "\<exists>r s'. read_clock st s = Some (r, s') \<and> demo_ok st cf ids init T s' \<and> (case r of Inl e \<Rightarrow> e \<in> {} | Inr a \<Rightarrow> True)"
    using read_clock_ok [OF assms] by (metis sum.case(2))
qed

lemma achieves_submit:
  assumes "stage_ok st" "\<forall>t \<in> T. valid_transaction t" "t \<in> T"
  shows "achieves (demo_ok st cf ids init T) {} (submit st t) (\<lambda>_. True)"
  unfolding submit_def
proof (rule achieves_andthen [OF achieves_read_clock [OF assms(1,2)]])
  show "achieves (demo_ok st cf ids init T) {} (\<lambda>s. perform st [CoSubmit t (sg_wall st (sp_events s))] s) (\<lambda>_. True)"
    unfolding achieves_def
  proof (intro allI impI)
    fix s assume "demo_ok st cf ids init T s"
    then show "\<exists>r s'. perform st [CoSubmit t (sg_wall st (sp_events s))] s = Some (r, s') \<and> demo_ok st cf ids init T s' \<and>
        (case r of Inl e \<Rightarrow> e \<in> {} | Inr a \<Rightarrow> True)"
      using perform_ok [OF assms(1,2), of "[CoSubmit t (sg_wall st (sp_events s))]"] assms(3) by (simp add: achieves_def)
  qed
qed

lemma demo_leader:
  assumes "demo_ok st cf ids init T s" "continues ledger_step {} (w_cluster (snd (co_raft_cluster (sp_coordinator s)))) c" "leads c n"
    "distinct ids"
  shows "n \<in> set ids"
proof -
  have "dict_keys (rc_runtimes c) = dict_keys (rc_runtimes (w_cluster (snd (demo_world st ids init))))"
    using continues_keys [OF assms(2)] continues_keys assms(1)
    by (fastforce simp: demo_ok_def cluster_backend.co_ok_def cluster_backend.settled_def)
  also have "\<dots> = ids" using cluster_relD(1) [OF RaftCluster_init(1) [OF assms(4) refl]] by (simp add: demo_world_def)
  finally show ?thesis using assms(3) by (auto simp: leads_def dest: dict_get_Some_key split: option.splits)
qed

lemma achieves_get_balance:
  assumes "stage_ok st" "distinct ids"
    and B: "\<And>h. set h \<subseteq> clean_entries cf T \<Longrightarrow> B (balance account (fold ledger_step h (LedgerStateMachine init)))"
  shows "achieves (demo_ok st cf ids init T) {TimeoutError} (get_balance st account) B"
  unfolding achieves_def
proof (intro allI impI)
  fix s assume ok: "demo_ok st cf ids init T s"
  let ?co = "sp_coordinator s" and ?env = "others ledger_step (sg_sched st)"
  have owns: "co_owns_raft_cluster ?co" and clk: "clock_ok (fst (co_raft_cluster ?co))"
    using ok by (auto simp: demo_ok_def cluster_backend.co_ok_def cluster_backend.settled_def)
  obtain l w where f: "find_leader (fst (co_raft_cluster ?co)) ?env 2 (snd (co_raft_cluster ?co)) = Some (l, w)"
    "\<And>n. l = Some n \<Longrightarrow> leads (w_cluster w) n"
    using find_leader_result [OF clk, of ?env 2 "snd (co_raft_cluster ?co)"] by metis
  let ?s = "s\<lparr>sp_coordinator := ?co\<lparr>co_raft_cluster := (fst (co_raft_cluster ?co), w)\<rparr>\<rparr>"
  have c: "continues ledger_step {} (w_cluster (snd (co_raft_cluster ?co))) (w_cluster w)"
    using find_leader_continues [OF _ f(1)] assms(1) by (simp add: stage_ok_def)
  have ok': "demo_ok st cf ids init T ?s" by (rule demo_ok_cluster [OF ok c])
  show "\<exists>r s'. get_balance st account s = Some (r, s') \<and> demo_ok st cf ids init T s' \<and> (case r of Inl e \<Rightarrow> e \<in> {TimeoutError} | Inr a \<Rightarrow> B a)"
  proof (cases l)
    case None
    then show ?thesis using f(1) owns ok' by (simp add: get_balance_def coordinator_balance_def)
  next
    case (Some n)
    have "n \<in> set ids" by (rule demo_leader [OF ok c f(2) [OF Some] assms(2)])
    from demo_replica [OF ok' assms(1,2) this] B have "B (balance account (state_machine (node_of (w_cluster w) n)))" by auto
    then show ?thesis using Some f(1) owns ok' by (simp add: get_balance_def coordinator_balance_def)
  qed
qed

lemma poll_balance_ok:
  assumes st: "stage_ok st" "\<forall>t \<in> T. valid_transaction t"
    and get: "achieves (demo_ok st cf ids init T) {TimeoutError} (get_balance st account) B"
    and late: "\<And>k. K \<le> k \<Longrightarrow> deadline \<le> sg_clock st k"
    and s: "demo_ok st cf ids init T s" "B bal"
  shows "\<exists>r s'. poll_balance st account waiting deadline bal s = Some (r, s') \<and> demo_ok st cf ids init T s' \<and>
    (case r of Inl e \<Rightarrow> e \<in> {TimeoutError} | Inr b \<Rightarrow> B b)"
  using s
proof (induction "K - sp_events s" arbitrary: s bal rule: less_induct)
  case less
  obtain s1 where c: "read_clock st s = Some (Inr (sg_clock st (sp_events s)), s1)" "demo_ok st cf ids init T s1" "sp_events s1 = Suc (sp_events s)"
    by (rule read_clock_ok [OF st less.prems(1)])
  note unf = poll_balance.simps [of st account waiting deadline bal s]
  show ?case
  proof (cases "sg_clock st (sp_events s) < deadline \<and> waiting bal")
    case True
    obtain r s2 where g: "get_balance st account s1 = Some (r, s2)" "demo_ok st cf ids init T s2" "case r of Inl e \<Rightarrow> e \<in> {TimeoutError} | Inr b \<Rightarrow> B b"
      using c(2) by (rule achievesD [OF get])
    have "sp_events s2 = Suc (sp_events s)" using g(1) c(3) by (auto simp: get_balance_def)
    moreover have "\<not> K \<le> sp_events s" using late [of "sp_events s"] True by auto
    ultimately have dec: "K - sp_events s2 < K - sp_events s" by simp
    show ?thesis
    proof (cases r)
      case (Inr b)
      then have "poll_balance st account waiting deadline bal s = poll_balance st account waiting deadline b s2"
        unfolding unf using c(1) g(1) True by simp
      then show ?thesis using less(1) [OF dec g(2), of b] g(3) Inr by simp
    qed (unfold unf, use c(1) g True in simp)
  qed (unfold unf, use c less.prems in auto)
qed

lemma achieves_wait_for_balance:
  assumes st: "stage_ok st" "\<forall>t \<in> T. valid_transaction t" and "distinct ids"
    and B: "\<And>h. set h \<subseteq> clean_entries cf T \<Longrightarrow> B (balance account (fold ledger_step h (LedgerStateMachine init)))"
  shows "achieves (demo_ok st cf ids init T) {TimeoutError} (wait_for_balance st account waiting timeout) B"
  unfolding wait_for_balance_def
proof (rule achieves_andthen)
  note get = achieves_get_balance [where T = T and cf = cf and B = B and account = account and init = init, OF st(1) assms(3) B]
  show "achieves (demo_ok st cf ids init T) {TimeoutError} (read_clock st) (\<lambda>_. True)"
    by (rule achieves_mono [OF achieves_read_clock [OF st]]) simp
  fix now
  show "achieves (demo_ok st cf ids init T) {TimeoutError} (andthen (get_balance st account) (\<lambda>bal. poll_balance st account waiting (now + timeout) bal)) B"
  proof (rule achieves_andthen [OF get])
    fix bal assume "B bal"
    moreover obtain K where "\<And>k. K \<le> k \<Longrightarrow> now + timeout \<le> sg_clock st k" using st(1) unfolding stage_ok_def clock_ok_def by meson
    ultimately show "achieves (demo_ok st cf ids init T) {TimeoutError} (poll_balance st account waiting (now + timeout) bal) B"
      unfolding achieves_def using poll_balance_ok [OF st get] by blast
  qed
qed

text \<open>An operation on the cluster that goes on with what the cluster does.\<close>

lemma achieves_on_cluster:
  assumes "\<And>clock w. clock_ok clock \<Longrightarrow> \<exists>r w'. f clock w = Some (r, w') \<and> continues ledger_step {} (w_cluster w) (w_cluster w') \<and>
      (case g r of Inl e \<Rightarrow> e \<in> E | Inr a \<Rightarrow> Q a)"
  shows "achieves (demo_ok st cf ids init T) E (on_cluster f g) Q"
  unfolding achieves_def
proof (intro allI impI)
  fix s assume ok: "demo_ok st cf ids init T s"
  let ?co = "sp_coordinator s"
  have clk: "clock_ok (fst (co_raft_cluster ?co))"
    using ok by (simp add: demo_ok_def cluster_backend.co_ok_def cluster_backend.settled_def)
  obtain r w where f: "f (fst (co_raft_cluster ?co)) (snd (co_raft_cluster ?co)) = Some (r, w)"
    "continues ledger_step {} (w_cluster (snd (co_raft_cluster ?co))) (w_cluster w)" "case g r of Inl e \<Rightarrow> e \<in> E | Inr a \<Rightarrow> Q a"
    using assms [OF clk] by metis
  then show "\<exists>r s'. on_cluster f g s = Some (r, s') \<and> demo_ok st cf ids init T s' \<and> (case r of Inl e \<Rightarrow> e \<in> E | Inr a \<Rightarrow> Q a)"
    using demo_ok_cluster [OF ok f(2)] by (simp add: on_cluster_def case_prod_beta)
qed

lemma achieves_timed:
  assumes "\<And>clock w. clock_ok clock \<Longrightarrow> \<exists>r w'. f clock w = Some (r, w') \<and> (case r of Inl e \<Rightarrow> e = TimeoutError | Inr n \<Rightarrow> P w' n)"
    "\<And>clock w r w'. f clock w = Some (r, w') \<Longrightarrow> continues ledger_step {} (w_cluster w) (w_cluster w')" "TimeoutError \<in> E"
  shows "achieves (demo_ok st cf ids init T) E (on_cluster f id) (\<lambda>_. True)"
proof (rule achieves_on_cluster)
  fix clock and w :: "(ledger_entry, ledger) world"
  assume "clock_ok clock"
  from assms(1) [OF this, of w] obtain r w' where "f clock w = Some (r, w')" "case r of Inl e \<Rightarrow> e = TimeoutError | Inr n \<Rightarrow> P w' n" by blast
  then show "\<exists>r w'. f clock w = Some (r, w') \<and> continues ledger_step {} (w_cluster w) (w_cluster w') \<and> (case id r of Inl e \<Rightarrow> e \<in> E | Inr a \<Rightarrow> True)"
    using assms(2,3) by (intro exI [of _ r] exI [of _ w']) (auto split: sum.splits)
qed

text \<open>Start, body and stop.\<close>

lemma achieves_with_coordinator:
  assumes st: "stage_ok st" "\<forall>t \<in> T. valid_transaction t" and body: "achieves (demo_ok st cf ids init T) E body Q"
  shows "achieves (demo_ok st cf ids init T) E (with_coordinator st body) Q"
  unfolding with_coordinator_def
proof (rule achieves_andthen)
  show "achieves (demo_ok st cf ids init T) E (perform st [CoStart (sg_start st) (sg_joins st)]) (\<lambda>_. True)"
    by (rule achieves_mono [OF perform_ok [OF st]]) simp_all
  have stop: "achieves (demo_ok st cf ids init T) {} (perform st [CoStop (sg_stop st)]) (\<lambda>_. True)" by (rule perform_ok [OF st]) simp
  show "achieves (demo_ok st cf ids init T) E (\<lambda>s. Option.bind (body s) (\<lambda>(r, s). andthen (perform st [CoStop (sg_stop st)]) (\<lambda>_. give r) s)) Q"
    unfolding achieves_def
  proof (intro allI impI)
    fix s assume "demo_ok st cf ids init T s"
    then obtain r s1 where b: "body s = Some (r, s1)" "demo_ok st cf ids init T s1" "case r of Inl e \<Rightarrow> e \<in> E | Inr a \<Rightarrow> Q a"
      by (rule achievesD [OF body])
    from stop b(2) obtain r' s2 where s2: "perform st [CoStop (sg_stop st)] s1 = Some (r', s2)" "demo_ok st cf ids init T s2" "case r' of Inl e \<Rightarrow> e \<in> {} | Inr a \<Rightarrow> True"
      by (rule achievesD)
    then show "\<exists>r s'. Option.bind (body s) (\<lambda>(r, s). andthen (perform st [CoStop (sg_stop st)]) (\<lambda>_. give r) s) = Some (r, s') \<and>
        demo_ok st cf ids init T s' \<and> (case r of Inl e \<Rightarrow> e \<in> E | Inr a \<Rightarrow> Q a)"
      using b by (cases r') (auto simp: andthen_def give_def)
  qed
qed

lemma new_demo_ok:
  assumes "stage_ok st" "weights_ok cf" "0 < n"
  obtains s where "new_demo st n k cf ids init = Inr s" "demo_ok st cf ids init T s"
proof -
  obtain co where co: "Coordinator n k 1 cf True (demo_world st ids init) = Inr co"
    using assms(3) by (auto simp: Coordinator_def PartitionedLog_def ConsumerGroup_def)
  have "clock_ok (fst (demo_world st ids init))" using assms(1) by (simp add: demo_world_def stage_ok_def)
  from cluster_backend.Coordinator_ok [OF co this assms(2)]
  have "cluster_backend.co_ok (sg_sched st) ledger_step {} (demo_world st ids init) co" .
  then have "cluster_backend.co_ok (sg_sched st) ledger_step T (demo_world st ids init) co"
    by (auto simp: cluster_backend.co_ok_def co_pipe_ok_def)
  then have "demo_ok st cf ids init T \<lparr>sp_coordinator = co, sp_events = 0\<rparr>"
    using Coordinator_gate [OF co assms(2)] by (simp add: demo_ok_def settings_def)
  then show ?thesis using that co by (simp add: new_demo_def demo_world_def)
qed

section \<open>Debits\<close>

lemma debit_ok: "account \<noteq> [] \<Longrightarrow> 0 < amount \<Longrightarrow> debit st k account amount = Inr (debit_of st k account amount) \<and> valid_transaction (debit_of st k account amount)"
  by (simp add: debit_def debit_of_def Transaction_Inr valid_transaction_def dec_of_int_val [unfolded dec_of_int_def] dec_of_int_def)

lemma achieves_debit:
  assumes "account \<noteq> []" "0 < amount"
  shows "achieves I E (give (debit st k account amount)) (\<lambda>t. t = debit_of st k account amount)"
  by (rule achieves_give) (simp add: debit_ok [OF assms])

lemma debit_entry:
  assumes "entry_of now (debit_of st k account amount) = Inr e" "\<bar>amount\<bar> < 10 ^ 28"
  shows "le_entry_id e = sg_uuid st k" "le_account_id e = account" "le_delta e = dec_of_int (- amount)"
proof -
  have "dec_neg (dec_of_int amount) = dec_of_int (- amount)" using assms(2) by (simp add: dec_neg_def dec_of_int_def dec_fix_exact)
  then show "le_entry_id e = sg_uuid st k" "le_account_id e = account" "le_delta e = dec_of_int (- amount)"
    using assms(1) by (auto simp: entry_of_def LedgerEntry_Inr debit_of_def delta_for_def)
qed

lemma dec_add_ints: "\<bar>a + b\<bar> < 10 ^ 28 \<Longrightarrow> dec_add (dec_of_int a) (dec_of_int b) = dec_of_int (a + b)"
  by (simp add: dec_add_def dec_of_int_def dec_scaled_def dec_fix_exact)

lemma history_invariant:
  assumes "I sm" "\<And>e sm. e \<in> C \<Longrightarrow> I sm \<Longrightarrow> I (ledger_step e sm)" "set h \<subseteq> C"
  shows "I (fold ledger_step h sm)"
  by (rule fold_invariant [where Q = "\<lambda>e. e \<in> C" and P = I]) (use assms in auto)

section \<open>Two conflicting debits\<close>

definition conflict_funds :: "ledger \<Rightarrow> bool" where
  "conflict_funds sm \<longleftrightarrow> balance ''acct-1'' sm = dec_of_int 100 \<or> balance ''acct-1'' sm = dec_of_int 20"

lemma conflict_funds_step:
  assumes "le_account_id e = ''acct-1''" "le_delta e = dec_of_int (- 80)" "conflict_funds sm"
  shows "conflict_funds (ledger_step e sm)"
proof (cases "dict_get (results sm) (le_entry_id e)")
  case None
  have "dec_add (dec_of_int 100) (dec_of_int (- 80)) = dec_of_int 20" by (subst dec_add_ints) simp_all
  then show ?thesis
    using assms(3) ledger_apply_new(1,3) [OF None] by (auto simp: conflict_funds_def assms(1,2))
next
  case (Some r)
  then show ?thesis using assms(3) by (simp add: ledger_step_def ledger_apply_def)
qed

lemma conflict_history:
  assumes "set h \<subseteq> clean_entries cf {debit_of st 0 ''acct-1'' 80, debit_of st 1 ''acct-1'' 80}"
  shows "conflict_funds (fold ledger_step h (LedgerStateMachine [(''acct-1'', dec_of_int 100)]))"
proof (rule history_invariant [OF _ _ assms])
  show "conflict_funds (LedgerStateMachine [(''acct-1'', dec_of_int 100)])"
    by (simp add: conflict_funds_def LedgerStateMachine_def balance_def dict_get_default_def)
  fix e sm
  assume "e \<in> clean_entries cf {debit_of st 0 ''acct-1'' 80, debit_of st 1 ''acct-1'' 80}" "conflict_funds sm"
  then show "conflict_funds (ledger_step e sm)"
    using debit_entry(2,3) by (intro conflict_funds_step) (auto simp: clean_entries_def)
qed

lemma conflicting_script_ok:
  assumes st: "stage_ok st" and "distinct ids"
  defines "T \<equiv> {debit_of st 0 ''acct-1'' 80, debit_of st 1 ''acct-1'' 80}"
  shows "achieves (demo_ok st cf ids [(''acct-1'', dec_of_int 100)] T) {TimeoutError} (with_coordinator st (conflicting_script st a_first))
    (\<lambda>b. b = dec_of_int 100 \<or> b = dec_of_int 20)"
proof -
  have v: "\<forall>t \<in> T. valid_transaction t" using debit_ok by (simp add: T_def)
  note sub = achieves_mono [OF achieves_submit [OF st v], of _ "{TimeoutError}"]
  have wait: "achieves (demo_ok st cf ids [(''acct-1'', dec_of_int 100)] T) {TimeoutError}
      (wait_for_balance st ''acct-1'' waiting timeout) (\<lambda>b. b = dec_of_int 100 \<or> b = dec_of_int 20)" for waiting timeout
    using conflict_history unfolding T_def conflict_funds_def by (intro achieves_wait_for_balance [OF st v [unfolded T_def] assms(2)]) blast
  show ?thesis
    unfolding conflicting_script_def
    by (intro achieves_with_coordinator [OF st v] achieves_andthen [OF achieves_debit] achieves_andthen [OF sub] wait) (auto simp: T_def)
qed

section \<open>A killed leader\<close>

definition failover_funds :: "stage \<Rightarrow> ledger \<Rightarrow> bool" where
  "failover_funds st sm \<longleftrightarrow> balance ''acct-1'' sm = dec_of_int (1000 -
     (if dict_get (results sm) (sg_uuid st 0) = None then 0 else 100) - (if dict_get (results sm) (sg_uuid st 1) = None then 0 else 200))"

lemma failover_funds_step:
  assumes "le_account_id e = ''acct-1''" "failover_funds st sm" "sg_uuid st 0 \<noteq> sg_uuid st 1"
    "le_entry_id e = sg_uuid st 0 \<and> le_delta e = dec_of_int (- 100) \<or> le_entry_id e = sg_uuid st 1 \<and> le_delta e = dec_of_int (- 200)"
  shows "failover_funds st (ledger_step e sm)"
proof (cases "dict_get (results sm) (le_entry_id e)")
  case None
  define b where "b = 1000 - (if dict_get (results sm) (sg_uuid st 0) = None then 0 else 100) - (if dict_get (results sm) (sg_uuid st 1) = None then 0 else 200 :: int)"
  define d where "d = (if le_entry_id e = sg_uuid st 0 then 100 else 200 :: int)"
  have bd: "d \<le> b" "b \<le> 1000" "0 \<le> d" "le_delta e = dec_of_int (- d)" using None assms(3,4) by (auto simp: b_def d_def)
  have bal: "balance ''acct-1'' sm = dec_of_int b" using assms(2) by (simp add: failover_funds_def b_def)
  have "ar_accepted (fst (ledger_apply e sm))" using ledger_apply_new(1) [OF None] bd by (simp add: assms(1) bal)
  moreover have "dec_add (dec_of_int b) (dec_of_int (- d)) = dec_of_int (b - d)" using bd by (subst dec_add_ints) auto
  ultimately have new: "balance ''acct-1'' (ledger_step e sm) = dec_of_int (b - d)"
    using ledger_apply_new(3) [OF None, of "''acct-1''"] bal bd(4) by (simp add: assms(1))
  have res: "dict_get (results (ledger_step e sm)) k = None \<longleftrightarrow> k \<noteq> le_entry_id e \<and> dict_get (results sm) k = None" for k
    using ledger_apply_new(2) [OF None, of k] by simp
  have "b - d = 1000 - (if dict_get (results (ledger_step e sm)) (sg_uuid st 0) = None then 0 else 100) -
      (if dict_get (results (ledger_step e sm)) (sg_uuid st 1) = None then 0 else 200)"
  proof (cases "le_entry_id e = sg_uuid st 0")
    case True
    then show ?thesis using None assms(3) by (simp add: res b_def d_def)
  next
    case False
    then have "le_entry_id e = sg_uuid st 1" using assms(4) by blast
    then show ?thesis using None assms(3) by (simp add: res b_def d_def)
  qed
  then show ?thesis using new by (simp add: failover_funds_def)
next
  case (Some r)
  then show ?thesis using assms(2) by (simp add: ledger_step_def ledger_apply_seen)
qed

lemma failover_history:
  assumes "set h \<subseteq> clean_entries cf {debit_of st 0 ''acct-1'' 100, debit_of st 1 ''acct-1'' 200}" "sg_uuid st 0 \<noteq> sg_uuid st 1"
  shows "failover_funds st (fold ledger_step h (LedgerStateMachine [(''acct-1'', dec_of_int 1000)]))"
proof (rule history_invariant [OF _ _ assms(1)])
  show "failover_funds st (LedgerStateMachine [(''acct-1'', dec_of_int 1000)])"
    by (simp add: failover_funds_def LedgerStateMachine_def balance_def dict_get_default_def)
  fix e sm
  assume e: "e \<in> clean_entries cf {debit_of st 0 ''acct-1'' 100, debit_of st 1 ''acct-1'' 200}" and "failover_funds st sm"
  then show "failover_funds st (ledger_step e sm)"
    using debit_entry assms(2) by (intro failover_funds_step) (auto simp: clean_entries_def)
qed

lemma kill_leader_script_ok:
  assumes st: "stage_ok st" and ids: "distinct ids" and uuid: "sg_uuid st 0 \<noteq> sg_uuid st 1"
  defines "T \<equiv> {debit_of st 0 ''acct-1'' 100, debit_of st 1 ''acct-1'' 200}" and "E \<equiv> {TimeoutError, AssertionError}"
  shows "achieves (demo_ok st cf ids [(''acct-1'', dec_of_int 1000)] T) E (with_coordinator st (kill_leader_script st))
    (\<lambda>b. b \<in> dec_of_int ` {1000, 900, 800, 700})"
proof -
  let ?env = "others ledger_step (sg_sched st)"
  have v: "\<forall>t \<in> T. valid_transaction t" using debit_ok by (simp add: T_def)
  have quiet: "sched_cmds (sg_sched st) \<subseteq> {}" using st by (simp add: stage_ok_def)
  note sub = achieves_mono [OF achieves_submit [OF st v], of _ E]
  have funds: "balance ''acct-1'' (fold ledger_step h (LedgerStateMachine [(''acct-1'', dec_of_int 1000)])) \<in> dec_of_int ` {1000, 900, 800, 700}"
    if "set h \<subseteq> clean_entries cf T" for h
    using failover_history [OF _ uuid, of h cf] that unfolding T_def failover_funds_def by (auto split: if_splits)
  have wait: "achieves (demo_ok st cf ids [(''acct-1'', dec_of_int 1000)] T) E
      (wait_for_balance st ''acct-1'' waiting timeout) (\<lambda>b. b \<in> dec_of_int ` {1000, 900, 800, 700})" for waiting timeout
    by (rule achieves_mono, rule achieves_wait_for_balance [OF st v ids], erule funds, simp add: E_def)
  have old: "achieves (demo_ok st cf ids [(''acct-1'', dec_of_int 1000)] T) E
      (on_cluster (\<lambda>clock w. map_option (\<lambda>(l, w). (map_option (\<lambda>n. current_term (node_of (w_cluster w) n)) l, w)) (find_leader clock ?env 2 w))
        (\<lambda>old. case old of None \<Rightarrow> Inl AssertionError | Some t \<Rightarrow> Inr t)) (\<lambda>_. True)"
  proof (rule achieves_on_cluster)
    fix clock and w :: "(ledger_entry, ledger) world"
    assume "clock_ok clock"
    then obtain l w' where "find_leader clock ?env 2 w = Some (l, w')" using find_leader_result by blast
    then show "\<exists>r w'. map_option (\<lambda>(l, w). (map_option (\<lambda>n. current_term (node_of (w_cluster w) n)) l, w)) (find_leader clock ?env 2 w) = Some (r, w') \<and>
        continues ledger_step {} (w_cluster w) (w_cluster w') \<and> (case case r of None \<Rightarrow> Inl AssertionError | Some t \<Rightarrow> Inr t of Inl e \<Rightarrow> e \<in> E | Inr a \<Rightarrow> True)"
      using find_leader_continues [OF quiet] by (auto simp: E_def split: option.splits)
  qed
  have kill: "achieves (demo_ok st cf ids [(''acct-1'', dec_of_int 1000)] T) E (on_cluster (\<lambda>clock w. kill_raft_leader clock ?env 2 w) id) (\<lambda>_. True)"
    by (rule achieves_timed, rule kill_raft_leader_stops, assumption, rule kill_raft_leader_continues [OF quiet], simp_all add: E_def)
  have elect: "achieves (demo_ok st cf ids [(''acct-1'', dec_of_int 1000)] T) E (on_cluster (\<lambda>clock w. wait_for_new_leader clock ?env t 3 w) id) (\<lambda>_. True)" for t
    by (rule achieves_timed, rule wait_for_new_leader_returns, assumption, rule wait_for_new_leader_continues [OF quiet], simp_all add: E_def)
  show ?thesis
    unfolding kill_leader_script_def Let_def
    by (intro achieves_with_coordinator [OF st v] achieves_andthen [OF achieves_debit] achieves_andthen [OF sub] achieves_andthen [OF wait]
      achieves_andthen [OF old] achieves_andthen [OF kill] achieves_andthen [OF elect] wait) (auto simp: T_def)
qed

section \<open>The burst\<close>

definition burst_txns :: "stage \<Rightarrow> transaction set" where
  "burst_txns st = (\<lambda>(k, account, amount). debit_of st k account amount) ` set (enumerate 0 burst_orders)"

lemma burst_orders_ok: "list_all (\<lambda>(account, amount). account \<noteq> [] \<and> amount \<in> {15, 25, 25000}) burst_orders"
  by (auto simp: burst_orders_def acct_def list_all_iff)

lemma burst_txns_ok: "t \<in> burst_txns st \<Longrightarrow> \<exists>k account amount. t = debit_of st k account amount \<and> account \<noteq> [] \<and> amount \<in> {15, 25, 25000}"
  using burst_orders_ok by (fastforce simp: burst_txns_def in_set_enumerate_eq list_all_length)

lemma burst_txns_valid: "\<forall>t \<in> burst_txns st. valid_transaction t"
proof
  fix t assume "t \<in> burst_txns st"
  then obtain k account amount where "t = debit_of st k account amount" "account \<noteq> []" "amount \<in> {15, 25, 25000}"
    using burst_txns_ok by blast
  then show "valid_transaction t" using debit_ok [of account amount st k] by auto
qed

lemma burst_clean:
  assumes "e \<in> clean_entries burst_config (burst_txns st)"
  shows "le_delta e \<in> {dec_of_int (- 25), dec_of_int (- 15)}"
proof -
  obtain t now where t: "t \<in> burst_txns st" "entry_of now t = Inr e" "clean burst_config t" using assms by (auto simp: clean_entries_def)
  obtain k account amount where d: "t = debit_of st k account amount" "amount \<in> {15, 25, 25000}" using burst_txns_ok [OF t(1)] by blast
  have "\<not> clean burst_config (debit_of st k account 25000)"
    by (simp add: clean_def rule_weight_def burst_config_def ScorerConfig_def debit_of_def)
  then have "amount \<in> {15, 25}" using d t(3) by auto
  then show ?thesis using debit_entry(3) [OF t(2) [unfolded d(1)]] by auto
qed

lemma submit_orders_ok:
  assumes st: "stage_ok st" "\<forall>t \<in> T. valid_transaction t"
  shows "list_all (\<lambda>(account, amount). account \<noteq> [] \<and> amount \<in> {15, 25, 25000}) orders \<Longrightarrow>
    (\<lambda>(k, account, amount). debit_of st k account amount) ` set (enumerate k orders) \<subseteq> T \<Longrightarrow>
    achieves (demo_ok st cf ids init T) {} (submit_orders st orders k) (\<lambda>_. True)"
proof (induction orders arbitrary: k)
  case Nil
  then show ?case by (simp add: achieves_give)
next
  case (Cons x orders)
  obtain account amount where x: "x = (account, amount)" by force
  have d: "account \<noteq> []" "0 < amount" "debit_of st k account amount \<in> T" using Cons.prems by (auto simp: x)
  have rest: "achieves (demo_ok st cf ids init T) {} (submit_orders st orders (Suc k)) (\<lambda>_. True)"
    using Cons by (simp add: x)
  show ?case
    unfolding x submit_orders.simps
    by (intro achieves_andthen [OF achieves_debit [OF d(1,2)]] achieves_andthen [OF achieves_submit [OF st]] rest) (simp add: d(3))
qed

lemma poll_counts_ok:
  assumes st: "stage_ok st" "\<forall>t \<in> T. valid_transaction t" and late: "\<And>k. K \<le> k \<Longrightarrow> deadline \<le> sg_clock st k"
    and s: "demo_ok st cf ids init T s"
  shows "\<exists>s'. poll_counts st wanted deadline s = Some (Inr (), s') \<and> demo_ok st cf ids init T s'"
  using s
proof (induction "K - sp_events s" arbitrary: s rule: less_induct)
  case less
  obtain s1 where c: "read_clock st s = Some (Inr (sg_clock st (sp_events s)), s1)" "demo_ok st cf ids init T s1" "sp_events s1 = Suc (sp_events s)"
    by (rule read_clock_ok [OF st less.prems])
  note unf = poll_counts.simps [of st wanted deadline s]
  show ?case
  proof (cases "sg_clock st (sp_events s) < deadline")
    case True
    then have "\<not> K \<le> sp_events s" using late [of "sp_events s"] by auto
    then have "K - sp_events s1 < K - sp_events s" using c(3) by simp
    from less(1) [OF this c(2)] show ?thesis unfolding unf using True c(1,2) by (auto simp: get_counts_def Let_def)
  qed (unfold unf, use c in auto)
qed

lemma burst_script_ok:
  assumes st: "stage_ok st"
  shows "achieves (demo_ok st cf ids init (burst_txns st)) {} (with_coordinator st (burst_script st)) (\<lambda>_. True)"
proof -
  note v = burst_txns_valid [of st]
  have poll: "achieves (demo_ok st cf ids init (burst_txns st)) {} (poll_counts st wanted deadline) (\<lambda>_. True)" for wanted deadline
  proof -
    obtain K where "\<And>k. K \<le> k \<Longrightarrow> deadline \<le> sg_clock st k" using st unfolding stage_ok_def clock_ok_def by meson
    then show ?thesis unfolding achieves_def using poll_counts_ok [OF st v] by fastforce
  qed
  have counts: "achieves (demo_ok st cf ids init (burst_txns st)) {} get_counts (\<lambda>_. True)" by (simp add: achieves_def get_counts_def Let_def)
  have orders: "achieves (demo_ok st cf ids init (burst_txns st)) {} (submit_orders st burst_orders 0) (\<lambda>_. True)"
    using submit_orders_ok [OF st v burst_orders_ok] by (simp add: burst_txns_def)
  show ?thesis
    unfolding burst_script_def
    by (intro achieves_with_coordinator [OF st v] achieves_andthen [OF orders] achieves_andthen [OF achieves_read_clock [OF st v]]
      achieves_andthen [OF poll] counts)
qed

section \<open>Properties\<close>

text \<open>A demonstration: it is set up, and its script ends.\<close>

lemma demo_main:
  assumes "stage_ok st" "weights_ok cf" "0 < n" "achieves (demo_ok st cf ids init T) E body Q"
  obtains s0 r s where "new_demo st n k cf ids init = Inr s0" "body s0 = Some (r, s)" "demo_ok st cf ids init T s"
    "case r of Inl e \<Rightarrow> e \<in> E | Inr a \<Rightarrow> Q a"
proof -
  obtain s0 where s0: "new_demo st n k cf ids init = Inr s0" "demo_ok st cf ids init T s0" by (rule new_demo_ok [OF assms(1-3)])
  then show ?thesis using achievesD [OF assms(4) s0(2)] that by metis
qed

lemma demo_weights: "weights_ok ScorerConfig" "weights_ok burst_config"
  by (simp_all add: weights_ok_def burst_config_def ScorerConfig_def)

text \<open>
  C15: The script of the two conflicting debits always ends, whatever the threads and the network do. It reports a balance of 100 or
  of 20, or a time-out; when it ends, every replica has one of these two balances: the two debits of 80 are never both taken from
  the account's 100.
\<close>

theorem conflicting_demo_outcome:
  assumes "stage_ok st"
  shows "\<exists>r s. conflicting_main st a_first = Inr (Some (r, s)) \<and>
    (case r of Inl e \<Rightarrow> e = TimeoutError | Inr b \<Rightarrow> b = dec_of_int 100 \<or> b = dec_of_int 20) \<and>
    (\<forall>m. m \<notin> {''raft-1'', ''raft-2'', ''raft-3''} \<or>
      balance ''acct-1'' (state_machine (node_of (w_cluster (snd (co_raft_cluster (sp_coordinator s)))) m)) \<in> {dec_of_int 100, dec_of_int 20})"
proof -
  let ?ids = "[''raft-1'', ''raft-2'', ''raft-3'']" and ?T = "{debit_of st 0 ''acct-1'' 80, debit_of st 1 ''acct-1'' 80}"
  have ids: "distinct ?ids" by simp
  obtain s0 r s where s: "new_demo st 2 2 ScorerConfig ?ids [(''acct-1'', dec_of_int 100)] = Inr s0"
    "with_coordinator st (conflicting_script st a_first) s0 = Some (r, s)" "demo_ok st ScorerConfig ?ids [(''acct-1'', dec_of_int 100)] ?T s"
    "case r of Inl e \<Rightarrow> e \<in> {TimeoutError} | Inr b \<Rightarrow> b = dec_of_int 100 \<or> b = dec_of_int 20"
    by (rule demo_main [OF assms demo_weights(1) _ conflicting_script_ok [OF assms ids, of ScorerConfig a_first], of 2 2]) simp
  have "balance ''acct-1'' (state_machine (node_of (w_cluster (snd (co_raft_cluster (sp_coordinator s)))) m)) \<in> {dec_of_int 100, dec_of_int 20}"
    if "m \<in> set ?ids" for m
    using demo_replica [OF s(3) assms ids that] conflict_history unfolding conflict_funds_def by fastforce
  then show ?thesis using s(1,2,4) by (intro exI [of _ r] exI [of _ s]) (auto simp: conflicting_main_def split: sum.splits)
qed

text \<open>
  C16: The script that kills the leader between two debits always ends. It reports what is left of 1000 after some of the two debits,
  each taken at most once, or it raises TimeoutError, or the AssertionError of a missing leader; and every replica has such a balance.
\<close>

theorem failover_demo_outcome:
  assumes "stage_ok st" "sg_uuid st 0 \<noteq> sg_uuid st 1"
  shows "\<exists>r s. kill_leader_main st = Inr (Some (r, s)) \<and>
    (case r of Inl e \<Rightarrow> e \<in> {TimeoutError, AssertionError} | Inr b \<Rightarrow> b \<in> dec_of_int ` {1000, 900, 800, 700}) \<and>
    (\<forall>m. m \<notin> {''raft-1'', ''raft-2'', ''raft-3'', ''raft-4'', ''raft-5''} \<or>
      failover_funds st (state_machine (node_of (w_cluster (snd (co_raft_cluster (sp_coordinator s)))) m)))"
proof -
  let ?ids = "[''raft-1'', ''raft-2'', ''raft-3'', ''raft-4'', ''raft-5'']"
  let ?T = "{debit_of st 0 ''acct-1'' 100, debit_of st 1 ''acct-1'' 200}"
  have ids: "distinct ?ids" by simp
  obtain s0 r s where s: "new_demo st 2 2 ScorerConfig ?ids [(''acct-1'', dec_of_int 1000)] = Inr s0"
    "with_coordinator st (kill_leader_script st) s0 = Some (r, s)" "demo_ok st ScorerConfig ?ids [(''acct-1'', dec_of_int 1000)] ?T s"
    "case r of Inl e \<Rightarrow> e \<in> {TimeoutError, AssertionError} | Inr b \<Rightarrow> b \<in> dec_of_int ` {1000, 900, 800, 700}"
    by (rule demo_main [OF assms(1) demo_weights(1) _ kill_leader_script_ok [OF assms(1) ids assms(2), of ScorerConfig], of 2 2]) simp
  have "failover_funds st (state_machine (node_of (w_cluster (snd (co_raft_cluster (sp_coordinator s)))) m))" if "m \<in> set ?ids" for m
    using demo_replica [OF s(3) assms(1) ids that] failover_history [OF _ assms(2)] by fastforce
  then show ?thesis using s(1,2,4) by (intro exI [of _ r] exI [of _ s]) (auto simp: kill_leader_main_def)
qed

text \<open>
  C17: The script of the fraud burst always ends and raises nothing, and no replica has then applied anything but debits of 25 and of 15:
  none of the 25 large transactions has reached a ledger.
\<close>

theorem burst_demo_outcome:
  assumes "stage_ok st"
  shows "\<exists>counts s. burst_main st = Inr (Some (Inr counts, s)) \<and>
    (\<forall>m. m \<notin> {''raft-1'', ''raft-2'', ''raft-3''} \<or> (\<exists>h.
      state_machine (node_of (w_cluster (snd (co_raft_cluster (sp_coordinator s)))) m) =
        fold ledger_step h (LedgerStateMachine (map (\<lambda>i. (acct i, dec_of_int 5000)) [0..<20])) \<and>
      le_delta ` set h \<subseteq> {dec_of_int (- 25), dec_of_int (- 15)}))"
proof -
  let ?ids = "[''raft-1'', ''raft-2'', ''raft-3'']" and ?init = "map (\<lambda>i. (acct i, dec_of_int 5000)) [0..<20]"
  have ids: "distinct ?ids" by simp
  obtain s0 r s where s: "new_demo st 4 3 burst_config ?ids ?init = Inr s0" "with_coordinator st (burst_script st) s0 = Some (r, s)"
    "demo_ok st burst_config ?ids ?init (burst_txns st) s" "case r of Inl e \<Rightarrow> e \<in> {} | Inr a \<Rightarrow> True"
    by (rule demo_main [OF assms demo_weights(2) _ burst_script_ok [OF assms, of burst_config ?ids ?init], of 4 3]) simp
  obtain counts where r: "r = Inr counts" using s(4) by (cases r) auto
  have "\<exists>h. state_machine (node_of (w_cluster (snd (co_raft_cluster (sp_coordinator s)))) m) = fold ledger_step h (LedgerStateMachine ?init) \<and>
      le_delta ` set h \<subseteq> {dec_of_int (- 25), dec_of_int (- 15)}" if m: "m \<in> set ?ids" for m
  proof -
    obtain h where "state_machine (node_of (w_cluster (snd (co_raft_cluster (sp_coordinator s)))) m) = fold ledger_step h (LedgerStateMachine ?init)"
      "set h \<subseteq> clean_entries burst_config (burst_txns st)" using demo_replica [OF s(3) assms ids m] by blast
    then show ?thesis using burst_clean by (intro exI [of _ h]) blast
  qed
  then show ?thesis using s(1,2) r by (intro exI [of _ counts] exI [of _ s]) (auto simp: burst_main_def)
qed

definition demo_stage :: stage where
  "demo_stage = \<lparr>sg_md5 = demo_md5, sg_sched = (\<lambda>k. [Tick ''raft-1'' (demo_clock k), Deliver ''raft-2'' (demo_clock k)]),
     sg_others = (\<lambda>k. [CoWorker 0 no_readings, CoSettle 3]), sg_start = 0, sg_stop = 0, sg_joins = (\<lambda>i. 0), sg_clock = demo_clock, sg_client_clock = demo_clock, sg_random = demo_random,
     sg_uuid = (\<lambda>k. int_str (int k)), sg_wall = (\<lambda>k. int k)\<rparr>"

lemma demo_stage_ok: "stage_ok demo_stage" "sg_uuid demo_stage 0 \<noteq> sg_uuid demo_stage 1"
proof -
  show "stage_ok demo_stage" by (simp add: stage_ok_def demo_stage_def demo_clock_ok)
  show "sg_uuid demo_stage 0 \<noteq> sg_uuid demo_stage 1" unfolding demo_stage_def stage.simps by code_simp
qed

theorem conflicting_demo_outcome_witness: "\<exists>r s. conflicting_main demo_stage False = Inr (Some (r, s))"
  using conflicting_demo_outcome [OF demo_stage_ok(1), of False] by blast

theorem failover_demo_outcome_witness: "\<exists>r s. kill_leader_main demo_stage = Inr (Some (r, s))"
  using failover_demo_outcome [OF demo_stage_ok] by blast

theorem burst_demo_outcome_witness: "\<exists>counts s. burst_main demo_stage = Inr (Some (Inr counts, s))"
  using burst_demo_outcome [OF demo_stage_ok(1)] by blast

end
