(* ===== verification/Py_Text.thy ===== *)
theory Py_Text
  imports Py_Decimal
begin

text \<open>
  What the entry points do with text, on characters up to U+00FF: \<open>str.strip\<close>, \<open>str.split\<close>, \<open>str.partition\<close>,
  and the constructors \<open>int\<close> and \<open>Decimal\<close> on strings. Numbers are read back from the text that \<open>str\<close> gives.
\<close>

section \<open>Strings\<close>

definition is_space :: "char \<Rightarrow> bool" where
  "is_space c \<longleftrightarrow> (of_char c :: nat) \<in> {9, 10, 11, 12, 13, 28, 29, 30, 31, 32, 133, 160}"

definition py_strip :: "string \<Rightarrow> string" where
  "py_strip s = rev (dropWhile is_space (rev (dropWhile is_space s)))"

fun py_split :: "char \<Rightarrow> string \<Rightarrow> string list" where
  "py_split c [] = [[]]"
| "py_split c (x # xs) =
     (if x = c then [] # py_split c xs
      else case py_split c xs of [] \<Rightarrow> [[x]] | y # ys \<Rightarrow> (x # y) # ys)"

definition py_partition :: "char \<Rightarrow> string \<Rightarrow> string \<times> string \<times> string" where
  "py_partition c s =
     (let before = takeWhile (\<lambda>x. x \<noteq> c) s; rest = dropWhile (\<lambda>x. x \<noteq> c) s
      in if rest = [] then (s, [], []) else (before, [c], tl rest))"

fun join_with :: "char \<Rightarrow> string list \<Rightarrow> string" where
  "join_with c [] = []"
| "join_with c [x] = x"
| "join_with c (x # xs) = x @ c # join_with c xs"

definition no_space :: "string \<Rightarrow> bool" where
  "no_space s \<longleftrightarrow> list_all (\<lambda>c. \<not> is_space c) s"

section \<open>Integers\<close>

definition is_digit :: "char \<Rightarrow> bool" where
  "is_digit c \<longleftrightarrow> 48 \<le> (of_char c :: nat) \<and> (of_char c :: nat) \<le> 57"

definition digits_val :: "string \<Rightarrow> nat" where
  "digits_val s = foldl (\<lambda>n c. 10 * n + (of_char c - 48)) 0 s"

definition take_sign :: "string \<Rightarrow> int \<times> string" where
  "take_sign s =
     (case s of
        [] \<Rightarrow> (1, [])
      | c # r \<Rightarrow> if c = CHR ''-'' then (-1, r) else if c = CHR ''+'' then (1, r) else (1, s))"

text \<open>
  \<open>int(s)\<close>: a sign and digits, which single underscores may separate; more than 4300 digits are refused, as
  everything else is.
\<close>

definition py_int :: "string \<Rightarrow> int result" where
  "py_int s =
     (let (sign, body) = take_sign (py_strip s); groups = py_split CHR ''_'' body; digits = concat groups
      in if list_all (\<lambda>g. g \<noteq> [] \<and> list_all is_digit g) groups \<and> length digits \<le> 4300
         then Inr (sign * int (digits_val digits)) else Inl ValueError)"

section \<open>Decimals\<close>

text \<open>\<open>Decimal(s)\<close> also reads infinities and NaN, with which no arithmetic is modelled.\<close>

datatype dec_literal = Finite (finite_part: decimal) | Infinite int | NotANumber

definition lower :: "char \<Rightarrow> char" where
  "lower c = (if 65 \<le> (of_char c :: nat) \<and> (of_char c :: nat) \<le> 90 then char_of (of_char c + 32 :: nat) else c)"

definition is_nan :: "string \<Rightarrow> bool" where
  "is_nan s \<longleftrightarrow> take 3 s = ''nan'' \<and> list_all is_digit (drop 3 s) \<or> take 4 s = ''snan'' \<and> list_all is_digit (drop 4 s)"

definition parse_exponent :: "string \<Rightarrow> int result" where
  "parse_exponent s =
     (case s of
        [] \<Rightarrow> Inr 0
      | c # r \<Rightarrow>
          (let (sign, digits) = take_sign r
           in if lower c = CHR ''e'' \<and> digits \<noteq> [] \<and> list_all is_digit digits
              then Inr (sign * int (digits_val digits)) else Inl InvalidOperation))"

definition parse_number :: "int \<Rightarrow> string \<Rightarrow> decimal result" where
  "parse_number sign s =
     (let intpart = takeWhile is_digit s; rest = dropWhile is_digit s;
          (fracpart, rest) = (if rest \<noteq> [] \<and> hd rest = CHR ''.''
            then (takeWhile is_digit (tl rest), dropWhile is_digit (tl rest)) else ([], rest))
      in if intpart = [] \<and> fracpart = [] then Inl InvalidOperation
         else rbind (parse_exponent rest) (\<lambda>e.
           Inr (Dec (sign * int (digits_val (intpart @ fracpart))) (e - int (length fracpart)))))"

definition py_decimal :: "string \<Rightarrow> dec_literal result" where
  "py_decimal s =
     (let (sign, body) = take_sign (filter (\<lambda>c. c \<noteq> CHR ''_'') (py_strip s)); special = map lower body
      in if special = ''inf'' \<or> special = ''infinity'' then Inr (Infinite sign)
         else if is_nan special then Inr NotANumber
         else rbind (parse_number sign body) (\<lambda>d. Inr (Finite d)))"

section \<open>Reading back what was written\<close>

lemma py_split_word: "c \<notin> set x \<Longrightarrow> py_split c x = [x]"
  by (induction x) auto

lemma py_split_app: "c \<notin> set x \<Longrightarrow> py_split c (x @ c # ys) = x # py_split c ys"
  by (induction x) auto

lemma py_split_join: "xs \<noteq> [] \<Longrightarrow> \<forall>x \<in> set xs. c \<notin> set x \<Longrightarrow> py_split c (join_with c xs) = xs"
  by (induction c xs rule: join_with.induct) (auto simp: py_split_word py_split_app)

lemma py_strip_word: "no_space s \<Longrightarrow> py_strip s = s"
proof -
  assume s: "no_space s"
  have id: "dropWhile is_space xs = xs" if "no_space xs" for xs using that by (cases xs) (auto simp: no_space_def)
  show "py_strip s = s" using id [OF s] id [of "rev s"] s by (simp add: py_strip_def no_space_def)
qed

lemma py_partition_pair: "c \<notin> set n \<Longrightarrow> py_partition c (n @ c # a) = (n, [c], a)"
proof -
  assume c: "c \<notin> set n"
  have "takeWhile (\<lambda>x. x \<noteq> c) (n @ c # a) = n" "dropWhile (\<lambda>x. x \<noteq> c) (n @ c # a) = c # a"
    using c by (induction n) auto
  then show "py_partition c (n @ c # a) = (n, [c], a)" by (simp add: py_partition_def)
qed

lemma foldl_digits: "foldl (\<lambda>n c. 10 * n + g c) a ys = a * 10 ^ length ys + foldl (\<lambda>n c. 10 * n + g c) 0 ys" for a :: nat
proof (induction ys arbitrary: a)
  case (Cons y ys)
  show ?case using Cons [of "10 * a + g y"] Cons [of "g y"] by (simp add: distrib_right)
qed simp

lemma digits_val_app: "digits_val (xs @ ys) = digits_val xs * 10 ^ length ys + digits_val ys"
  unfolding digits_val_def foldl_append by (rule foldl_digits)

lemma digit_char_code: "d < 10 \<Longrightarrow> (of_char (digit_char d) :: nat) = 48 + d"
  by (simp add: digit_char_def)

lemma digit_char_digit: "d < 10 \<Longrightarrow> is_digit (digit_char d)"
  by (simp add: digit_char_code is_digit_def)

lemma nat_str_digits:
  "digits_val (nat_str n) = n" "list_all is_digit (nat_str n)" "nat_str n \<noteq> []"
proof (induction n rule: nat_str.induct)
  case (1 n)
  {
    case 1
    show ?case using "1.IH"(1) digit_char_code [of n] digit_char_code [of "n mod 10"]
      by (subst nat_str.simps) (simp add: digits_val_app, simp add: digits_val_def)
  next
    case 2
    show ?case using "1.IH"(2) digit_char_digit [of n] digit_char_digit [of "n mod 10"]
      by (subst nat_str.simps) simp
  next
    case 3
    show ?case by (subst nat_str.simps) simp
  }
qed

lemma digits_val_zeros: "digits_val (replicate n CHR ''0'' @ ds) = digits_val ds"
proof -
  have "digits_val (replicate n CHR ''0'') = 0" by (induction n) (simp_all add: digits_val_def)
  then show ?thesis by (simp add: digits_val_app)
qed

lemma digit_plain:
  assumes "is_digit c"
  shows "\<not> is_space c" "c \<noteq> CHR ''_''" "c \<noteq> CHR ''-''" "c \<noteq> CHR ''+''" "c \<noteq> CHR ''.''" "lower c = c" "c \<noteq> CHR '','' " "c \<noteq> CHR ''n''" "c \<noteq> CHR ''i''" "c \<noteq> CHR ''s''"
  using assms by (auto simp: is_digit_def is_space_def lower_def)

text \<open>A number whose parts are digits is read part by part.\<close>

lemma takeWhile_digits:
  assumes "list_all is_digit ds" "rest = [] \<or> \<not> is_digit (hd rest)"
  shows "takeWhile is_digit (ds @ rest) = ds" "dropWhile is_digit (ds @ rest) = rest"
proof -
  have t: "\<forall>c \<in> set ds. is_digit c" using assms(1) by (simp add: list_all_iff)
  show "takeWhile is_digit (ds @ rest) = ds" using t assms(2) by (cases rest) auto
  show "dropWhile is_digit (ds @ rest) = rest" using t assms(2) by (cases rest) auto
qed

lemma sign_of_digits: "list_all is_digit ds \<Longrightarrow> take_sign ds = (1, ds)"
  by (cases ds) (auto simp: take_sign_def digit_plain)

lemma parse_exponent_str: "parse_exponent (exponent_str e) = Inr e"
proof -
  have "lower CHR ''E'' = CHR ''e''" by code_simp
  then show ?thesis
    by (auto simp: parse_exponent_def exponent_str_def int_str_def take_sign_def nat_str_digits)
qed

lemma parse_number_plain:
  assumes "list_all is_digit ds" "ds \<noteq> []"
  shows "parse_number sign (ds @ exponent_str e) = Inr (Dec (sign * int (digits_val ds)) e)"
proof -
  have e: "exponent_str e = [] \<or> \<not> is_digit (hd (exponent_str e))" "exponent_str e = [] \<or> hd (exponent_str e) \<noteq> CHR ''.''"
    by (simp_all add: exponent_str_def is_digit_def)
  show ?thesis
    using assms(2) e(2) by (auto simp: parse_number_def takeWhile_digits [OF assms(1) e(1)] parse_exponent_str Let_def)
qed

lemma parse_number_point:
  assumes "list_all is_digit ds" "ds \<noteq> []" "list_all is_digit fs"
  shows "parse_number sign (ds @ ''.'' @ fs @ exponent_str e) = Inr (Dec (sign * int (digits_val (ds @ fs))) (e - int (length fs)))"
proof -
  have e: "exponent_str e = [] \<or> \<not> is_digit (hd (exponent_str e))" by (simp add: exponent_str_def is_digit_def)
  have p: "CHR ''.'' # fs @ exponent_str e = [] \<or> \<not> is_digit (hd (CHR ''.'' # fs @ exponent_str e))" by (simp add: is_digit_def)
  show ?thesis
    using assms(2) by (simp add: parse_number_def takeWhile_digits [OF assms(1) p] takeWhile_digits [OF assms(3) e] parse_exponent_str)
qed

lemma parse_unsigned_str: "parse_number sign (unsigned_str coef ex) = Inr (Dec (sign * int coef) ex)"
proof -
  define ds where "ds = nat_str coef"
  have ds: "digits_val ds = coef" "list_all is_digit ds" "ds \<noteq> []" by (simp_all add: ds_def nat_str_digits)
  define left where "left = ex + int (length ds)"
  define dot where "dot = (if ex \<le> 0 \<and> left > -6 then left else 1)"
  have shape: "unsigned_str coef ex =
    (if dot \<le> 0 then ''0'' @ ''.'' @ replicate (nat (- dot)) CHR ''0'' @ ds
     else if dot \<ge> int (length ds) then ds @ replicate (nat (dot - int (length ds))) CHR ''0''
     else take (nat dot) ds @ ''.'' @ drop (nat dot) ds) @ exponent_str (left - dot)"
    unfolding unsigned_str_def Let_def ds_def left_def dot_def ..
  have zeros: "list_all is_digit (replicate k CHR ''0'')" for k by (induction k) (simp_all add: is_digit_def)
  consider (small) "dot \<le> 0" | (plain) "0 < dot" "dot \<ge> int (length ds)" | (mid) "0 < dot" "dot < int (length ds)" by linarith
  then show ?thesis
  proof cases
    case small
    have "digits_val (''0'' @ replicate (nat (- dot)) CHR ''0'' @ ds) = coef"
      using digits_val_zeros [of "Suc (nat (- dot))" ds] ds(1) by simp
    moreover have "dot = left" using small by (auto simp: dot_def split: if_splits)
    ultimately show ?thesis
      using small parse_number_point [of "''0''" "replicate (nat (- dot)) CHR ''0'' @ ds" sign "left - dot"] ds(2) zeros
      by (simp add: shape left_def is_digit_def)
  next
    case plain
    obtain k where "length ds = Suc k" using ds(3) by (cases ds) auto
    then have "dot = int (length ds)" "left - dot = ex"
      using plain by (auto simp: dot_def left_def Suc_le_eq split: if_splits)
    then show ?thesis using plain parse_number_plain [OF ds(2,3), of sign ex] ds(1) by (simp add: shape)
  next
    case mid
    have "list_all is_digit (take (nat dot) ds)" "list_all is_digit (drop (nat dot) ds)" "take (nat dot) ds \<noteq> []"
      using mid ds(2,3) by (auto simp: list_all_iff dest: in_set_takeD in_set_dropD)
    from parse_number_point [OF this(1,3,2), of sign "left - dot"] show ?thesis
      using mid ds(1) by (simp add: shape left_def)
  qed
qed

text \<open>The characters of written numbers.\<close>

definition plain_char :: "char \<Rightarrow> bool" where
  "plain_char c \<longleftrightarrow> is_digit c \<or> c \<in> set ''.E+-''"

lemma plain_chars:
  "list_all plain_char (nat_str n)" "list_all plain_char (int_str i)" "list_all plain_char (dec_str d)"
proof -
  have digits: "list_all plain_char ds" if "list_all is_digit ds" for ds using that by (simp add: list_all_iff plain_char_def)
  show nat: "list_all plain_char (nat_str n)" for n by (rule digits) (rule nat_str_digits(2))
  then show int: "list_all plain_char (int_str i)" for i by (simp add: int_str_def plain_char_def)
  have take: "list_all plain_char (take k ds)" "list_all plain_char (drop k ds)" if "list_all plain_char ds" for k ds
    using that by (auto simp: list_all_iff dest: in_set_takeD in_set_dropD)
  have zeros: "list_all plain_char (replicate k CHR ''0'')" for k by (induction k) (simp_all add: plain_char_def is_digit_def)
  have one: "plain_char CHR ''0''" "plain_char CHR ''.''" "plain_char CHR ''E''" "plain_char CHR ''+''" "plain_char CHR ''-''"
    by (simp_all add: plain_char_def is_digit_def)
  have app: "list_all plain_char (xs @ ys)" if "list_all plain_char xs" "list_all plain_char ys" for xs ys using that by simp
  have ifs: "list_all plain_char (if b then xs else ys)" if "list_all plain_char xs" "list_all plain_char ys" for b xs ys using that by simp
  show "list_all plain_char (dec_str d)"
    unfolding dec_str_def unsigned_str_def exponent_str_def Let_def
    by (intro app ifs nat int take zeros) (simp_all add: one)
qed

lemma plain_word:
  assumes "list_all plain_char s"
  shows "no_space s" "filter (\<lambda>c. c \<noteq> CHR ''_'') s = s" "CHR ''_'' \<notin> set s" "CHR '','' \<notin> set s" "CHR ''='' \<notin> set s"
proof -
  have p: "\<not> is_space c \<and> c \<noteq> CHR ''_'' \<and> c \<noteq> CHR '','' \<and> c \<noteq> CHR ''=''" if "plain_char c" for c
    using that by (auto simp: plain_char_def is_digit_def is_space_def)
  show "no_space s" using assms p by (simp add: no_space_def list_all_iff)
  show "filter (\<lambda>c. c \<noteq> CHR ''_'') s = s" using assms p by (intro filter_True) (auto simp: list_all_iff)
  show "CHR ''_'' \<notin> set s" "CHR '','' \<notin> set s" "CHR ''='' \<notin> set s" using assms p by (auto simp: list_all_iff)
qed

lemma unsigned_str_starts: "\<exists>c r. unsigned_str coef ex = c # r \<and> is_digit c"
proof -
  obtain c r where n: "nat_str coef = c # r" "is_digit c"
    using nat_str_digits(2,3) [of coef] by (cases "nat_str coef") auto
  then show ?thesis by (auto simp: unsigned_str_def Let_def is_digit_def nat_le_iff take_Cons' split: if_splits)
qed

theorem py_decimal_str: "py_decimal (dec_str d) = Inr (Finite d)"
proof -
  let ?u = "unsigned_str (nat \<bar>dec_coef d\<bar>) (dec_exp d)" and ?sign = "if dec_coef d < 0 then -1 else 1 :: int"
  obtain c r where u: "?u = c # r" "is_digit c" using unsigned_str_starts by blast
  note plain = plain_word [OF plain_chars(3) [of d]]
  have "take_sign (dec_str d) = (?sign, ?u)" by (simp add: dec_str_def take_sign_def u digit_plain [OF u(2)])
  moreover have "map lower ?u \<noteq> ''inf''" "map lower ?u \<noteq> ''infinity''" "\<not> is_nan (map lower ?u)"
    using u digit_plain [OF u(2)] by (auto simp: is_nan_def)
  ultimately have "py_decimal (dec_str d) = Inr (Finite (Dec (?sign * int (nat \<bar>dec_coef d\<bar>)) (dec_exp d)))"
    unfolding py_decimal_def py_strip_word [OF plain(1)] plain(2) by (simp add: parse_unsigned_str)
  then show ?thesis by (cases d) auto
qed

theorem py_int_str: "length (nat_str (nat \<bar>n\<bar>)) \<le> 4300 \<Longrightarrow> py_int (int_str n) = Inr n"
proof -
  assume len: "length (nat_str (nat \<bar>n\<bar>)) \<le> 4300"
  note plain = plain_word [OF plain_chars(2) [of n]]
  have sign: "take_sign (int_str n) = (if n < 0 then -1 else 1, nat_str (nat \<bar>n\<bar>))"
    using sign_of_digits [OF nat_str_digits(2)] by (simp add: int_str_def take_sign_def)
  have "py_split CHR ''_'' (nat_str (nat \<bar>n\<bar>)) = [nat_str (nat \<bar>n\<bar>)]"
    by (intro py_split_word plain_word(3) plain_chars(1))
  then show "py_int (int_str n) = Inr n"
    using len nat_str_digits [of "nat \<bar>n\<bar>"] by (simp add: py_int_def py_strip_word [OF plain(1)] sign)
qed

end
