(* ===== verification/Entry_Points.thy ===== *)
theory Entry_Points
  imports Py_Text Deployments
begin

text \<open>
  The container entry points (docker/): what they read from their environment, the node and the coordinator
  that they build from it, and the sample transactions that the coordinator's entry point submits. Signals,
  sleeping and printing are left out.
\<close>

section \<open>Pairs in the environment\<close>

definition environ_get :: "(string, string) dict \<Rightarrow> string \<Rightarrow> string result" where
  "environ_get environ name = (case dict_get environ name of None \<Rightarrow> Inl KeyError | Some v \<Rightarrow> Inr v)"

fun parse_pairs :: "string list \<Rightarrow> (string, string) dict \<Rightarrow> (string, string) dict result" where
  "parse_pairs [] addresses = Inr addresses"
| "parse_pairs (pair # rest) addresses =
     (let pair = py_strip pair
      in if pair = [] then parse_pairs rest addresses
         else
           (let (nid, sep, address) = py_partition CHR ''='' pair
            in if nid = [] \<or> address = [] then Inl ValueError
               else parse_pairs rest (dict_set nid address addresses)))"

definition parse_address_map :: "string \<Rightarrow> (string, string) dict result" where
  "parse_address_map val =
     rbind (parse_pairs (py_split CHR '','' val) []) (\<lambda>addresses.
       if addresses = [] then Inl ValueError else Inr addresses)"

fun parse_balance_pairs :: "string list \<Rightarrow> (string, dec_literal) dict \<Rightarrow> (string, dec_literal) dict result" where
  "parse_balance_pairs [] bals = Inr bals"
| "parse_balance_pairs (pair # rest) bals =
     (let pair = py_strip pair
      in if pair = [] then parse_balance_pairs rest bals
         else
           (let (account_id, sep, amount) = py_partition CHR ''='' pair
            in rbind (py_decimal amount) (\<lambda>d. parse_balance_pairs rest (dict_set account_id d bals))))"

definition parse_balances :: "string \<Rightarrow> (string, dec_literal) dict result" where
  "parse_balances val = parse_balance_pairs (py_split CHR '','' val) []"

section \<open>The Raft node (docker/raft\_node\_entrypoint.py)\<close>

text \<open>The ledger of the model holds finite amounts.\<close>

fun finite_balances :: "(string, dec_literal) dict \<Rightarrow> (string, decimal) dict option" where
  "finite_balances [] = Some []"
| "finite_balances ((a, Finite d) # rest) = map_option ((#) (a, d)) (finite_balances rest)"
| "finite_balances ((a, _) # rest) = None"

text \<open>What \<open>main\<close> builds: the node's id, its port, and the process with its empty storage and its ledger.\<close>

definition raft_node_main ::
  "(string, string) dict \<Rightarrow> (string \<Rightarrow> nat \<Rightarrow> rat \<Rightarrow> rat \<Rightarrow> rat) \<Rightarrow> (string \<times> int \<times> (ledger_entry, ledger) grpc_process option) result" where
  "raft_node_main environ rnd =
     rbind (environ_get environ ''NODE_ID'') (\<lambda>nid.
     rbind (rbind (environ_get environ ''LISTEN_PORT'') py_int) (\<lambda>port.
     rbind (rbind (environ_get environ ''PEER_ADDRESSES'') parse_address_map) (\<lambda>peer_addresses.
     rbind (parse_balances (dict_get_default environ ''INITIAL_BALANCES'' '''')) (\<lambda>initial_balances.
       Inr (nid, port, map_option (\<lambda>bals. GrpcRaftNode nid peer_addresses InMemoryStorage (LedgerStateMachine bals) (rnd nid))
              (finite_balances initial_balances))))))"

section \<open>The coordinator (docker/coordinator\_entrypoint.py)\<close>

text \<open>Its \<open>parse_address_map\<close> differs from that of a node in the message of the last exception only; the loop is the same.\<close>

definition parse_raft_addresses :: "string \<Rightarrow> (string, string) dict result" where
  "parse_raft_addresses val =
     rbind (parse_pairs (py_split CHR '','' val) []) (\<lambda>addresses.
       if addresses = [] then Inl ValueError else Inr addresses)"

lemma parse_raft_addresses_eq [simp]: "parse_raft_addresses = parse_address_map"
  by (simp add: fun_eq_iff parse_raft_addresses_def parse_address_map_def)

text \<open>It builds a client for the cluster \<open>w\<close> at these addresses and a coordinator with the default settings in front of it.\<close>

definition coordinator_main :: "(string, string) dict \<Rightarrow> 'w \<Rightarrow> ((string, string) dict \<times> 'w coordinator) result" where
  "coordinator_main environ w =
     rbind (rbind (environ_get environ ''RAFT_ADDRESSES'') parse_raft_addresses) (\<lambda>raft_addresses.
     rbind (py_int (dict_get_default environ ''NUM_PARTITIONS'' ''4'')) (\<lambda>n.
     rbind (py_int (dict_get_default environ ''NUM_FRAUD_WORKERS'' ''3'')) (\<lambda>num_fraud_workers.
     rbind (Coordinator n (nat num_fraud_workers) 1 ScorerConfig False w) (\<lambda>co. Inr (raft_addresses, co)))))"

text \<open>What the module \<open>random\<close>, \<open>uuid4\<close> and the clock contribute to one sample.\<close>

record draw =
  dr_choice :: nat
  dr_random :: rat
  dr_randint :: int
  dr_uuid :: string
  dr_now :: int

definition accounts :: "string list" where
  "accounts = map (\<lambda>i. ''acct-'' @ int_str (int i)) [0..<10]"

text \<open>The literal \<open>0.1\<close> is the nearest double.\<close>

definition is_fraud_shaped :: "draw \<Rightarrow> bool" where
  "is_fraud_shaped d \<longleftrightarrow> dr_random d < 3602879701896397 / 36028797018963968"

definition sample_amount :: "draw \<Rightarrow> dec_literal result" where
  "sample_amount d = (if is_fraud_shaped d then py_decimal ''25000'' else py_decimal (int_str (dr_randint d)))"

definition sample_transaction :: "draw \<Rightarrow> transaction result" where
  "sample_transaction d =
     rbind (sample_amount d) (\<lambda>amount.
       Transaction \<lparr>txn_account_id = accounts ! dr_choice d, txn_type = DEBIT, txn_amount = finite_part amount, txn_counterparty = None,
         txn_currency = ''USD'', txn_region = ''us-east-1'', txn_status = PENDING, txn_id = dr_uuid d, txn_created_at = dr_now d,
         txn_metadata = []\<rparr>)"

text \<open>What \<open>choice\<close>, \<open>random\<close> and \<open>randint(5, 200)\<close> can return.\<close>

definition draw_ok :: "draw \<Rightarrow> bool" where
  "draw_ok d \<longleftrightarrow> dr_choice d < length accounts \<and> 0 \<le> dr_random d \<and> dr_random d < 1 \<and> 5 \<le> dr_randint d \<and> dr_randint d \<le> 200"

section \<open>Reading back what was written\<close>

text \<open>The text of pairs, as the compose file writes it.\<close>

definition show_pairs :: "(string \<times> string) list \<Rightarrow> string" where
  "show_pairs ps = join_with CHR '','' (map (\<lambda>(n, a). n @ CHR ''='' # a) ps)"

definition pair_ok :: "string \<times> string \<Rightarrow> bool" where
  "pair_ok p \<longleftrightarrow> no_space (fst p) \<and> no_space (snd p) \<and> CHR '','' \<notin> set (fst p) \<and> CHR '','' \<notin> set (snd p) \<and> CHR ''='' \<notin> set (fst p)"

definition addresses_ok :: "(string, string) dict \<Rightarrow> bool" where
  "addresses_ok addresses \<longleftrightarrow> addresses \<noteq> [] \<and> distinct (dict_keys addresses) \<and>
     list_all (\<lambda>p. pair_ok p \<and> fst p \<noteq> [] \<and> snd p \<noteq> []) addresses"

definition show_balances :: "(string, decimal) dict \<Rightarrow> string" where
  "show_balances bals = show_pairs (map (\<lambda>(a, d). (a, dec_str d)) bals)"

definition balances_ok :: "(string, decimal) dict \<Rightarrow> bool" where
  "balances_ok bals \<longleftrightarrow> distinct (dict_keys bals) \<and> list_all (\<lambda>(a, d). pair_ok (a, [])) bals"

lemma split_show_pairs: "ps \<noteq> [] \<Longrightarrow> list_all pair_ok ps \<Longrightarrow> py_split CHR '','' (show_pairs ps) = map (\<lambda>(n, a). n @ CHR ''='' # a) ps"
  unfolding show_pairs_def by (rule py_split_join) (auto simp: list_all_iff pair_ok_def)

lemma read_pair:
  assumes "pair_ok (n, a)"
  shows "py_strip (n @ CHR ''='' # a) = n @ CHR ''='' # a" "py_partition CHR ''='' (n @ CHR ''='' # a) = (n, ''='', a)"
  using assms by (auto simp: pair_ok_def no_space_def is_space_def intro!: py_strip_word py_partition_pair)

lemma dict_set_fresh: "k \<notin> set (dict_keys d) \<Longrightarrow> dict_set k v d = d @ [(k, v)]"
  by (induction d) auto

lemma parse_pairs_show:
  assumes "list_all (\<lambda>p. pair_ok p \<and> fst p \<noteq> [] \<and> snd p \<noteq> []) ps" "distinct (dict_keys (d @ ps))"
  shows "parse_pairs (map (\<lambda>(n, a). n @ CHR ''='' # a) ps) d = Inr (d @ ps)"
  using assms
proof (induction ps arbitrary: d)
  case (Cons x ps)
  obtain n a where x: "x = (n, a)" by force
  have w: "pair_ok (n, a)" "n \<noteq> []" "a \<noteq> []" using Cons.prems(1) by (auto simp: x)
  have "dict_set n a d = d @ [(n, a)]" using Cons.prems(2) by (intro dict_set_fresh) (auto simp: x)
  then show ?case using Cons.IH [of "d @ [(n, a)]"] Cons.prems w read_pair [OF w(1)] by (simp add: x)
qed simp

lemma parse_address_map_show: "addresses_ok addresses \<Longrightarrow> parse_address_map (show_pairs addresses) = Inr addresses"
  using split_show_pairs [of addresses] parse_pairs_show [of addresses "[]"]
  by (simp add: parse_address_map_def addresses_ok_def list_all_iff)

lemma parse_balance_pairs_show:
  assumes "list_all (\<lambda>(a, d). pair_ok (a, [])) bals" "distinct (dict_keys (map (\<lambda>(a, d). (a, Finite d)) bals') @ dict_keys bals)"
  shows "parse_balance_pairs (map (\<lambda>(n, a). n @ CHR ''='' # a) (map (\<lambda>(a, d). (a, dec_str d)) bals)) (map (\<lambda>(a, d). (a, Finite d)) bals') =
    Inr (map (\<lambda>(a, d). (a, Finite d)) (bals' @ bals))"
  using assms
proof (induction bals arbitrary: bals')
  case (Cons x bals)
  obtain a d where x: "x = (a, d)" by force
  have w: "pair_ok (a, dec_str d)"
    using Cons.prems(1) plain_word [OF plain_chars(3) [of d]] by (simp add: x pair_ok_def)
  have "dict_set a (Finite d) (map (\<lambda>(a, d). (a, Finite d)) bals') = map (\<lambda>(a, d). (a, Finite d)) (bals' @ [(a, d)])"
    using Cons.prems(2) by (subst dict_set_fresh) (auto simp: x)
  then show ?case
    using Cons.IH [of "bals' @ [(a, d)]"] Cons.prems read_pair [OF w] py_decimal_str by (simp add: x)
qed simp

lemma finite_balances_map: "finite_balances (map (\<lambda>(a, d). (a, Finite d)) bals) = Some bals"
  by (induction bals) auto

lemma parse_balances_show:
  assumes "balances_ok bals"
  shows "parse_balances (show_balances bals) = Inr (map (\<lambda>(a, d). (a, Finite d)) bals)"
proof (cases "bals = []")
  case True
  then show ?thesis by (simp add: parse_balances_def show_balances_def show_pairs_def py_strip_def)
next
  case False
  have "list_all pair_ok (map (\<lambda>(a, d). (a, dec_str d)) bals)"
    using assms plain_word [OF plain_chars(3)] by (auto simp: balances_ok_def pair_ok_def list_all_iff)
  then show ?thesis
    using False assms parse_balance_pairs_show [of bals "[]"]
    by (simp add: parse_balances_def show_balances_def split_show_pairs balances_ok_def)
qed

lemma parse_pairs_nonempty:
  assumes "parse_pairs pairs d = Inr d'" "list_all (\<lambda>(n, a). n \<noteq> [] \<and> a \<noteq> []) d" "distinct (dict_keys d)"
  shows "list_all (\<lambda>(n, a). n \<noteq> [] \<and> a \<noteq> []) d' \<and> distinct (dict_keys d')"
  using assms
proof (induction pairs arbitrary: d)
  case (Cons pair rest)
  obtain n sep a where p: "py_partition CHR ''='' (py_strip pair) = (n, sep, a)" by (cases "py_partition CHR ''='' (py_strip pair)")
  have upd: "list_all (\<lambda>(n, a). n \<noteq> [] \<and> a \<noteq> []) (dict_set n a d)" if "n \<noteq> []" "a \<noteq> []"
    using Cons.prems(2) that by (induction d) auto
  show ?case
  proof (cases "py_strip pair = []")
    case True
    then show ?thesis using Cons by simp
  next
    case False
    then have ne: "n \<noteq> []" "a \<noteq> []" and rest: "parse_pairs rest (dict_set n a d) = Inr d'"
      using Cons.prems(1) p by (auto split: if_splits)
    show ?thesis by (rule Cons.IH [OF rest upd [OF ne] distinct_update [OF Cons.prems(3)]])
  qed
qed simp

lemma parse_pairs_error: "parse_pairs pairs d = Inl e \<Longrightarrow> e = ValueError"
  by (induction pairs d rule: parse_pairs.induct) (auto simp: Let_def split: if_splits prod.splits)

section \<open>The containers of a deployment\<close>

text \<open>Every container runs \<open>main\<close>; together their nodes are a cluster of processes.\<close>

fun boot_nodes ::
  "(string, string) dict list \<Rightarrow> (string \<Rightarrow> nat \<Rightarrow> rat \<Rightarrow> rat \<Rightarrow> rat) \<Rightarrow> (string, (ledger_entry, ledger) grpc_process) dict option" where
  "boot_nodes [] rnd = Some []"
| "boot_nodes (environ # environs) rnd =
     (case raft_node_main environ rnd of
        Inr (nid, port, Some nd) \<Rightarrow> map_option ((#) (nid, nd)) (boot_nodes environs rnd)
      | _ \<Rightarrow> None)"

definition boot_cluster ::
  "(string, string) dict list \<Rightarrow> (string \<Rightarrow> nat \<Rightarrow> rat \<Rightarrow> rat \<Rightarrow> rat) \<Rightarrow> (ledger_entry, ledger) grpc_world option" where
  "boot_cluster environs rnd = map_option (\<lambda>ns. \<lparr>gw_nodes = ns, gw_calls = [], gw_answers = []\<rparr>) (boot_nodes environs rnd)"

text \<open>The environments as a compose file writes them.\<close>

definition node_environ :: "int \<Rightarrow> (string, decimal) dict \<Rightarrow> string \<times> (string, string) dict \<Rightarrow> (string, string) dict" where
  "node_environ port bals proc =
     [(''NODE_ID'', fst proc), (''LISTEN_PORT'', int_str port), (''PEER_ADDRESSES'', show_pairs (snd proc)),
      (''INITIAL_BALANCES'', show_balances bals)]"

definition coordinator_environ :: "(string, string) dict \<Rightarrow> int \<Rightarrow> int \<Rightarrow> (string, string) dict" where
  "coordinator_environ addrs n k =
     [(''RAFT_ADDRESSES'', show_pairs addrs), (''NUM_PARTITIONS'', int_str n), (''NUM_FRAUD_WORKERS'', int_str k)]"

definition short_number :: "int \<Rightarrow> bool" where
  "short_number n \<longleftrightarrow> num_digits (nat \<bar>n\<bar>) \<le> 4300"

lemma py_int_short: "short_number n \<Longrightarrow> py_int (int_str n) = Inr n"
proof -
  have len: "length (nat_str k) = num_digits k" for k
    by (induction k rule: nat_str.induct) (subst nat_str.simps, subst num_digits.simps, simp)
  assume "short_number n"
  then show ?thesis by (intro py_int_str) (simp add: len short_number_def)
qed

lemma node_main_environ:
  assumes "short_number port" "addresses_ok (snd proc)" "balances_ok bals"
  shows "raft_node_main (node_environ port bals proc) rnd =
    Inr (fst proc, port, Some (GrpcRaftNode (fst proc) (snd proc) InMemoryStorage (LedgerStateMachine bals) (rnd (fst proc))))"
  using assms
  by (simp add: raft_node_main_def node_environ_def environ_get_def py_int_short parse_address_map_show dict_get_default_def
      parse_balances_show finite_balances_map)

lemma boot_cluster_environs:
  assumes "short_number port" "list_all (\<lambda>proc. addresses_ok (snd proc)) procs" "balances_ok bals"
  shows "boot_cluster (map (node_environ port bals) procs) rnd = Some (grpc_cluster procs (LedgerStateMachine bals) rnd)"
proof -
  have "boot_nodes (map (node_environ port bals) procs) rnd =
      Some (map (\<lambda>(n, addrs). (n, GrpcRaftNode n addrs InMemoryStorage (LedgerStateMachine bals) (rnd n))) procs)"
    using assms(2) by (induction procs) (auto simp: node_main_environ [OF assms(1) _ assms(3)])
  then show ?thesis by (simp add: boot_cluster_def grpc_cluster_def)
qed

lemma coordinator_main_environ:
  assumes "addresses_ok addrs" "short_number n" "short_number k"
  shows "coordinator_main (coordinator_environ addrs n k) w =
    rbind (Coordinator n (nat k) 1 ScorerConfig False w) (\<lambda>co. Inr (addrs, co))"
  using assms
  by (simp add: coordinator_main_def coordinator_environ_def environ_get_def parse_address_map_show dict_get_default_def py_int_short)

section \<open>The samples\<close>

lemma sample_built:
  assumes "draw_ok d"
  obtains t where "sample_transaction d = Inr t" "valid_transaction t" "txn_metadata t = []"
    "dec_val (txn_amount t) = (if is_fraud_shaped d then 25000 else of_int (dr_randint d))"
proof -
  have "char_of (50::nat) = CHR ''2''" "char_of (53::nat) = CHR ''5''" "char_of (48::nat) = CHR ''0''" by code_simp+
  then have "nat_str 25000 = ''25000''" by (simp add: nat_str.simps digit_char_def)
  then have "int_str 25000 = ''25000''" by (simp add: int_str_def)
  moreover have "dec_str (Dec k 0) = int_str k" for k
  proof -
    have "exponent_str 0 = []" by (simp add: exponent_str_def)
    moreover have "0 < length (nat_str (nat \<bar>k\<bar>))" using nat_str_digits(3) by simp
    ultimately show ?thesis by (simp add: dec_str_def unsigned_str_def int_str_def Let_def)
  qed
  ultimately have amount: "sample_amount d = Inr (Finite (Dec (if is_fraud_shaped d then 25000 else dr_randint d) 0))"
    using py_decimal_str [of "Dec 25000 0"] py_decimal_str [of "Dec (dr_randint d) 0"] by (simp add: sample_amount_def)
  have "accounts ! dr_choice d \<in> set accounts" using assms by (simp add: draw_ok_def)
  then have "accounts ! dr_choice d \<noteq> []" by (auto simp: accounts_def)
  then have "is_ok (sample_transaction d)"
    using amount assms by (auto simp: sample_transaction_def Transaction_Inr valid_transaction_def draw_ok_def dec_val_def is_ok_def)
  then obtain t where t: "sample_transaction d = Inr t" by (auto simp: is_ok_def)
  show ?thesis using t amount by (intro that [OF t]) (auto simp: sample_transaction_def Transaction_Inr dec_val_def)
qed

lemma sample_valid: "sample_transaction d = Inr t \<Longrightarrow> valid_transaction t"
  by (auto simp: sample_transaction_def rbind_Inr_conv Transaction_Inr)

section \<open>Properties\<close>

text \<open>
  An address map that is written out with commas and equals signs is read back unchanged. Whatever the text,
  parsing either raises ValueError or gives a non-empty map in which no node id and no address is empty.
\<close>

lemma address_map_roundtrip:
  "(addresses_ok addresses \<longrightarrow> parse_address_map (show_pairs addresses) = Inr addresses) \<and>
   (case parse_address_map val of
      Inl e \<Rightarrow> e = ValueError
    | Inr d \<Rightarrow> d \<noteq> [] \<and> distinct (dict_keys d) \<and> list_all (\<lambda>(n, a). n \<noteq> [] \<and> a \<noteq> []) d)"
proof (intro conjI impI)
  show "addresses_ok addresses \<Longrightarrow> parse_address_map (show_pairs addresses) = Inr addresses" by (rule parse_address_map_show)
  show "case parse_address_map val of
      Inl e \<Rightarrow> e = ValueError
    | Inr d \<Rightarrow> d \<noteq> [] \<and> distinct (dict_keys d) \<and> list_all (\<lambda>(n, a). n \<noteq> [] \<and> a \<noteq> []) d"
  proof (cases "parse_pairs (py_split CHR '','' val) []")
    case (Inl e)
    then show ?thesis using parse_pairs_error by (simp add: parse_address_map_def)
  next
    case (Inr d)
    then show ?thesis using parse_pairs_nonempty [OF Inr] by (auto simp: parse_address_map_def)
  qed
qed

text \<open>The environments of the repository's compose file, less two of its five nodes.\<close>

definition demo_containers :: "(string \<times> (string, string) dict) list" where
  "demo_containers =
     [(''raft-1'', [(''raft-2'', ''raft-2:50051''), (''raft-3'', ''raft-3:50051'')]),
      (''raft-2'', [(''raft-1'', ''raft-1:50051''), (''raft-3'', ''raft-3:50051'')]),
      (''raft-3'', [(''raft-1'', ''raft-1:50051''), (''raft-2'', ''raft-2:50051'')])]"

definition demo_targets :: "(string, string) dict" where
  "demo_targets = [(''raft-1'', ''raft-1:50051''), (''raft-2'', ''raft-2:50051''), (''raft-3'', ''raft-3:50051'')]"

definition demo_seed :: "(string, decimal) dict" where
  "demo_seed = [(''acct-1'', Dec 1000 0), (''acct-2'', Dec 1000 0)]"

lemma demo_containers_ok:
  "procs_ok demo_containers" "list_all (\<lambda>proc. addresses_ok (snd proc)) demo_containers" "addresses_ok demo_targets"
  "balances_ok demo_seed"
  by code_simp+

lemma demo_numbers_ok: "short_number 50051" "short_number 4" "short_number 3"
  by (simp_all add: short_number_def num_digits.simps)

text \<open>
  Amounts survive the environment: every finite decimal, whatever its exponent, is read back exactly from the
  text that str gives for it, and so is a map of seed balances. A node whose main reads a written environment is the
  node with that id, these peers and their addresses, an empty storage and a ledger with exactly these balances.
\<close>

lemma node_environment_roundtrip:
  "py_decimal (dec_str d) = Inr (Finite d) \<and>
   (balances_ok bals \<longrightarrow> rbind (parse_balances (show_balances bals)) (\<lambda>b. Inr (finite_balances b)) = Inr (Some bals)) \<and>
   (short_number port \<and> addresses_ok peer_addresses \<and> balances_ok bals \<longrightarrow>
    (\<exists>p. raft_node_main (node_environ port bals (nid, peer_addresses)) rnd = Inr (nid, port, Some p) \<and>
      gt_addresses (gp_transport p) = peer_addresses \<and> gt_self_node_id (gp_transport p) = Some nid \<and>
      rt_node (gp_runtime p) =
        RaftNode nid (dict_keys peer_addresses) InMemoryStorage (LedgerStateMachine bals) (3/10) (6/10) (1/10) (rnd nid)))"
  using py_decimal_str node_main_environ [of port "(nid, peer_addresses)" bals rnd]
  by (simp add: parse_balances_show finite_balances_map GrpcRaftNode_def RaftNodeRuntime_def GrpcRaftTransport_def bind_runtime_def
      RaftNode_def Let_def)

text \<open>The only exceptions of the parts.\<close>

lemma rbind_errorE:
  assumes "rbind r f = Inl e"
  obtains "r = Inl e" | v where "r = Inr v" "f v = Inl e"
  using assms by (cases r) auto

lemma py_int_error: "py_int s = Inl e \<Longrightarrow> e = ValueError"
  by (auto simp: py_int_def Let_def split: prod.splits if_splits)

lemma parse_address_map_error: "parse_address_map s = Inl e \<Longrightarrow> e = ValueError"
  using parse_pairs_error by (auto simp: parse_address_map_def rbind_Inl_conv split: if_splits)

lemma py_decimal_error: "py_decimal s = Inl e \<Longrightarrow> e = InvalidOperation"
  by (auto simp: py_decimal_def parse_number_def parse_exponent_def rbind_Inl_conv Let_def split: prod.splits if_splits list.splits)

lemma parse_balances_error: "parse_balances s = Inl e \<Longrightarrow> e = InvalidOperation"
proof -
  have "parse_balance_pairs ps d = Inl e \<Longrightarrow> e = InvalidOperation" for ps d
    using py_decimal_error
    by (induction ps d rule: parse_balance_pairs.induct) (auto simp: Let_def rbind_Inl_conv split: if_splits prod.splits)
  then show "parse_balances s = Inl e \<Longrightarrow> e = InvalidOperation" by (simp add: parse_balances_def)
qed


text \<open>
  Every sample of the coordinator's entry point is a valid transaction, and with the default configuration every worker
  flags it exactly when it was drawn fraud-shaped or its account has more than five transactions in the window.
\<close>

lemma sample_flagging:
  assumes "draw_ok d" "rs_config s = ScorerConfig"
  shows "\<exists>t fs s'. sample_transaction d = Inr t \<and> valid_transaction t \<and> score t now scored_at s = (Inr fs, s') \<and>
    (fs_is_fraud fs \<longleftrightarrow> is_fraud_shaped d \<or> 5 < fst (record_and_count t now s))"
proof -
  obtain t where t: "sample_transaction d = Inr t" "valid_transaction t" "txn_metadata t = []"
    "dec_val (txn_amount t) = (if is_fraud_shaped d then 25000 else of_int (dr_randint d))"
    by (rule sample_built [OF assms(1)])
  have "weights_ok (rs_config s)" by (simp add: assms(2) weights_ok_def ScorerConfig_def)
  then obtain fs s' where fs: "score t now scored_at s = (Inr fs, s')" using score_result [of s t now scored_at] by auto
  have "dec_val (txn_amount t) < 10000" if "\<not> is_fraud_shaped d"
    using assms(1) t(4) that by (simp add: draw_ok_def)
  then show ?thesis using t fs default_rules [OF assms(2) fs] by (intro exI [of _ t] exI [of _ fs] exI [of _ s']) auto
qed

definition demo_draw :: draw where
  "demo_draw = \<lparr>dr_choice = 1, dr_random = 1/2, dr_randint = 7, dr_uuid = ''t1'', dr_now = 0\<rparr>"

lemma demo_draw_ok: "draw_ok demo_draw"
  by code_simp

end
