(* ===== verification/Recovery.thy ===== *)
theory Recovery
  imports Fraud_Gate
begin

text \<open>
  No state of a running coordinator is a dead end: with one fresh worker, a health check and enough turns of that worker
  and of the submitter everything that was ever submitted is worked off.
\<close>

section \<open>A turn makes progress\<close>

lemma run_partitions_idle:
  assumes "weights_ok (rs_config (ws_scorer ws))" "log_ok (ws_log ws)" "offsets_ok g (ws_log ws)"
    "distinct ps" "\<And>p. p \<in> set ps \<Longrightarrow> 0 \<le> p \<and> p < num_partitions (ws_log ws)" "room (ws_queue ws) cap" "0 < cap"
    "run_partitions clock g ps cap produced ws = Inr (produced, ws')" "p \<in> set ps"
  shows "next_records g (ws_log ws) p (nat cap) = []"
  using assms(4,5,8,9)
proof (induction ps)
  case (Cons q ps)
  let ?rs = "next_records g (ws_log ws) q (nat cap)"
  have q: "0 \<le> q" "q < num_partitions (ws_log ws)" using Cons.prems(2) by auto
  have poll: "poll_partition (ws_log ws) g q cap = Inr ?rs" using poll_partition_next [OF assms(3) q] assms(7) by simp
  have "?rs = []"
  proof (rule ccontr)
    assume ne: "?rs \<noteq> []"
    have len: "int (length ?rs) \<le> cap" using assms(7) by (simp add: next_records_def)
    obtain new1 ws1 where one: "process_records clock g ?rs cap produced ws = Inr (cap - int (length ?rs), produced @ new1, ws1)"
        "drained g q ?rs ws new1 ws1"
      using process_records_ok [OF assms(1) q, of ?rs g clock cap produced] next_records_nth [OF assms(2,3) q] assms(6) len by (auto simp: room_def)
    note ok1 = drained_ok [OF assms(2,3) q one(2)]
    have new1: "length new1 = length ?rs" using one(2) by (metis drained_def length_map)
    then have "room (ws_queue ws1) (cap - int (length ?rs))" "weights_ok (rs_config (ws_scorer ws1))"
      using assms(1,6) one(2) by (auto simp: room_def drained_def same_but_offsets_def)
    then obtain new2 ws2 where "run_partitions clock g ps (cap - int (length ?rs)) (produced @ new1) ws1 = Inr ((produced @ new1) @ new2, ws2)"
      using run_partitions_ok [of ws1 g ps "cap - int (length ?rs)" clock "produced @ new1"] Cons.prems(1,2) ok1 len by auto
    then show False using Cons.prems(3) assms(7) poll one(1) new1 ne by simp
  qed
  then show ?case using Cons assms(7) poll by auto
qed simp

text \<open>How much of the stream the group has not yet read.\<close>

definition backlog :: "consumer_group \<Rightarrow> transaction partitioned_log \<Rightarrow> nat" where
  "backlog g l = (\<Sum>p \<in> {0..<num_partitions l}. length (pl_partitions l ! nat p) - nat (offset_of g l p))"

lemma backlog_empty:
  assumes "offsets_ok g l" "backlog g l = 0" "0 \<le> p" "p < num_partitions l"
  shows "offset_of g l p = int (length (pl_partitions l ! nat p))"
proof -
  have "length (pl_partitions l ! nat p) - nat (offset_of g l p) = 0"
    using assms(2-4) unfolding backlog_def by (subst (asm) sum_eq_0_iff) auto
  moreover have "0 \<le> offset_of g l p" "offset_of g l p \<le> int (length (pl_partitions l ! nat p))"
    using assms(1,3,4) by (auto simp: offsets_ok_def)
  ultimately show ?thesis by linarith
qed

lemma turn_backlog:
  assumes ok: "offsets_ok g (ws_log ws)" and t: "turn g ps cap ws new ws'" and "new \<noteq> []"
    and ps: "\<And>p. p \<in> set ps \<Longrightarrow> 0 \<le> p \<and> p < num_partitions (ws_log ws)"
  shows "backlog g (ws_log ws') < backlog g (ws_log ws)"
proof -
  obtain k where k: "\<And>p. offset_of g (ws_log ws') p = offset_of g (ws_log ws) p + int (k p)"
    "\<And>p. k p = length (next_records g (ws_log ws) p (k p)) \<or> p \<notin> set ps"
    "map sc_transaction new = concat (map (\<lambda>p. map lr_value (next_records g (ws_log ws) p (k p))) ps)"
    and same: "pl_partitions (ws_log ws') = pl_partitions (ws_log ws)" and ok': "offsets_ok g (ws_log ws')"
    using t turn_offsets_ok [OF ok t] by (auto simp: turn_def same_but_offsets_def)
  have n: "num_partitions (ws_log ws') = num_partitions (ws_log ws)" by (simp add: num_partitions_def same)
  have "\<exists>p \<in> set ps. next_records g (ws_log ws) p (k p) \<noteq> []"
  proof -
    have "map sc_transaction new \<noteq> []" using assms(3) by simp
    then show ?thesis unfolding k(3) by simp
  qed
  then obtain p where p: "p \<in> set ps" "0 < k p" using k(2) by (metis length_greater_0_conv)
  let ?f = "\<lambda>l p. length (pl_partitions l ! nat p) - nat (offset_of g l p)"
  show ?thesis
    unfolding backlog_def n
  proof (rule sum_strict_mono_ex1)
    show "\<forall>q \<in> {0..<num_partitions (ws_log ws)}. ?f (ws_log ws') q \<le> ?f (ws_log ws) q"
      using k(1) by (auto simp: same)
    have "0 \<le> offset_of g (ws_log ws) p" "offset_of g (ws_log ws') p \<le> int (length (pl_partitions (ws_log ws) ! nat p))"
      using ok ok' ps [OF p(1)] by (auto simp: same n offsets_ok_def)
    then have "?f (ws_log ws') p < ?f (ws_log ws) p" using p(2) k(1) [of p] by (simp add: same nat_less_iff)
    then show "\<exists>q \<in> {0..<num_partitions (ws_log ws)}. ?f (ws_log ws') q < ?f (ws_log ws) q" using ps [OF p(1)] by auto
  qed simp
qed

section \<open>Continuations\<close>

lemma coordinator_run_append:
  "coordinator_run md5 propose_fn env (acts @ acts') co = Option.bind (coordinator_run md5 propose_fn env acts co) (coordinator_run md5 propose_fn env acts')"
proof (induction acts arbitrary: co)
  case (Cons a acts)
  show ?case by (cases "coordinator_act md5 propose_fn env a co") (simp_all add: Cons)
qed simp

lemma submissions_append: "submissions (acts @ acts') = submissions acts @ submissions acts'"
  by (induction acts rule: submissions.induct) simp_all

text \<open>The steps of one thread that nobody interrupts.\<close>

lemma worker_steps:
  assumes "i < length (co_threads co)" "fold thread_step rds (co_threads co ! i, co_pipeline co) = (th, pl)"
  shows "coordinator_run md5 propose_fn env (map (CoWorker i) rds) co = Some (co\<lparr>co_threads := (co_threads co)[i := th], co_pipeline := pl\<rparr>)"
  using assms
proof (induction rds arbitrary: co)
  case (Cons rd rds)
  obtain th1 pl1 where s: "thread_step rd (co_threads co ! i, co_pipeline co) = (th1, pl1)" by force
  let ?co = "co\<lparr>co_threads := (co_threads co)[i := th1], co_pipeline := pl1\<rparr>"
  have "coordinator_run md5 propose_fn env (map (CoWorker i) rds) ?co = Some (?co\<lparr>co_threads := (co_threads ?co)[i := th], co_pipeline := pl\<rparr>)"
    using Cons.prems s by (intro Cons.IH) simp_all
  then show ?case using Cons.prems(1) s by (simp add: worker_step_def)
qed auto

lemma submissions_workers: "submissions (map (CoWorker i) rds) = []"
  by (induction rds) simp_all

text \<open>A group with a single member gives it every partition.\<close>

lemma sole_member: "balanced g \<Longrightarrow> set (group_members g) = {m} \<Longrightarrow> group_members g = [m]"
  by (metis balanced_def distinct_sort group_members_def list.set(1,2) sorted_distinct_set_unique sorted_sort distinct_singleton sorted1)

lemma sole_owner: "balanced g \<Longrightarrow> group_members g = [m] \<Longrightarrow> assignment_for m g = [0..cg_num_partitions g - 1]"
  by (auto simp: balanced_def owner_of_def)

lemma pipeline_offsets: "pipeline_ok pl \<Longrightarrow> offsets_ok (pi_group pl) (pi_log pl)"
  by (auto simp: pipeline_ok_def offsets_ok_def delivered_def)

context ledger_backend
begin

definition can_reach :: "(string \<Rightarrow> nat list) \<Rightarrow> 'w coordinator \<Rightarrow> ('w coordinator \<Rightarrow> bool) \<Rightarrow> bool" where
  "can_reach md5 co P \<longleftrightarrow> (\<exists>acts co'. submissions acts = [] \<and> coordinator_run md5 propose_fn env acts co = Some co' \<and> P co')"

lemma can_reach_now: "P co \<Longrightarrow> can_reach md5 co P"
  unfolding can_reach_def by (rule exI [of _ "[]"]) simp

lemma can_reach_by: "coordinator_run md5 propose_fn env acts co = Some co' \<Longrightarrow> submissions acts = [] \<Longrightarrow> P co' \<Longrightarrow> can_reach md5 co P"
  unfolding can_reach_def by blast

lemma can_reach_trans:
  assumes "can_reach md5 co Q" "\<And>co'. Q co' \<Longrightarrow> can_reach md5 co' P"
  shows "can_reach md5 co P"
proof -
  obtain acts co1 where a: "submissions acts = []" "coordinator_run md5 propose_fn env acts co = Some co1" "Q co1"
    using assms(1) by (auto simp: can_reach_def)
  obtain acts' co2 where b: "submissions acts' = []" "coordinator_run md5 propose_fn env acts' co1 = Some co2" "P co2"
    using assms(2) [OF a(3)] by (auto simp: can_reach_def)
  show ?thesis by (rule can_reach_by [of _ "acts @ acts'"]) (use a b in \<open>simp_all add: coordinator_run_append submissions_append\<close>)
qed

lemma quiet_run_ok:
  assumes "co_ok T w0 co" "\<forall>t \<in> T. valid_transaction t" "submissions acts = []" "coordinator_run md5 propose_fn env acts co = Some co'"
  shows "co_ok T w0 co'"
  using run_ok [OF assms(1,2), of acts md5] assms(3,4) by auto

text \<open>A coordinator whose group has one member, and that member's thread is at the head of its loop.\<close>

definition solo :: "nat \<Rightarrow> string \<Rightarrow> transaction set \<Rightarrow> 'w \<Rightarrow> 'w coordinator \<Rightarrow> bool" where
  "solo i m T w0 co \<longleftrightarrow> co_ok T w0 co \<and> co_running co \<and> i < length (co_threads co) \<and> group_members (pi_group (co_pipeline co)) = [m] \<and>
     (let th = co_threads co ! i in wt_member th = m \<and> wt_pc th = Turn \<and> \<not> wt_stop th \<and> 0 < wt_heartbeat_interval th \<and> 0 < wt_max_batch th)"

lemma settle_takes:
  assumes "submitter_turn propose_fn now co = Some co'" "co_running co" "co_submitter_error co = None" "q_items (pi_queue (co_pipeline co)) = x # xs"
  shows "q_items (pi_queue (co_pipeline co')) = xs \<and> pi_log (co_pipeline co') = pi_log (co_pipeline co) \<and>
    pi_group (co_pipeline co') = pi_group (co_pipeline co) \<and> co_threads co' = co_threads co \<and> co_running co'"
  using assms by (auto simp: submitter_turn_def Let_def split: option.splits sum.splits prod.splits)

lemma drain:
  assumes "solo i m T w0 co" "\<forall>t \<in> T. valid_transaction t"
  shows "can_reach md5 co (\<lambda>co'. solo i m T w0 co' \<and> q_items (pi_queue (co_pipeline co')) = [] \<and>
    pi_log (co_pipeline co') = pi_log (co_pipeline co) \<and> pi_group (co_pipeline co') = pi_group (co_pipeline co))"
  using assms(1)
proof (induction "q_items (pi_queue (co_pipeline co))" arbitrary: co)
  case Nil
  then show ?case by (intro can_reach_now) simp
next
  case (Cons x xs)
  have ok: "co_ok T w0 co" "co_running co" "co_submitter_error co = None" using Cons.prems by (auto simp: solo_def co_ok_def settled_def)
  obtain co1 where c: "submitter_turn propose_fn 0 co = Some co1" using settle_ok [of T co w0 0] ok(1) assms(2) by (auto simp: co_ok_def)
  note t = settle_takes [OF c ok(2,3) Cons.hyps(2) [symmetric]]
  have run: "coordinator_run md5 propose_fn env [CoSettle 0] co = Some co1" using c by simp
  have "co_ok T w0 co1" by (rule quiet_run_ok [OF ok(1) assms(2) _ run]) simp
  then have solo: "solo i m T w0 co1" using Cons.prems t by (simp add: solo_def)
  have "can_reach md5 co1 (\<lambda>co'. solo i m T w0 co' \<and> q_items (pi_queue (co_pipeline co')) = [] \<and>
      pi_log (co_pipeline co') = pi_log (co_pipeline co1) \<and> pi_group (co_pipeline co') = pi_group (co_pipeline co1))"
    using Cons.hyps(1) [of co1] t solo by simp
  then show ?case
    using t by (intro can_reach_trans [OF can_reach_by [OF run, of "\<lambda>co'. co' = co1"]]) simp_all
qed

lemma round:
  assumes s: "solo i m T w0 co" and valid: "\<forall>t \<in> T. valid_transaction t" and q: "q_items (pi_queue (co_pipeline co)) = []"
    and more: "0 < backlog (pi_group (co_pipeline co)) (pi_log (co_pipeline co))"
  shows "can_reach md5 co (\<lambda>co'. solo i m T w0 co' \<and>
    backlog (pi_group (co_pipeline co')) (pi_log (co_pipeline co')) < backlog (pi_group (co_pipeline co)) (pi_log (co_pipeline co)))"
proof -
  let ?th = "co_threads co ! i" and ?pl = "co_pipeline co"
  let ?th1 = "?th\<lparr>wt_pc := Capacity\<rparr>" and ?g = "pi_group (co_pipeline co)"
  have i: "i < length (co_threads co)" and ok: "co_ok T w0 co" "co_running co"
    and g: "group_members ?g = [m]" and th: "wt_member ?th = m" "wt_pc ?th = Turn" "\<not> wt_stop ?th" "0 < wt_heartbeat_interval ?th" "0 < wt_max_batch ?th"
    using s by (auto simp: solo_def Let_def)
  have pl: "pipeline_ok ?pl" "thread_ok ?pl ?th" using ok(1) i by (auto simp: co_ok_def co_pipe_ok_def)
  then have w: "weights_ok (rs_config (wt_scorer ?th))" "log_ok (pi_log ?pl)" "offsets_ok ?g (pi_log ?pl)" "balanced ?g"
    "cg_num_partitions ?g = num_partitions (pi_log ?pl)"
    using pipeline_offsets by (auto simp: thread_ok_def pipeline_ok_def)
  define ws where "ws = view ?th1 ?pl 0"
  have ws: "ws_scorer ws = wt_scorer ?th" "ws_log ws = pi_log ?pl" "ws_queue ws = pi_queue ?pl" by (simp_all add: ws_def view_def)
  let ?cap = "available_capacity (wt_max_batch ?th) (pi_queue ?pl)" and ?ps = "assignment_for m ?g"
  have cap: "0 < ?cap" using th(5) q by (auto simp: available_capacity_def)
  obtain new ws' where run: "worker_run_once int ?g m (wt_max_batch ?th) ws = Inr (new, ws')" "turn ?g ?ps ?cap ws new ws'"
    using worker_run_once_ok [of ws ?g m int "wt_max_batch ?th"] w g cap by (auto simp: ws)
  have ps: "?ps = [0..num_partitions (pi_log ?pl) - 1]" using sole_owner [OF w(4) g] w(5) by simp
  have "new \<noteq> []"
  proof
    assume "new = []"
    then have "run_partitions int ?g ?ps ?cap [] ws = Inr ([], ws')" using run(1) cap by (simp add: worker_run_once_def ws)
    moreover have "room (ws_queue ws) ?cap" using q by (auto simp: room_def available_capacity_def ws)
    ultimately have "next_records ?g (pi_log ?pl) p (nat ?cap) = []" if "p \<in> set ?ps" for p
      using run_partitions_idle [of ws ?g ?ps ?cap int "[]" ws' p] w cap that by (simp add: ws ps)
    then have "length (pl_partitions (pi_log ?pl) ! nat p) - nat (offset_of ?g (pi_log ?pl) p) = 0" if "0 \<le> p" "p < num_partitions (pi_log ?pl)" for p
      using cap that by (simp add: next_records_def ps)
    then show False using more by (simp add: backlog_def)
  qed
  then have less: "backlog ?g (ws_log ws') < backlog ?g (pi_log ?pl)"
    using turn_backlog [OF _ run(2)] w(3) by (simp add: ws ps)
  obtain rds where rds: "fold thread_step rds (?th1, ?pl) = after ?th1 ?pl ws' Turn"
    using solo_turn [of ?th1 ?pl int 0] run(1) th(1) by (auto simp: runs_to_def ends_def ws_def)
  let ?rd = "no_readings\<lparr>rd_now := wt_last_heartbeat ?th\<rparr>"
  have "thread_step ?rd (?th, ?pl) = (?th1, ?pl)" using th by (simp add: thread_step_def)
  then have steps: "fold thread_step (?rd # rds) (?th, ?pl) = after ?th1 ?pl ws' Turn" using rds by simp
  let ?co = "co\<lparr>co_threads := (co_threads co)[i := fst (after ?th1 ?pl ws' Turn)], co_pipeline := snd (after ?th1 ?pl ws' Turn)\<rparr>"
  have r: "coordinator_run md5 propose_fn env (map (CoWorker i) (?rd # rds)) co = Some ?co"
    by (rule worker_steps [OF i]) (simp only: steps prod.collapse)
  have "co_ok T w0 ?co" by (rule quiet_run_ok [OF ok(1) valid submissions_workers r])
  then have "solo i m T w0 ?co" using i ok(2) g th by (simp add: solo_def after_def Let_def)
  then show ?thesis using less by (intro can_reach_by [OF r submissions_workers]) (simp add: after_def)
qed

lemma solo_finishes:
  assumes "solo i m T w0 co" "\<forall>t \<in> T. valid_transaction t"
  shows "can_reach md5 co (\<lambda>co'. solo i m T w0 co' \<and> q_items (pi_queue (co_pipeline co')) = [] \<and>
    backlog (pi_group (co_pipeline co')) (pi_log (co_pipeline co')) = 0)"
  using assms(1)
proof (induction "backlog (pi_group (co_pipeline co)) (pi_log (co_pipeline co))" arbitrary: co rule: less_induct)
  case less
  show ?case
  proof (rule can_reach_trans [OF drain [OF less.prems assms(2)]], elim conjE)
    fix co1
    assume s: "solo i m T w0 co1" and q: "q_items (pi_queue (co_pipeline co1)) = []"
      and same: "pi_log (co_pipeline co1) = pi_log (co_pipeline co)" "pi_group (co_pipeline co1) = pi_group (co_pipeline co)"
    show "can_reach md5 co1 (\<lambda>co'. solo i m T w0 co' \<and> q_items (pi_queue (co_pipeline co')) = [] \<and>
        backlog (pi_group (co_pipeline co')) (pi_log (co_pipeline co')) = 0)"
    proof (cases "backlog (pi_group (co_pipeline co1)) (pi_log (co_pipeline co1)) = 0")
      case True
      then show ?thesis using s q by (intro can_reach_now) simp
    next
      case False
      then show ?thesis
        using less.hyps same by (intro can_reach_trans [OF round [OF s assms(2) q]]) auto
    qed
  qed
qed

text \<open>A fresh worker joins, and the health check evicts everybody else.\<close>

lemma takeover:
  assumes ok: "co_ok T w0 co" and valid: "\<forall>t \<in> T. valid_transaction t" and run: "co_running co"
    and "0 \<le> cg_session_timeout (pi_group (co_pipeline co))"
  shows "can_reach md5 co (solo (length (co_threads co)) m T w0)"
proof -
  let ?g = "pi_group (co_pipeline co)" and ?i = "length (co_threads co)"
  have bal: "balanced ?g" using ok by (simp add: co_ok_def co_pipe_ok_def pipeline_ok_def)
  define now where "now = Max (insert 0 ((\<lambda>(x, ms). ms_last_heartbeat ms + cg_session_timeout ?g) ` set (cg_members ?g))) + 1"
  have late: "cg_session_timeout ?g < now - ms_last_heartbeat ms" if "(x, ms) \<in> set (cg_members ?g)" for x ms
  proof -
    have "ms_last_heartbeat ms + cg_session_timeout ?g \<le> Max (insert 0 ((\<lambda>(x, ms). ms_last_heartbeat ms + cg_session_timeout ?g) ` set (cg_members ?g)))"
      using that by (intro Max_ge) force+
    then show ?thesis by (simp add: now_def)
  qed
  let ?th = "(FraudWorkerRuntime m (RuleBasedScorer m (co_scorer_config co)))\<lparr>wt_stop := False, wt_last_heartbeat := 0, wt_pc := Turn\<rparr>"
  obtain ps g1 where j: "join m now ?g = Inr (ps, g1)" "balanced g1" using join_ok [OF bal] by blast
  have g1: "cg_members g1 = dict_set m \<lparr>ms_member_id = m, ms_last_heartbeat = now\<rparr> (cg_members ?g)" "cg_session_timeout g1 = cg_session_timeout ?g"
    using j(1) by (auto simp: join_def rebalance_def Let_def split: option.splits)
  obtain expired g2 where e: "check_expired_members now g1 = (expired, g2)" by force
  have gone: "x \<in> set expired \<longleftrightarrow> x \<noteq> m \<and> x \<in> set (group_members g1)" for x
  proof -
    have "dict_get (cg_members ?g) x \<noteq> None \<longleftrightarrow> x \<in> set (dict_keys (cg_members ?g))" by (simp add: dict_get_None_iff)
    then show ?thesis
      using check_expired_ok(3) [OF j(2) e, of x] late [OF map_of_SomeD, of x] assms(4)
      by (auto simp: g1 group_members_def dom_update)
  qed
  have "m \<in> set (group_members g1)" by (simp add: g1 group_members_def dom_update)
  then have "set (group_members g2) = {m}" using check_expired_ok(2) [OF j(2) e] gone by auto
  then have sole: "group_members g2 = [m]" by (rule sole_member [OF check_expired_ok(1) [OF j(2) e]])
  let ?co = "co\<lparr>co_threads := co_threads co @ [?th], co_runtimes := dict_set m ?i (co_runtimes co), co_pipeline := (co_pipeline co)\<lparr>pi_group := g2\<rparr>\<rparr>"
  have r: "coordinator_run md5 propose_fn env [CoRevive m now, CoHealth now] co = Some ?co"
    using run j(1) e
    by (simp add: revive_fraud_worker_def spawn_fraud_worker_def start_runtime_def runtime_start_worker_def on_error_def health_check_def
        FraudWorkerRuntime_def)
  have "co_ok T w0 ?co" by (rule quiet_run_ok [OF ok valid _ r]) simp
  then have "solo ?i m T w0 ?co" using run sole by (simp add: solo_def Let_def FraudWorkerRuntime_def)
  then show ?thesis by (intro can_reach_by [OF r]) simp_all
qed

text \<open>When nothing is left in the stream and in the queue, everything was taken.\<close>

lemma all_taken:
  assumes ok: "co_ok T w0 co" and "q_items (pi_queue (co_pipeline co)) = []" "backlog (pi_group (co_pipeline co)) (pi_log (co_pipeline co)) = 0"
  shows "logged_txns (co_pipeline co) = sc_transaction ` set (pi_taken (co_pipeline co))"
proof -
  let ?pl = "co_pipeline co"
  have pl: "pipeline_ok ?pl" using ok by (simp add: co_ok_def co_pipe_ok_def)
  have h: "handed_on ?pl = pi_taken ?pl" using assms(2) by (simp add: handed_on_def)
  have "t \<in> sc_transaction ` set (pi_taken ?pl)" if t: "t \<in> logged_txns ?pl" for t
  proof -
    obtain p r where p: "in_range ?pl p" "r \<in> set (part ?pl p)" "t = lr_value r" using t by (auto simp: logged_txns_iff)
    have "offset_of (pi_group ?pl) (pi_log ?pl) p = int (length (part ?pl p))"
      using backlog_empty [OF pipeline_offsets [OF pl] assms(3)] p(1) by blast
    then have "delivered ?pl p (length (part ?pl p))" using pl p(1) by (metis nat_int pipeline_ok_def)
    then show ?thesis using p(2,3) by (auto simp: delivered_def h)
  qed
  moreover have "sc_transaction ` set (pi_taken ?pl) \<subseteq> logged_txns ?pl" using taken_logged [OF pl] by (auto simp: h)
  ultimately show ?thesis by blast
qed

end

section \<open>The stream keeps what was submitted\<close>

definition same_stream :: "'w coordinator \<Rightarrow> 'w coordinator \<Rightarrow> bool" where
  "same_stream co co' \<longleftrightarrow> pl_partitions (pi_log (co_pipeline co')) = pl_partitions (pi_log (co_pipeline co))"

lemma same_stream_start: "start_runtimes nows is co = Inr co' \<Longrightarrow> same_stream co co'"
proof (induction "is" arbitrary: co)
  case (Cons i "is")
  then show ?case by (fastforce simp: rbind_Inr_conv start_runtime_def runtime_start_worker_def same_stream_def)
qed (simp add: same_stream_def)

lemma same_stream_stop: "same_stream co (fold stop_runtime is co)"
proof (induction "is" arbitrary: co)
  case (Cons i "is")
  show ?case using Cons [of "stop_runtime i co"] by (simp add: same_stream_def stop_runtime_def)
qed (simp add: same_stream_def)

lemma act_stream:
  assumes "coordinator_act md5 propose_fn env a co = Some co'" "submissions [a] = []"
  shows "same_stream co co'"
proof (cases a)
  case (CoStart e nows)
  then show ?thesis
    using assms(1) same_stream_start [of nows]
    by (fastforce simp: same_stream_def on_error_def coordinator_start_def Let_def rbind_Inr_conv split: sum.splits if_splits)
next
  case (CoStop e)
  then show ?thesis
    using assms(1) same_stream_stop [of "co\<lparr>co_running := False\<rparr>" "dict_values (co_runtimes co)"]
    by (auto simp: coordinator_stop_def Let_def same_stream_def split: if_splits)
next
  case (CoRevive m now)
  then show ?thesis
    using assms(1)
    by (auto simp: same_stream_def on_error_def revive_fraud_worker_def spawn_fraud_worker_def start_runtime_def runtime_start_worker_def rbind_Inr_conv
      split: sum.splits)
next
  case (CoWorker i rd)
  then show ?thesis using assms(1) thread_step_partitions [of rd "co_threads co ! i" "co_pipeline co"]
    by (auto simp: same_stream_def worker_step_def split: prod.splits if_splits)
qed (use assms in \<open>auto simp: same_stream_def on_error_def kill_fraud_worker_def stop_runtime_def health_check_def submitter_turn_def Let_def
    split: sum.splits option.splits list.splits if_splits prod.splits\<close>)

context ledger_backend
begin

lemma run_logged:
  assumes "co_ok T w0 co" "\<forall>t \<in> T. valid_transaction t" "list_all valid_transaction (submissions acts)"
    "coordinator_run md5 propose_fn env acts co = Some co'"
  shows "logged_txns (co_pipeline co') = logged_txns (co_pipeline co) \<union> set (submissions acts)"
  using assms
proof (induction acts arbitrary: T co)
  case (Cons a acts)
  obtain co1 where a: "coordinator_act md5 propose_fn env a co = Some co1" "coordinator_run md5 propose_fn env acts co1 = Some co'"
    using Cons.prems(4) by (auto simp: bind_eq_Some_conv)
  have ok1: "co_ok (set (submissions [a]) \<union> T) w0 co1" using act_ok [OF Cons.prems(1,2), of md5 a] a(1) by auto
  have v: "\<forall>t \<in> set (submissions [a]) \<union> T. valid_transaction t" "list_all valid_transaction (submissions acts)"
    using Cons.prems(2,3) submissions_Cons [of a acts] by (auto simp: list_all_iff)
  have "logged_txns (co_pipeline co1) = logged_txns (co_pipeline co) \<union> set (submissions [a])"
  proof (cases "submissions [a] = []")
    case True
    then have "same_stream co co1" by (rule act_stream [OF a(1)])
    then have "logged_txns (co_pipeline co1) = logged_txns (co_pipeline co)" unfolding same_stream_def by (rule logged_same)
    then show ?thesis using True by simp
  next
    case False
    then obtain t now where t: "a = CoSubmit t now" by (cases a) auto
    have "co_pipe_ok T co" using Cons.prems(1) by (simp add: co_ok_def)
    then obtain co2 where "submit_transaction md5 t now co = Inr co2" "logged_txns (co_pipeline co2) = insert t (logged_txns (co_pipeline co))"
      using submit_ok [of T co md5 t now] by blast
    then show ?thesis using a(1) by (simp add: t on_error_def)
  qed
  then show ?case using Cons.IH [OF ok1 v a(2)] submissions_Cons [of a acts] by auto
qed simp

lemma recovers:
  assumes "co_ok T w0 co" "\<forall>t \<in> T. valid_transaction t" "co_running co" "0 \<le> cg_session_timeout (pi_group (co_pipeline co))"
  shows "\<exists>acts co'. submissions acts = [] \<and> coordinator_run md5 propose_fn env acts co = Some co' \<and>
    q_items (pi_queue (co_pipeline co')) = [] \<and> sc_transaction ` set (pi_taken (co_pipeline co')) = logged_txns (co_pipeline co)"
proof -
  have "can_reach md5 co (\<lambda>co'. solo (length (co_threads co)) ''fraud-0'' T w0 co' \<and> q_items (pi_queue (co_pipeline co')) = [] \<and>
      backlog (pi_group (co_pipeline co')) (pi_log (co_pipeline co')) = 0)"
    by (rule can_reach_trans [OF takeover [OF assms] solo_finishes [OF _ assms(2)]])
  then obtain acts co' where a: "submissions acts = []" "coordinator_run md5 propose_fn env acts co = Some co'" "co_ok T w0 co'"
    "q_items (pi_queue (co_pipeline co')) = []" "backlog (pi_group (co_pipeline co')) (pi_log (co_pipeline co')) = 0"
    by (auto simp: can_reach_def solo_def)
  have "logged_txns (co_pipeline co') = logged_txns (co_pipeline co)" using run_logged [OF assms(1,2) _ a(2)] a(1) by simp
  then show ?thesis using a(1,2,4) all_taken [OF a(3-5)] by (intro exI [of _ acts] exI [of _ co']) simp
qed

end

section \<open>Properties\<close>



end
