(* ===== verification/Services.thy ===== *)
theory Services
  imports Entry_Points Recovery
begin

text \<open>
  The coordinator's container as it runs (\<open>main\<close> of docker/coordinator\_entrypoint.py): it starts the coordinator, submits one sample
  after the other until a signal asks it to end, and stops the coordinator whatever happened. Between two samples the
  coordinator's own threads and the cluster do what they like.
\<close>

section \<open>The loop of the entry point\<close>

text \<open>One round: what is drawn for its sample, the time of its submission, and what the other threads do until the next round.\<close>

record 'e round =
  ro_draw :: draw
  ro_now :: int
  ro_meanwhile :: "'e co_action list"

text \<open>The signal handler sets a flag that the loop reads before each round; the loop makes as many rounds as the list has.\<close>

fun sample_loop ::
  "(string \<Rightarrow> nat list) \<Rightarrow> (ledger_entry \<Rightarrow> 'w \<Rightarrow> (ledger_entry log_entry result \<times> 'w) option) \<Rightarrow> ('e \<Rightarrow> 'w \<Rightarrow> 'w)
   \<Rightarrow> 'e round list \<Rightarrow> 'w coordinator \<Rightarrow> (unit result \<times> 'w coordinator) option" where
  "sample_loop md5 propose_fn env [] co = Some (Inr (), co)"
| "sample_loop md5 propose_fn env (r # rounds) co =
     (case rbind (sample_transaction (ro_draw r)) (\<lambda>t. submit_transaction md5 t (ro_now r) co) of
        Inl e \<Rightarrow> Some (Inl e, co)
      | Inr co \<Rightarrow> Option.bind (coordinator_run md5 propose_fn env (ro_meanwhile r) co) (sample_loop md5 propose_fn env rounds))"

text \<open>An exception of \<open>start\<close> ends \<open>main\<close> at once; after that the coordinator is stopped however the loop ends.\<close>

definition run_coordinator ::
  "(string \<Rightarrow> nat list) \<Rightarrow> (ledger_entry \<Rightarrow> 'w \<Rightarrow> (ledger_entry log_entry result \<times> 'w) option) \<Rightarrow> ('e \<Rightarrow> 'w \<Rightarrow> 'w)
   \<Rightarrow> 'e \<Rightarrow> (nat \<Rightarrow> rat) \<Rightarrow> 'e round list \<Rightarrow> 'w coordinator \<Rightarrow> (unit result \<times> 'w coordinator) option" where
  "run_coordinator md5 propose_fn env e nows rounds co =
     (case coordinator_start (env e) nows co of
        Inl err \<Rightarrow> Some (Inl err, co)
      | Inr co \<Rightarrow> map_option (\<lambda>(r, co). (r, coordinator_stop (env e) co)) (sample_loop md5 propose_fn env rounds co))"

text \<open>The threads of the coordinator and the cluster; only the main thread starts, stops and submits.\<close>

fun background :: "'e co_action \<Rightarrow> bool" where
  "background (CoWorker i rd) \<longleftrightarrow> True"
| "background (CoHealth now) \<longleftrightarrow> True"
| "background (CoSettle now) \<longleftrightarrow> True"
| "background (CoCluster e) \<longleftrightarrow> True"
| "background _ \<longleftrightarrow> False"

definition round_ok :: "'e round \<Rightarrow> bool" where
  "round_ok r \<longleftrightarrow> draw_ok (ro_draw r) \<and> list_all background (ro_meanwhile r)"

text \<open>After \<open>stop\<close> the loops of the submitter and of the health check are over, and every worker was told to end.\<close>

definition stopped :: "'w coordinator \<Rightarrow> bool" where
  "stopped co \<longleftrightarrow> \<not> co_running co \<and> (\<forall>i \<in> set (dict_values (co_runtimes co)). wt_stop (co_threads co ! i))"

section \<open>It is an execution of the coordinator\<close>

definition sample_of :: "draw \<Rightarrow> transaction" where
  "sample_of d = (case sample_transaction d of Inr t \<Rightarrow> t)"

definition service_actions :: "'e \<Rightarrow> (nat \<Rightarrow> rat) \<Rightarrow> 'e round list \<Rightarrow> 'e co_action list" where
  "service_actions e nows rounds =
     CoStart e nows # concat (map (\<lambda>r. CoSubmit (sample_of (ro_draw r)) (ro_now r) # ro_meanwhile r) rounds) @ [CoStop e]"

lemma sample_of_ok: "draw_ok d \<Longrightarrow> sample_transaction d = Inr (sample_of d) \<and> valid_transaction (sample_of d)"
  by (rule sample_built [of d]) (auto simp: sample_of_def)

lemma background_submits_nothing: "list_all background acts \<Longrightarrow> submissions acts = []"
proof (induction acts)
  case (Cons a acts)
  then show ?case by (cases a) auto
qed simp

lemma service_submissions:
  assumes "list_all round_ok rounds"
  shows "submissions (service_actions e nows rounds) = map (\<lambda>r. sample_of (ro_draw r)) rounds"
proof -
  have "submissions (concat (map (\<lambda>r. CoSubmit (sample_of (ro_draw r)) (ro_now r) # ro_meanwhile r) rounds) @ [CoStop e]) =
      map (\<lambda>r. sample_of (ro_draw r)) rounds"
    using assms
    by (induction rounds) (auto simp: round_ok_def submissions_append background_submits_nothing)
  then show ?thesis by (simp add: service_actions_def)
qed

lemma stop_stops:
  assumes "\<forall>i \<in> set (dict_values (co_runtimes co)). i < length (co_threads co)"
  shows "stopped (coordinator_stop stop_w co)"
proof -
  have stop: "wt_stop (co_threads (fold stop_runtime is c) ! i) \<and> length (co_threads (fold stop_runtime is c)) = length (co_threads c)"
    if "i \<in> set is \<or> wt_stop (co_threads c ! i)" "i < length (co_threads c)" for i "is" and c :: "'a coordinator"
    using that
  proof (induction "is" arbitrary: c)
    case (Cons j "is")
    then show ?case using Cons.IH [of "stop_runtime j c"] by (cases "j = i") (auto simp: stop_runtime_def runtime_stop_worker_def)
  qed simp
  have keep: "co_runtimes (fold stop_runtime is c) = co_runtimes c \<and> co_running (fold stop_runtime is c) = co_running c"
    for "is" and c :: "'a coordinator"
    by (induction "is" arbitrary: c) (simp_all add: stop_runtime_def)
  show ?thesis using assms stop keep by (simp add: stopped_def coordinator_stop_def Let_def)
qed

context ledger_backend
begin

lemma sample_loop_run:
  assumes "co_ok T w0 co" "\<forall>t \<in> T. valid_transaction t" "list_all round_ok rounds"
  shows "\<exists>co' T'. sample_loop md5 propose_fn env rounds co = Some (Inr (), co') \<and> co_ok T' w0 co' \<and>
    coordinator_run md5 propose_fn env (concat (map (\<lambda>r. CoSubmit (sample_of (ro_draw r)) (ro_now r) # ro_meanwhile r) rounds)) co = Some co'"
  using assms
proof (induction rounds arbitrary: T co)
  case (Cons r rounds)
  let ?t = "sample_of (ro_draw r)"
  have r: "draw_ok (ro_draw r)" "list_all background (ro_meanwhile r)" using Cons.prems(3) by (auto simp: round_ok_def)
  note t = sample_of_ok [OF r(1)]
  have pok: "co_pipe_ok T co" using Cons.prems(1) by (simp add: co_ok_def)
  obtain co1 where co1: "submit_transaction md5 ?t (ro_now r) co = Inr co1" "co_ok (insert ?t T) w0 co1"
    using submit_ok [OF pok, of md5 ?t "ro_now r"] co_ok_same [OF Cons.prems(1)] by blast
  have v: "\<forall>t \<in> insert ?t T. valid_transaction t" using Cons.prems(2) t by blast
  obtain co2 where co2: "coordinator_run md5 propose_fn env (ro_meanwhile r) co1 = Some co2" "co_ok (insert ?t T) w0 co2"
    using run_ok [OF co1(2) v, of "ro_meanwhile r" md5] background_submits_nothing [OF r(2)] by auto
  show ?case
    using Cons.IH [OF co2(2) v] Cons.prems(3) t co1(1) co2(1) by (auto simp: coordinator_run_append on_error_def)
qed auto

lemma service_run:
  assumes "Coordinator n k session_timeout config owns w = Inr co0" "w_ok w" "weights_ok config" "list_all round_ok rounds"
  shows "\<exists>co. run_coordinator md5 propose_fn env e nows rounds co0 = Some (Inr (), co) \<and> stopped co \<and>
    coordinator_run md5 propose_fn env (service_actions e nows rounds) co0 = Some co"
proof -
  obtain co1 where co1: "coordinator_start (env e) nows co0 = Inr co1" "co_ok {} w co1"
    using start_ok [OF Coordinator_ok [OF assms(1-3)]] by blast
  obtain co2 T where co2: "sample_loop md5 propose_fn env rounds co1 = Some (Inr (), co2)" "co_ok T w co2"
    "coordinator_run md5 propose_fn env (concat (map (\<lambda>r. CoSubmit (sample_of (ro_draw r)) (ro_now r) # ro_meanwhile r) rounds)) co1 = Some co2"
    using sample_loop_run [OF co1(2) _ assms(4), of md5] by blast
  have "stopped (coordinator_stop (env e) co2)" using co2(2) by (intro stop_stops) (simp add: co_ok_def co_pipe_ok_def)
  then show ?thesis
    using co1(1) co2(1,3) by (simp add: run_coordinator_def service_actions_def coordinator_run_append on_error_def)
qed

end

section \<open>Properties\<close>


definition demo_rounds :: "nat round list" where
  "demo_rounds = [\<lparr>ro_draw = demo_draw, ro_now = 1, ro_meanwhile = replicate 11 (CoWorker 0 no_readings) @ [CoSettle 3]\<rparr>]"

lemma demo_rounds_ok: "list_all round_ok demo_rounds"
  using demo_draw_ok by (simp add: demo_rounds_def round_ok_def list_all_iff)


end
