(* ===== verification/Spec2Isabelle.thy ===== *)
theory Spec2Isabelle
  imports Raft_Properties Raft_Divergences Raft_Recovery Grpc_Stubs Node_Service Demos Services
begin

text \<open>
  A verification development for the distributed transaction pipeline: transactions enter a partitioned
  stream, a group of fraud workers scores them, a submitter proposes the cleared ones to a Raft cluster,
  and every node of the cluster applies them to a ledger. A coordinator owns the stream, the workers and
  the submitter; the cluster lives in the same process or in processes of its own, reached over gRPC.

  The parts and the theories that model them (files under src/).

  \<^item> \<open>Prelude\<close>: Python's results and exceptions (\<open>'a result\<close>, \<open>py_error\<close>), dictionaries as association lists that
    keep insertion order, slices, and the lemmas on lists and majorities that the components share.
  \<^item> Raft. \<open>Raft_Types\<close>: messages and \<open>InMemoryStorage\<close> (raft/types.py, raft/storage.py). \<open>Raft_Node\<close>: every method of
    \<open>RaftNode\<close> (raft/node.py) as a function on the record \<open>raft_node\<close>, with the messages it sends as a second
    result. \<open>Raft_Transport\<close>: \<open>InMemoryTransport\<close> (raft/transport.py). \<open>Raft_State_Machine\<close>: the replay contract of
    raft/state_machine.py. \<open>Raft_Cluster\<close>, \<open>Raft_Driver\<close>: runtimes and clusters (coordinator/raft_runtime.py,
    coordinator/raft_cluster.py), with \<open>find_leader\<close> and \<open>propose\<close>.
  \<^item> Settlement. \<open>Py_Decimal\<close>: decimal arithmetic at 28 digits with rounding. \<open>Models\<close>: common/models.py.
    \<open>Ledger\<close>: settlement/ledger_state_machine.py. \<open>Submitter\<close>: settlement/submitter.py.
  \<^item> Stream and fraud. \<open>Streaming\<close>: partitioner, log, producer, consumer. \<open>Consumer_Group\<close>: streaming/group.py and the
    group's reader. \<open>Fraud\<close>: fraud/scorer.py and fraud/worker.py. \<open>Fraud_Threads\<close>: coordinator/fraud_runtime.py.
  \<^item> gRPC. \<open>Grpc_Messages\<close>: coordinator/grpc/serialization.py over protobuf's 64-bit fields. \<open>Grpc_Cluster\<close>: the service,
    the transport and the node. \<open>Grpc_Client\<close>: the client. \<open>Grpc_Stubs\<close>: the generated stub, base class, registration and static calls
    of coordinator/grpc/raft_pb2_grpc.py, and how the calls of the transport and of the client go through them.
  \<^item> \<open>Coordinator\<close>: coordinator/coordinator.py. \<open>Operations\<close>: its reports and chaos/fault_injection.py. \<open>Deployments\<close>: the whole
    pipeline, over either cluster. \<open>Fraud_Gate\<close>, \<open>Recovery\<close>: what a running pipeline never lets through, and that it never gets stuck.
  \<^item> \<open>Py_Text\<close>: what the entry points use of Python's strings, \<open>int\<close> and \<open>Decimal\<close> constructors. \<open>Entry_Points\<close>: the mains of docker/, from
    their environments to the node and the coordinator they build, and the sample transactions. \<open>Node_Service\<close>, \<open>Services\<close>: the same mains from
    the start over their loops, a round at a time, to the stop (\<open>run_raft_node\<close>, \<open>run_coordinator\<close>). \<open>Demos\<close>: the scripts of scripts/ as
    programs beside the threads of a coordinator.

  How the parts are composed. The lock of a runtime makes each method call of a node atomic, so an execution of a
  cluster is any sequence of actions (\<open>action\<close>, \<open>cluster_run\<close>): a start, a tick, the delivery of one message, a
  proposal, a partition, a kill or a revival. A turn of the driver loop is such a sequence (\<open>run_once\<close>). Over gRPC
  the actions (\<open>grpc_action\<close>, \<open>grpc_run\<close>) are the two halves of a process's start and stop, turns of its driver, calls
  that arrive at a process that serves, answers that come back, losses of either, and proposals. A worker's thread moves from lock to lock (\<open>thread_step\<close>), so that an execution of a coordinator (\<open>co_action\<close>,
  \<open>coordinator_run\<close>) interleaves the steps of all worker threads with submissions, the health check, kills, revivals, the
  submitter's turns and whatever the cluster does by itself. A client that waits (\<open>find_leader\<close>, \<open>propose\<close>) reads a clock; the
  other threads do what they like up to each of its readings.

  Interfaces. A runtime is given a transport (\<open>message_transport\<close>), which the in-memory network and the gRPC transport interpret.
  The Raft protocol itself is a set of rules on an abstract state (\<open>Raft_Protocol\<close>); \<open>Raft_Votes\<close>, \<open>Raft_Logs\<close>
  and \<open>Raft_Safety\<close> prove its safety once in locales about quorums and terms. \<open>Raft_Simulation\<close>, \<open>Raft_Handlers\<close> and
  \<open>Raft_Network\<close> show that each handler of the code is one or more of these rules, and \<open>Raft_Cluster\<close> and \<open>Grpc_Cluster\<close> that
  executions over either transport are runs of that network. \<open>idempotent_machine\<close> is what a cluster needs of a state
  machine; the ledger and the recording machine interpret it. \<open>pickling\<close> is what serialization needs of pickle: that loading what was
  dumped gives the command back. \<open>protobuf\<close> is what the generated stubs need of the message classes, \<open>rpc_channel\<close> what they need of a channel
  to a server, and \<open>raft_rpc\<close> puts both around a service; channels that drop a request, drop an answer or deliver both interpret them. \<open>proposer\<close> and \<open>ledger_proposer\<close> are what the submitter needs of \<open>propose\<close>, \<open>ledger_backend\<close> what
  the coordinator needs of a cluster; the in-process cluster and the gRPC client interpret them.

  What the theorems show. For clusters: election safety, agreement of committed entries for good, leader completeness, log
  matching, agreement of replicas, and that no execution raises; and that no state is a dead end: from every reachable state any
  majority can elect a leader that logs, commits and applies a new command (\<open>Raft_Majority\<close>: the actions a majority takes among itself;
  \<open>Raft_Elections\<close>: from any state to a leader; \<open>Raft_Recovery\<close>: from a leader to a commit). For the ledger: the effect of an entry on every
  branch, that no account is overdrawn, that each entry is settled once, exact sums. For the stream: order per key, exactly one owner per
  partition, eviction of silent members, that nothing below a committed offset is lost whatever the threads do. For the
  fraud stage: the score as the capped sum of the rules, the window of the velocity rule, a turn of a worker, and that the steps of a thread
  are \<open>run_once\<close>. For gRPC: round trips of all messages, safety with loss and reordering, that the client returns, and that the stub's methods are
  the service's, over every channel that keeps the library's promises.
  For the whole: each submitted transaction is accepted at most once on every replica, and only when its score cleared it;
  what the amount or the device makes fraud reaches no ledger; from every state of a running coordinator a fresh worker can work off
  everything. For the entry points: numbers, balances and address maps are read back from the texts they are written as, malformed
  ones raise what the code says, and containers that are started from such texts form a pipeline with the same promises: the coordinator's main raises nothing, however many
  samples it submits, and stops every loop at its end; a node's main prints terms that never decrease and closes its process for good. The
  demonstrations always end, and what they can report is shown: never a double spend, nothing lost twice, no large fraud settled.

  Where the code does not do what it says, a theorem shows how: \<open>late_prevote_starts_election\<close>, \<open>single_node_never_commits\<close>,
  \<open>shared_queue_raises\<close>, \<open>restart_breaks_election_safety\<close>, \<open>evicted_worker_stops\<close>.

  Choices. Time is a rational; clock readings, random numbers, UUIDs and MD5 digests are arguments. Floating-point
  weights and timeouts are exact fractions. Decimals are finite; a text may also denote an infinity or a NaN, which the entry point
  of a node accepts as a balance and the model stops at. Sets and dictionaries whose order the code does not use are sets
  and association lists. Loops that wait for a clock are \<open>partial_function (option)\<close>, and that they return is proved for every clock
  that passes every time at last (\<open>clock_ok\<close>); no fuel is used. Integers are unbounded, as in Python, except the protobuf
  fields, which are 64-bit words and raise when a number does not fit. \<open>stop\<close> asks a thread to end at the head of its loop.

  Not modelled: the bytes of the protobuf messages (coordinator/grpc/raft_pb2.py is a serialized descriptor for the protobuf library; what
  the stubs need of it is an argument), the inside of the gRPC library's channels, executors and servers (calls and answers are lists that
  lose and reorder), logging, what the coordinator and the demonstrations print, and the delivery of signals (a loop makes as many rounds as it
  is given). Two reads that the code makes under separate locks inside one service call (whether a proposal was accepted, and the
  leader's name as a hint) are one step; the hint plays no part in any property.
\<close>

end
